(* ===== verification/Prelude.thy ===== *)
theory Prelude
  imports Main "HOL-Library.Word" "HOL-Library.Monad_Syntax"
begin

text \<open>
  Shared vocabulary of the development: the machine integers of the firmware, the
  panic monad for slice accesses that Rust checks at run time, the clock that the
  environment supplies, and the generic lemmas the components use.

  A Rust call that may panic returns \<open>'a rs\<close>: \<open>ret x\<close> when it returns \<open>x\<close>, \<open>panic\<close> when
  an index or a range is out of bounds.  A Rust \<open>Option\<close> result is an option inside it.
  Indices are \<open>nat\<close>: on the 32-bit target every slice is shorter than \<open>2 ^ 31\<close> bytes, so
  the sums of an index and a length that the code forms stay below \<open>2 ^ 32\<close>.
\<close>

unbundle bit_operations_syntax

named_theorems rs_simps "equations of the panic monad primitives when the access is in bounds"

section \<open>Machine integers and byte strings\<close>

type_synonym u8 = "8 word"
type_synonym u16 = "16 word"
type_synonym u32 = "32 word"
type_synonym u64 = "64 word"
type_synonym bytes = "u8 list"

definition ascii :: "string \<Rightarrow> bytes" where
  "ascii s = map (\<lambda>c. of_char c) s"

text \<open>\<open>saturating_add\<close> on an unsigned word.\<close>

definition sat_add :: "'a::len word \<Rightarrow> 'a word \<Rightarrow> 'a word" where
  "sat_add x y = (if x + y < x then - 1 else x + y)"

text \<open>\<open>u8::to_ascii_lowercase\<close>, \<open>u8::is_ascii_whitespace\<close>, \<open><[u8]>::eq_ignore_ascii_case\<close>.\<close>

definition ascii_lower :: "u8 \<Rightarrow> u8" where
  "ascii_lower b = (if 65 \<le> b \<and> b \<le> 90 then b + 32 else b)"

definition ascii_space :: "u8 \<Rightarrow> bool" where
  "ascii_space b \<longleftrightarrow> b = 32 \<or> b = 9 \<or> b = 10 \<or> b = 12 \<or> b = 13"

definition eq_ignore_case :: "bytes \<Rightarrow> bytes \<Rightarrow> bool" where
  "eq_ignore_case a b \<longleftrightarrow> map ascii_lower a = map ascii_lower b"

text \<open>\<open>core::str::from_utf8\<close>, and its \<open>unwrap_or\<close>.\<close>

definition utf8_cont :: "u8 \<Rightarrow> bool" where
  "utf8_cont b \<longleftrightarrow> 0x80 \<le> b \<and> b \<le> 0xBF"

fun utf8_valid :: "bytes \<Rightarrow> bool" where
  "utf8_valid [] = True"
| "utf8_valid (b # bs) =
     (if b < 0x80 then utf8_valid bs
      else case bs of [] \<Rightarrow> False
      | c # bs1 \<Rightarrow>
          if b \<le> 0xDF then 0xC2 \<le> b \<and> utf8_cont c \<and> utf8_valid bs1
          else case bs1 of [] \<Rightarrow> False
          | d # bs2 \<Rightarrow>
              if b \<le> 0xEF then utf8_cont c \<and> (b = 0xE0 \<longrightarrow> 0xA0 \<le> c) \<and> (b = 0xED \<longrightarrow> c \<le> 0x9F) \<and>
                utf8_cont d \<and> utf8_valid bs2
              else case bs2 of [] \<Rightarrow> False
              | e # bs3 \<Rightarrow> b \<le> 0xF4 \<and> utf8_cont c \<and> (b = 0xF0 \<longrightarrow> 0x90 \<le> c) \<and> (b = 0xF4 \<longrightarrow> c \<le> 0x8F) \<and>
                  utf8_cont d \<and> utf8_cont e \<and> utf8_valid bs3)"

definition utf8_or :: "bytes \<Rightarrow> string \<Rightarrow> bytes" where
  "utf8_or bs dflt = (if utf8_valid bs then bs else ascii dflt)"

lemma ascii_utf8: "list_all (\<lambda>b. b < 0x80) bs \<Longrightarrow> utf8_or bs dflt = bs"
proof -
  assume "list_all (\<lambda>b. b < 0x80) bs"
  then have "utf8_valid bs" by (induction bs) auto
  then show ?thesis by (simp add: utf8_or_def)
qed

text \<open>\<open>u16::from_be_bytes\<close>.\<close>

definition be16 :: "u8 \<Rightarrow> u8 \<Rightarrow> u16" where
  "be16 h l = push_bit 8 (ucast h) OR ucast l"

section \<open>The panic monad\<close>

type_synonym 'a rs = "'a option"

abbreviation (input) ret :: "'a \<Rightarrow> 'a rs" where "ret \<equiv> Some"
abbreviation (input) panic :: "'a rs" where "panic \<equiv> None"

text \<open>\<open>xs[i]\<close>, \<open>xs[i] = v\<close>, \<open>&xs[a..b]\<close>, \<open>xs[a..b].copy_from_slice(ys)\<close>, \<open>xs[a..b].fill(v)\<close>.\<close>

definition idx :: "'a list \<Rightarrow> nat \<Rightarrow> 'a rs" where
  "idx xs i = (if i < length xs then ret (xs ! i) else panic)"

definition put :: "'a list \<Rightarrow> nat \<Rightarrow> 'a \<Rightarrow> 'a list rs" where
  "put xs i v = (if i < length xs then ret (xs[i := v]) else panic)"

definition slice_of :: "'a list \<Rightarrow> nat \<Rightarrow> nat \<Rightarrow> 'a list rs" where
  "slice_of xs a b = (if a \<le> b \<and> b \<le> length xs then ret (take (b - a) (drop a xs)) else panic)"

definition copy_into :: "'a list \<Rightarrow> nat \<Rightarrow> nat \<Rightarrow> 'a list \<Rightarrow> 'a list rs" where
  "copy_into xs a b ys =
     (if a \<le> b \<and> b \<le> length xs \<and> length ys = b - a
      then ret (take a xs @ ys @ drop b xs) else panic)"

definition fill_range :: "'a list \<Rightarrow> nat \<Rightarrow> nat \<Rightarrow> 'a \<Rightarrow> 'a list rs" where
  "fill_range xs a b v =
     (if a \<le> b \<and> b \<le> length xs then ret (take a xs @ replicate (b - a) v @ drop b xs) else panic)"

lemma idx_ok [rs_simps]: "i < length xs \<Longrightarrow> idx xs i = ret (xs ! i)"
  by (simp add: idx_def)

lemma put_ok [rs_simps]: "i < length xs \<Longrightarrow> put xs i v = ret (xs[i := v])"
  by (simp add: put_def)

lemma slice_of_ok [rs_simps]:
  "a \<le> b \<Longrightarrow> b \<le> length xs \<Longrightarrow> slice_of xs a b = ret (take (b - a) (drop a xs))"
  by (simp add: slice_of_def)

lemma copy_into_ok [rs_simps]:
  "a \<le> b \<Longrightarrow> b \<le> length xs \<Longrightarrow> length ys = b - a \<Longrightarrow>
   copy_into xs a b ys = ret (take a xs @ ys @ drop b xs)"
  by (simp add: copy_into_def)

lemma fill_range_ok [rs_simps]:
  "a \<le> b \<Longrightarrow> b \<le> length xs \<Longrightarrow>
   fill_range xs a b v = ret (take a xs @ replicate (b - a) v @ drop b xs)"
  by (simp add: fill_range_def)

lemma put_append: "put (xs @ y # ys) (length xs) v = ret (xs @ v # ys)"
  by (simp add: put_def)

section \<open>The clock\<close>

text \<open>
  \<open>embassy_time\<close> is not part of the repository.  A task that reads the clock sees the
  current \<open>Instant\<close> (a tick count) and can turn a tick difference into milliseconds;
  both come from the environment, as a \<open>clock\<close> argument of every operation that calls
  \<open>Instant::now()\<close> or \<open>t.elapsed().as_millis()\<close>.
\<close>

type_synonym instant = nat

record clock =
  now :: instant
  millis :: "nat \<Rightarrow> u64"

definition elapsed_ms :: "clock \<Rightarrow> instant \<Rightarrow> u64" where
  "elapsed_ms c t = millis c (now c - t)"

section \<open>Bounds of machine words\<close>

lemma u8_less: "unat (b :: u8) < 256"
  by (rule order_less_le_trans [OF unsigned_less]) simp

lemma u16_less: "unat (w :: u16) < 65536"
  by (rule order_less_le_trans [OF unsigned_less]) simp

lemma u32_less: "unat (w :: u32) < 4294967296"
  by (rule order_less_le_trans [OF unsigned_less]) simp

lemma unat_ucast_eq: "unat (ucast (w :: 'a::len word) :: 'b::len word) = unat w mod 2 ^ LENGTH('b)"
  by (simp add: unsigned_ucast_eq take_bit_eq_mod)

lemma unat_Suc_word: "w < - 1 \<Longrightarrow> unat (w + 1) = Suc (unat w)" for w :: "'a::len word"
proof -
  assume "w < - 1"
  then have "1 + w \<noteq> 0" using max_word_wrap [of w] by (auto simp: add.commute)
  then show "unat (w + 1) = Suc (unat w)" by (simp add: unatSuc add.commute)
qed

lemma less_Suc_word: "w < - 1 \<Longrightarrow> w < w + 1" for w :: "'a::len word"
  by (simp add: word_less_nat_alt [of w "w + 1"] unat_Suc_word)

text \<open>A saturating counter that stayed below the maximum counted.\<close>

lemma sat_add_step: "sat_add w 1 \<noteq> - 1 \<Longrightarrow> unat (sat_add w 1) = Suc (unat w)" for w :: "'a::len word"
proof -
  assume *: "sat_add w 1 \<noteq> - 1"
  have "sat_add (- 1) 1 = (- 1 :: 'a word)" by (simp add: sat_add_def word_gt_0)
  with * have "w \<noteq> - 1" by auto
  then have w: "w < - 1" by (simp add: word_order.not_eq_extremum)
  with less_Suc_word [of w] have "sat_add w 1 = w + 1" by (auto simp: sat_add_def)
  then show ?thesis using unat_Suc_word [OF w] by simp
qed

lemma hop_step: "sat_add (h :: u8) 1 \<le> k \<Longrightarrow> k < 255 \<Longrightarrow>
  unat (sat_add h 1) = Suc (unat h) \<and> Suc (unat h) \<le> unat k"
proof -
  assume *: "sat_add h 1 \<le> k" "k < 255"
  have "sat_add h 1 < 255" using * by (rule le_less_trans)
  moreover have "(- 1 :: u8) = 255" by simp
  ultimately have "sat_add h 1 \<noteq> - 1" by (metis less_irrefl)
  with *(1) sat_add_step [of h] show ?thesis by (simp add: word_le_nat_alt)
qed

section \<open>Generic list facts\<close>

lemma take_Suc_nth: "i < length xs \<Longrightarrow> take (Suc i) xs = take i xs @ [xs ! i]"
  by (rule take_Suc_conv_app_nth)

lemma drop_nth_Cons: "i < length xs \<Longrightarrow> drop i xs = xs ! i # drop (Suc i) xs"
  by (rule Cons_nth_drop_Suc [symmetric])

end
