(* ===== verification/Decode.thy ===== *)
theory Decode
  imports Prelude
begin

text \<open>
  \<open>src/decode.rs\<close>: the SK2229R clock frame, the hex printer, and the three pure
  predicates that decide \<open>running\<close>, the start/stop pulse and the pending run state.
\<close>

section \<open>Clock frames\<close>

definition PACKET_LEN :: nat where "PACKET_LEN = 6"
definition PACKET_SOF :: u8 where "PACKET_SOF = 0x60"
definition PACKET_MIN_INDEX :: nat where "PACKET_MIN_INDEX = 3"
definition PACKET_SEC_INDEX :: nat where "PACKET_SEC_INDEX = 4"
definition MAX_MINUTES :: u8 where "MAX_MINUTES = 99"
definition MAX_SECONDS :: u8 where "MAX_SECONDS = 59"
definition STOPPED_AFTER_MS :: u64 where "STOPPED_AFTER_MS = 2000"

lemmas decode_consts =
  PACKET_LEN_def PACKET_SOF_def PACKET_MIN_INDEX_def PACKET_SEC_INDEX_def
  MAX_MINUTES_def MAX_SECONDS_def STOPPED_AFTER_MS_def

text \<open>The argument is a \<open>[u8; 6]\<close>, so the constant indices below are in bounds by type.\<close>

definition parse_clock_packet :: "bytes \<Rightarrow> (u8 \<times> u8) option" where
  "parse_clock_packet pkt =
     (if pkt ! 0 \<noteq> PACKET_SOF then None
      else let minutes = pkt ! PACKET_MIN_INDEX; seconds = pkt ! PACKET_SEC_INDEX in
        if minutes > MAX_MINUTES \<or> seconds > MAX_SECONDS then None
        else Some (minutes, seconds))"

definition total_seconds :: "u8 \<Rightarrow> u8 \<Rightarrow> u16" where
  "total_seconds m s = ucast m * 60 + ucast s"

section \<open>Hex text\<close>

definition HEX :: bytes where
  "HEX = ascii ''0123456789abcdef''"

fun write_hex_loop :: "bytes \<Rightarrow> nat \<Rightarrow> nat \<Rightarrow> bytes \<Rightarrow> (nat \<times> bytes) rs" where
  "write_hex_loop [] k i out = ret (i, out)"
| "write_hex_loop (b # bs) k i out =
     (let need = if k = 0 then 2 else 3 in
      if i + need > length out then ret (i, out)
      else do {
        (i, out) \<leftarrow> (if k > 0 then do { out \<leftarrow> put out i 0x20; ret (i + 1, out) }
                    else ret (i, out));
        h \<leftarrow> idx HEX (unat (drop_bit 4 b));
        out \<leftarrow> put out i h;
        l \<leftarrow> idx HEX (unat (b AND 0x0f));
        out \<leftarrow> put out (i + 1) l;
        write_hex_loop bs (k + 1) (i + 2) out
      })"

definition write_hex :: "bytes \<Rightarrow> bytes \<Rightarrow> (nat \<times> bytes) rs" where
  "write_hex data out = write_hex_loop data 0 0 out"

section \<open>Run state decisions\<close>

definition clock_is_running :: "u8 \<Rightarrow> u8 \<Rightarrow> u64 \<Rightarrow> bool" where
  "clock_is_running m s unchanged_ms \<longleftrightarrow>
     total_seconds m s \<noteq> 0 \<and> unchanged_ms < STOPPED_AFTER_MS"

definition start_stop_pulse_needed :: "bool \<Rightarrow> bool option \<Rightarrow> bool" where
  "start_stop_pulse_needed effective_running want_running =
     (case want_running of Some want \<Rightarrow> want \<noteq> effective_running | None \<Rightarrow> True)"

definition resolve_pending_running :: "bool option \<Rightarrow> bool \<Rightarrow> u64 \<Rightarrow> bool option" where
  "resolve_pending_running pending uart_running pending_age_ms =
     (case pending of
        Some want \<Rightarrow> if want \<noteq> uart_running \<and> pending_age_ms < STOPPED_AFTER_MS
                     then pending else None
      | None \<Rightarrow> None)"

section \<open>Facts about frames and seconds\<close>

lemma parse_clock_packet_Some:
  "parse_clock_packet pkt = Some (m, s) \<longleftrightarrow>
   pkt ! 0 = 0x60 \<and> pkt ! 3 = m \<and> pkt ! 4 = s \<and> m \<le> 99 \<and> s \<le> 59"
  by (auto simp: parse_clock_packet_def decode_consts Let_def not_less)

lemma unat_total_seconds: "unat (total_seconds m s) = unat m * 60 + unat s"
proof -
  have "unat m < 256" "unat s < 256" by (rule u8_less)+
  then show ?thesis
    by (simp add: total_seconds_def unat_word_ariths unat_ucast_eq)
qed

lemma total_seconds_eq_0 [simp]: "total_seconds m s = 0 \<longleftrightarrow> m = 0 \<and> s = 0"
proof -
  have "total_seconds m s = 0 \<longleftrightarrow> unat (total_seconds m s) = 0"
    by (simp add: unat_eq_0)
  then show ?thesis
    by (simp add: unat_total_seconds unat_eq_0)
qed

lemma clock_is_running_iff:
  "clock_is_running m s ms \<longleftrightarrow> (m, s) \<noteq> (0, 0) \<and> ms < 2000"
  by (simp add: clock_is_running_def decode_consts)

lemma resolve_pending_running_Some:
  "resolve_pending_running p r a = Some w \<longleftrightarrow> p = Some w \<and> w \<noteq> r \<and> a < 2000"
  by (auto simp: resolve_pending_running_def decode_consts split: option.splits)

lemma resolve_pending_running_None [simp]: "resolve_pending_running None r a = None"
  by (simp add: resolve_pending_running_def)

section \<open>The text write_hex produces\<close>

text \<open>Reference text: two lower-case digits per byte, one space between bytes.\<close>

definition hex2 :: "u8 \<Rightarrow> bytes" where
  "hex2 b = [HEX ! unat (drop_bit 4 b), HEX ! unat (b AND 0x0f)]"

definition hex_tail :: "bytes \<Rightarrow> bytes" where
  "hex_tail bs = concat (map (\<lambda>b. 0x20 # hex2 b) bs)"

fun hex_text :: "bytes \<Rightarrow> bytes" where
  "hex_text [] = []"
| "hex_text (b # bs) = hex2 b @ hex_tail bs"

lemma length_HEX [simp]: "length HEX = 16"
  by (simp add: HEX_def ascii_def)

lemma nibble_hi: "unat (drop_bit 4 (b :: u8)) < 16"
proof -
  have "unat b < 256" by (rule u8_less)
  then have "unat b div 16 < 16" by linarith
  then show ?thesis by (simp add: unat_drop_bit_eq drop_bit_eq_div unat_div_distrib)
qed

lemma nibble_lo: "unat (b AND 0x0f :: u8) < 16"
proof -
  have "b AND 0x0f \<le> (0x0f :: u8)" by (rule word_and_le1)
  then show ?thesis by (simp add: word_le_nat_alt)
qed

lemma length_hex2 [simp]: "length (hex2 b) = 2"
  by (simp add: hex2_def)

lemma length_hex_tail [simp]: "length (hex_tail bs) = 3 * length bs"
  by (induction bs) (simp_all add: hex_tail_def)

lemma length_hex_text [simp]: "length (hex_text bs) = 3 * length bs - 1"
  by (cases bs) simp_all

lemma hex_tail_Cons: "hex_tail (b # bs) = 0x20 # hex2 b @ hex_tail bs"
  by (simp add: hex_tail_def)

text \<open>One byte at the position the cursor has reached, with its separator if it is not the first.\<close>

lemma write_hex_loop_Cons:
  "write_hex_loop (b # bs) k (length p) (p @ r) =
   (let t = (if k = 0 then hex2 b else 0x20 # hex2 b)
    in if length r < length t then ret (length p, p @ r)
       else write_hex_loop bs (k + 1) (length (p @ t)) ((p @ t) @ drop (length t) r))"
proof (cases "length r < (if k = 0 then 2 else 3)")
  case True
  then show ?thesis by (simp split: if_splits)
next
  case False
  have nib: "unat (drop_bit 4 b) < 16" "unat (b AND 0x0f) < 16"
    by (rule nibble_hi nibble_lo)+
  show ?thesis
  proof (cases "k = 0")
    case True
    then obtain x y r' where "r = x # y # r'"
      using False by (cases r; cases "tl r") auto
    with True nib show ?thesis
      by (simp add: rs_simps hex2_def list_update_append)
  next
    case k: False
    then obtain x y z r' where "r = x # y # z # r'"
      using False by (cases r; cases "tl r"; cases "tl (tl r)") auto
    with k nib show ?thesis
      by (simp add: rs_simps hex2_def list_update_append nth_append)
  qed
qed

lemma write_hex_loop_tail:
  "0 < k \<Longrightarrow> write_hex_loop bs k (length p) (p @ r) =
   (let t = hex_tail (take (length r div 3) bs)
    in ret (length (p @ t), p @ t @ drop (length t) r))"
proof (induction bs arbitrary: k p r)
  case Nil
  then show ?case by (simp add: hex_tail_def)
next
  case (Cons b bs)
  show ?case
  proof (cases "length r < 3")
    case True
    then show ?thesis using Cons.prems
      by (subst write_hex_loop_Cons) (simp add: hex_tail_def)
  next
    case False
    then have "length r div 3 = Suc (length (drop (Suc (Suc (Suc 0))) r) div 3)"
      by simp
    then show ?thesis
      using Cons.prems Cons.IH [of "k + 1" "p @ 0x20 # hex2 b" "drop (Suc (Suc (Suc 0))) r"] False
      by (subst write_hex_loop_Cons) (simp add: hex_tail_Cons Let_def ac_simps)
  qed
qed

lemma write_hex_eq:
  "write_hex data out =
   (let t = hex_text (take ((length out + 1) div 3) data)
    in ret (length t, t @ drop (length t) out))"
proof (cases data)
  case Nil
  then show ?thesis by (simp add: write_hex_def)
next
  case (Cons b bs)
  have split: "write_hex data out =
      (if length out < 2 then ret (0, out)
       else write_hex_loop bs 1 (length (hex2 b)) (hex2 b @ drop 2 out))"
    using write_hex_loop_Cons [of b bs 0 "[]" out] by (simp add: write_hex_def Cons)
  show ?thesis
  proof (cases "length out < 2")
    case True
    then show ?thesis by (simp add: split)
  next
    case False
    then have "(length out + 1) div 3 = Suc (length (drop 2 out) div 3)"
      by (simp add: le_div_geq [of 3 "Suc (length out)"])
    then show ?thesis
      using False write_hex_loop_tail [of 1 bs "hex2 b" "drop 2 out"]
      by (subst split) (simp add: Let_def Cons)
  qed
qed

end
