(* ===== verification/Scoreboard.thy ===== *)
theory Scoreboard
  imports Decode
begin

text \<open>
  \<open>ScoreboardState\<close> of \<open>src/main.rs\<close>: the state every task shares behind one mutex, its
  methods, the invariant they keep, and the contract (\<open>scoreboard_op\<close>) of a critical
  section on it.

  The static \<open>EVENTS\<close> is an \<open>embassy_sync::watch::Watch\<close>; the only thing this code does
  with it is \<open>EVENTS.sender().send(())\<close>.  The field \<open>sends\<close> counts those calls.
\<close>

section \<open>State\<close>

record visible =
  vis_minutes :: u8
  vis_seconds :: u8
  vis_running :: bool
  vis_home :: u16
  vis_away :: u16
  vis_led :: bool

record scoreboard =
  minutes :: u8
  seconds :: u8
  running :: bool
  home :: u16
  away :: u16
  led :: bool
  last_change :: "instant option"
  pending_running :: "bool option"
  pending_at :: "instant option"
  announced :: visible
  sends :: nat

definition PERIOD_MIN :: u8 where "PERIOD_MIN = 7"
definition PERIOD_SEC :: u8 where "PERIOD_SEC = 30"
definition SCORE_MAX :: u16 where "SCORE_MAX = 99"

definition default_scoreboard :: scoreboard where
  "default_scoreboard =
     \<lparr>minutes = PERIOD_MIN, seconds = PERIOD_SEC, running = False, home = 0, away = 0,
      led = False, last_change = None, pending_running = None, pending_at = None,
      announced = \<lparr>vis_minutes = PERIOD_MIN, vis_seconds = PERIOD_SEC, vis_running = False,
                   vis_home = 0, vis_away = 0, vis_led = False\<rparr>,
      sends = 0\<rparr>"

section \<open>Methods\<close>

text \<open>\<open>as_millis().min(u32::MAX as u64) as u32\<close>, and \<open>u32::MAX\<close> when there is no change.\<close>

definition age_ms :: "clock \<Rightarrow> scoreboard \<Rightarrow> u32" where
  "age_ms c s = (case last_change s of
     Some t \<Rightarrow> ucast (min (elapsed_ms c t) 0xFFFFFFFF)
   | None \<Rightarrow> 0xFFFFFFFF)"

definition pending_age_ms :: "clock \<Rightarrow> scoreboard \<Rightarrow> u64" where
  "pending_age_ms c s = (case pending_at s of Some t \<Rightarrow> elapsed_ms c t | None \<Rightarrow> 0)"

definition visible_of :: "scoreboard \<Rightarrow> visible" where
  "visible_of s =
     \<lparr>vis_minutes = minutes s, vis_seconds = seconds s, vis_running = running s,
      vis_home = home s, vis_away = away s, vis_led = led s\<rparr>"

definition publish :: "scoreboard \<Rightarrow> scoreboard" where
  "publish s =
     (let view = visible_of s in
      if view \<noteq> announced s then s\<lparr>announced := view, sends := sends s + 1\<rparr> else s)"

definition refresh_running :: "clock \<Rightarrow> scoreboard \<Rightarrow> scoreboard" where
  "refresh_running c s =
     (let s = s\<lparr>running := clock_is_running (minutes s) (seconds s) (ucast (age_ms c s))\<rparr>;
          s = s\<lparr>pending_running :=
                resolve_pending_running (pending_running s) (running s) (pending_age_ms c s)\<rparr>;
          s = (if pending_running s = None then s\<lparr>pending_at := None\<rparr> else s)
      in publish s)"

definition set_clock :: "clock \<Rightarrow> u8 \<Rightarrow> u8 \<Rightarrow> scoreboard \<Rightarrow> scoreboard" where
  "set_clock c m sec s =
     (let s = (if minutes s \<noteq> m \<or> seconds s \<noteq> sec
               then s\<lparr>last_change := Some (now c)\<rparr> else s)
      in refresh_running c (s\<lparr>minutes := m, seconds := sec\<rparr>))"

definition start_stop_pulse_for ::
    "clock \<Rightarrow> bool option \<Rightarrow> scoreboard \<Rightarrow> bool \<times> scoreboard" where
  "start_stop_pulse_for c want s =
     (let s = refresh_running c s;
          effective = (case pending_running s of Some p \<Rightarrow> p | None \<Rightarrow> running s);
          pulse_needed = start_stop_pulse_needed effective want
      in if pulse_needed
         then (True, s\<lparr>pending_running := Some (case want of Some w \<Rightarrow> w | None \<Rightarrow> \<not> effective),
                       pending_at := Some (now c)\<rparr>)
         else (False, s))"

section \<open>Field equations\<close>

named_theorems sb_simps "how the methods change each field"

lemma publish_fields [sb_simps, simp]:
  "minutes (publish s) = minutes s" "seconds (publish s) = seconds s"
  "running (publish s) = running s" "home (publish s) = home s" "away (publish s) = away s"
  "led (publish s) = led s" "last_change (publish s) = last_change s"
  "pending_running (publish s) = pending_running s" "pending_at (publish s) = pending_at s"
  "announced (publish s) = visible_of s"
  by (simp_all add: publish_def Let_def)

lemma sends_publish:
  "sends (publish s) = (if announced s = visible_of s then sends s else sends s + 1)"
  by (auto simp: publish_def Let_def)

lemma visible_of_publish [simp]: "visible_of (publish s) = visible_of s"
  by (simp add: visible_of_def)

text \<open>The clock counts as running exactly when it is not 00:00 and changed less than 2 s ago.\<close>

definition uart_running :: "clock \<Rightarrow> scoreboard \<Rightarrow> bool" where
  "uart_running c s \<longleftrightarrow> (minutes s, seconds s) \<noteq> (0, 0) \<and>
     (\<exists>t. last_change s = Some t \<and> elapsed_ms c t < 2000)"

lemma age_ms_lt:
  "(ucast (age_ms c s) :: u64) < 2000 \<longleftrightarrow> (\<exists>t. last_change s = Some t \<and> elapsed_ms c t < 2000)"
proof (cases "last_change s")
  case None
  then show ?thesis by (simp add: age_ms_def)
next
  case (Some t)
  let ?e = "elapsed_ms c t"
  have "unat (min ?e 0xFFFFFFFF) mod 4294967296 mod 18446744073709551616 = unat (min ?e 0xFFFFFFFF)"
    by (simp add: min_def word_le_nat_alt split: if_splits)
  then have "unat (ucast (ucast (min ?e 0xFFFFFFFF) :: u32) :: u64) = unat (min ?e 0xFFFFFFFF)"
    by (simp add: unat_ucast_eq)
  then have "(ucast (ucast (min ?e 0xFFFFFFFF) :: u32) :: u64) = min ?e 0xFFFFFFFF"
    by (simp add: word_unat_eq_iff)
  moreover have "min ?e 0xFFFFFFFF < 2000 \<longleftrightarrow> ?e < 2000"
    by (auto simp: min_def word_less_nat_alt word_le_nat_alt)
  ultimately show ?thesis using Some by (simp add: age_ms_def)
qed

lemma refresh_running_fields [sb_simps, simp]:
  "minutes (refresh_running c s) = minutes s" "seconds (refresh_running c s) = seconds s"
  "home (refresh_running c s) = home s" "away (refresh_running c s) = away s"
  "led (refresh_running c s) = led s" "last_change (refresh_running c s) = last_change s"
  "announced (refresh_running c s) = visible_of (refresh_running c s)"
  by (simp_all add: refresh_running_def Let_def)

lemma running_refresh_running [simp]: "running (refresh_running c s) = uart_running c s"
  by (simp add: refresh_running_def Let_def clock_is_running_iff age_ms_lt uart_running_def)

lemma pending_running_refresh_running:
  "pending_running (refresh_running c s) =
     resolve_pending_running (pending_running s) (uart_running c s) (pending_age_ms c s)"
  by (simp add: refresh_running_def Let_def clock_is_running_iff age_ms_lt uart_running_def
      pending_age_ms_def)

lemma pending_at_refresh_running:
  "pending_at (refresh_running c s) =
     (if pending_running (refresh_running c s) = None then None else pending_at s)"
  by (auto simp: refresh_running_def Let_def)

lemma set_clock_eq:
  "set_clock c m sec s =
     refresh_running c (s\<lparr>minutes := m, seconds := sec,
       last_change := (if (minutes s, seconds s) = (m, sec) then last_change s else Some (now c))\<rparr>)"
  by (cases s) (auto simp: set_clock_def Let_def)

text \<open>The run state the firmware acts on: a pending request first, else the UART's.\<close>

definition effective_running :: "clock \<Rightarrow> scoreboard \<Rightarrow> bool" where
  "effective_running c s =
     (case pending_running (refresh_running c s) of
        Some p \<Rightarrow> p | None \<Rightarrow> uart_running c s)"

lemma start_stop_pulse_for_pulses:
  "fst (start_stop_pulse_for c want s) \<longleftrightarrow> want \<noteq> Some (effective_running c s)"
  by (auto simp: start_stop_pulse_for_def effective_running_def start_stop_pulse_needed_def Let_def
      split: option.splits)

lemma start_stop_pulse_for_state:
  "snd (start_stop_pulse_for c want s) =
     (if want = Some (effective_running c s) then refresh_running c s
      else (refresh_running c s)
        \<lparr>pending_running := Some (case want of Some w \<Rightarrow> w | None \<Rightarrow> \<not> effective_running c s),
         pending_at := Some (now c)\<rparr>)"
  by (auto simp: start_stop_pulse_for_def effective_running_def start_stop_pulse_needed_def Let_def
      split: option.splits)

section \<open>The invariant\<close>

text \<open>
  What holds whenever the mutex is free: the displayed time and the scores are in range,
  a run request is pending together with the time it was made, no run flag at 00:00, and
  the last announced snapshot is what is visible now.
\<close>

definition sb_inv :: "scoreboard \<Rightarrow> bool" where
  "sb_inv s \<longleftrightarrow> minutes s \<le> 99 \<and> seconds s \<le> 59 \<and> home s \<le> 99 \<and> away s \<le> 99 \<and>
     (pending_running s = None \<longleftrightarrow> pending_at s = None) \<and>
     (running s \<longrightarrow> (minutes s, seconds s) \<noteq> (0, 0)) \<and> announced s = visible_of s"

lemma sb_invI:
  assumes "minutes s \<le> 99" "seconds s \<le> 59" "home s \<le> 99" "away s \<le> 99"
    and "pending_running s = None \<longleftrightarrow> pending_at s = None"
    and "running s \<Longrightarrow> (minutes s, seconds s) \<noteq> (0, 0)" and "announced s = visible_of s"
  shows "sb_inv s"
  using assms by (simp add: sb_inv_def)

lemma sb_inv_default: "sb_inv default_scoreboard"
  by (simp add: sb_inv_def default_scoreboard_def visible_of_def PERIOD_MIN_def PERIOD_SEC_def)

text \<open>
  A critical section signals what it changes: it never takes back a \<open>send\<close>, and the
  visible fields are as before unless there was one.
\<close>

definition signalled :: "scoreboard \<Rightarrow> scoreboard \<Rightarrow> bool" where
  "signalled s s' \<longleftrightarrow> sends s \<le> sends s' \<and> (sends s' = sends s \<longrightarrow> visible_of s' = visible_of s)"

lemma signalled_refl [simp]: "signalled s s"
  by (simp add: signalled_def)

lemma signalled_trans [trans]: "signalled a b \<Longrightarrow> signalled b c \<Longrightarrow> signalled a c"
  by (auto simp: signalled_def)

lemma signalled_publish:
  "announced s = visible_of s \<Longrightarrow> announced s' = announced s \<Longrightarrow> sends s' = sends s \<Longrightarrow>
   signalled s (publish s')"
  by (simp add: signalled_def sends_publish)

text \<open>
  The contract of a critical section that takes an argument: it keeps the invariant and
  signals what it changes.  Everything a client needs to know of a task that shares the
  state is proved once from this contract.
\<close>

locale scoreboard_op =
  fixes op :: "'a \<Rightarrow> clock \<Rightarrow> scoreboard \<Rightarrow> scoreboard"
    and ok :: "'a \<Rightarrow> bool"
  assumes keeps_inv: "ok a \<Longrightarrow> sb_inv s \<Longrightarrow> sb_inv (op a c s)"
    and signals: "ok a \<Longrightarrow> sb_inv s \<Longrightarrow> signalled s (op a c s)"
begin

text \<open>Any sequence of such sections, each at its own time.\<close>

lemma fold_keeps_inv:
  "list_all (ok \<circ> fst) xs \<Longrightarrow> sb_inv s \<Longrightarrow> sb_inv (fold (\<lambda>(a, c). op a c) xs s)"
  by (induction xs arbitrary: s) (auto simp: keeps_inv)

lemma fold_signals:
  "list_all (ok \<circ> fst) xs \<Longrightarrow> sb_inv s \<Longrightarrow> signalled s (fold (\<lambda>(a, c). op a c) xs s)"
proof (induction xs arbitrary: s)
  case Nil
  then show ?case by simp
next
  case (Cons x xs)
  obtain a c where x: "x = (a, c)" by force
  with Cons.prems have "signalled s (op a c s)" "sb_inv (op a c s)"
    by (auto simp: keeps_inv signals)
  with Cons x show ?case by (auto intro: signalled_trans)
qed

text \<open>A reader that saw the latest signal has seen the visible fields.\<close>

lemma quiet_unchanged:
  "list_all (ok \<circ> fst) xs \<Longrightarrow> sb_inv s \<Longrightarrow>
   sends (fold (\<lambda>(a, c). op a c) xs s) = sends s \<Longrightarrow>
   visible_of (fold (\<lambda>(a, c). op a c) xs s) = visible_of s"
  using fold_signals [of xs s] by (simp add: signalled_def)

end

lemma sb_inv_refresh_running: "sb_inv s \<Longrightarrow> sb_inv (refresh_running c s)"
  by (auto simp: sb_inv_def pending_at_refresh_running pending_running_refresh_running uart_running_def)

lemma signalled_refresh_running: "sb_inv s \<Longrightarrow> signalled s (refresh_running c s)"
  unfolding refresh_running_def Let_def
  by (rule signalled_publish) (auto simp: sb_inv_def)

lemma refresh_after_clock_inv:
  assumes "sb_inv s" "m \<le> 99" "sec \<le> 59"
  shows "sb_inv (refresh_running c (s\<lparr>minutes := m, seconds := sec, last_change := l\<rparr>))"
  using assms
  by (auto simp: sb_inv_def pending_at_refresh_running pending_running_refresh_running uart_running_def)

lemma refresh_after_clock_signalled:
  assumes "sb_inv s"
  shows "signalled s (refresh_running c (s\<lparr>minutes := m, seconds := sec, last_change := l\<rparr>))"
  unfolding refresh_running_def Let_def
  by (rule signalled_publish) (use assms in \<open>auto simp: sb_inv_def\<close>)

lemma start_stop_pulse_for_inv:
  "sb_inv s \<Longrightarrow> sb_inv (snd (start_stop_pulse_for c want s))"
  using sb_inv_refresh_running [of s c]
  by (auto simp: start_stop_pulse_for_state sb_inv_def visible_of_def)

lemma start_stop_pulse_for_signalled:
  "sb_inv s \<Longrightarrow> signalled s (snd (start_stop_pulse_for c want s))"
  using signalled_refresh_running [of s c]
  by (auto simp: start_stop_pulse_for_state signalled_def visible_of_def)

interpretation refresh_op: scoreboard_op "\<lambda>_ :: unit. refresh_running" "\<lambda>_. True"
  by unfold_locales (simp_all add: sb_inv_refresh_running signalled_refresh_running)

interpretation set_clock_op: scoreboard_op
  "\<lambda>(m, sec) c s. set_clock c m sec s" "\<lambda>(m, sec). m \<le> 99 \<and> sec \<le> 59"
  by unfold_locales
    (auto simp: set_clock_eq intro: refresh_after_clock_inv refresh_after_clock_signalled)

interpretation start_stop_op: scoreboard_op
  "\<lambda>want c s. snd (start_stop_pulse_for c want s)" "\<lambda>_. True"
  by unfold_locales (simp_all add: start_stop_pulse_for_inv start_stop_pulse_for_signalled)

end
