(* ===== verification/Board_Task.thy ===== *)
theory Board_Task
  imports Scoreboard
begin

text \<open>
  \<open>board_task\<close> of \<open>src/main.rs\<close>: the commands, the GPIO pulses and the loop that turns
  one into the other, for both builds (\<open>Hardware\<close>: \<open>--no-default-features\<close>, \<open>Simulate\<close>:
  feature \<open>simulate\<close>).

  The task is async: between two critical sections on the scoreboard other tasks run.  A
  handler is therefore a \<open>board_prog\<close>: it emits an effect, or takes the mutex for one
  critical section (a function of the clock and the state found there) and goes on, or is
  done with the new values of the task's local variables.  The continuation of a section
  gets the clock and state the section started from.
\<close>

section \<open>Commands, pins, effects\<close>

datatype build = Hardware | Simulate

datatype command =
    StartStop | Start | Stop
  | HomeInc | HomeDec | AwayInc | AwayDec | ScoresZero
  | Reset | LedOn | LedOff | SetTimer u8 u8 | Aux

datatype pin =
    Io_start | Io_home_inc | Io_home_dec | Io_away_inc | Io_away_dec | Io_reset
  | Io_min_inc | Io_min_dec | Io_sec_inc | Io_sec_dec | Io_clear | Io_aux

text \<open>
  \<open>SetHigh\<close> / \<open>SetLow\<close> drive a pin, \<open>AfterMillis\<close> waits on a timer, \<open>GpioSet\<close> drives the
  onboard LED (CYW43 gpio 0).
\<close>

datatype effect = SetHigh pin | SetLow pin | AfterMillis nat | GpioSet bool

record locals =
  pending_home_dec :: u16
  pending_away_dec :: u16
  pending_min :: int
  pending_sec :: int

definition init_locals :: locals where
  "init_locals = \<lparr>pending_home_dec = 0, pending_away_dec = 0, pending_min = 0, pending_sec = 0\<rparr>"

definition has_pending :: "locals \<Rightarrow> bool" where
  "has_pending l \<longleftrightarrow> pending_home_dec l > 0 \<or> pending_away_dec l > 0 \<or>
     pending_min l \<noteq> 0 \<or> pending_sec l \<noteq> 0"

datatype board_prog =
    Done locals
  | Emit effect board_prog
  | Lock "clock \<Rightarrow> scoreboard \<Rightarrow> scoreboard" "clock \<Rightarrow> scoreboard \<Rightarrow> board_prog"

section \<open>Pulses\<close>

definition PULSE_MS :: nat where "PULSE_MS = 50"

definition pulse :: "pin \<Rightarrow> board_prog \<Rightarrow> board_prog" where
  "pulse p k = Emit (SetHigh p) (Emit (AfterMillis PULSE_MS) (Emit (SetLow p) k))"

definition blink_onboard :: "bool \<Rightarrow> board_prog \<Rightarrow> board_prog" where
  "blink_onboard hold_led k =
     (if hold_led then k
      else Emit (GpioSet True) (Emit (AfterMillis PULSE_MS) (Emit (GpioSet False) k)))"

section \<open>Handlers\<close>

definition handle_led :: "bool \<Rightarrow> locals \<Rightarrow> board_prog" where
  "handle_led v l = Emit (GpioSet v) (Lock (\<lambda>c s. publish (s\<lparr>led := v\<rparr>)) (\<lambda>c s. Done l))"

text \<open>\<open>want\<close> is \<open>Some true\<close> for \<open>Start\<close>, \<open>Some false\<close> for \<open>Stop\<close>, \<open>None\<close> for \<open>StartStop\<close>.\<close>

definition handle_start_stop :: "build \<Rightarrow> bool option \<Rightarrow> locals \<Rightarrow> board_prog" where
  "handle_start_stop b want l = Lock (\<lambda>c s. s) (\<lambda>c s0. case b of
     Simulate \<Rightarrow>
       pulse Io_start (blink_onboard (led s0) (Lock
         (\<lambda>c s. let start = (case want of Some w \<Rightarrow> w | None \<Rightarrow> \<not> running s)
                in refresh_running c (s\<lparr>last_change := (if start then Some (now c) else None)\<rparr>))
         (\<lambda>c s. Done l)))
   | Hardware \<Rightarrow>
       Lock (\<lambda>c s. snd (start_stop_pulse_for c want s))
         (\<lambda>c s. let pulse_needed = fst (start_stop_pulse_for c want s);
                    rest = blink_onboard (led s0) (Done l)
                in if pulse_needed then pulse Io_start rest else rest))"

definition handle_home_inc :: "locals \<Rightarrow> board_prog" where
  "handle_home_inc l = Lock
     (\<lambda>c s. if home s < SCORE_MAX then publish (s\<lparr>home := home s + 1\<rparr>) else s)
     (\<lambda>c s. if home s < SCORE_MAX
            then if pending_home_dec l > 0
                 then blink_onboard (led s) (Done (l\<lparr>pending_home_dec := pending_home_dec l - 1\<rparr>))
                 else pulse Io_home_inc (blink_onboard (led s) (Done l))
            else Done l)"

definition handle_home_dec :: "locals \<Rightarrow> board_prog" where
  "handle_home_dec l = Lock
     (\<lambda>c s. if home s > 0 then publish (s\<lparr>home := home s - 1\<rparr>) else s)
     (\<lambda>c s. if home s > 0
            then if pending_home_dec l > 0
                 then blink_onboard (led s) (Done (l\<lparr>pending_home_dec := sat_add (pending_home_dec l) 1\<rparr>))
                 else pulse Io_home_dec (blink_onboard (led s) (Done l))
            else Done l)"

definition handle_away_inc :: "locals \<Rightarrow> board_prog" where
  "handle_away_inc l = Lock
     (\<lambda>c s. if away s < SCORE_MAX then publish (s\<lparr>away := away s + 1\<rparr>) else s)
     (\<lambda>c s. if away s < SCORE_MAX
            then if pending_away_dec l > 0
                 then blink_onboard (led s) (Done (l\<lparr>pending_away_dec := pending_away_dec l - 1\<rparr>))
                 else pulse Io_away_inc (blink_onboard (led s) (Done l))
            else Done l)"

definition handle_away_dec :: "locals \<Rightarrow> board_prog" where
  "handle_away_dec l = Lock
     (\<lambda>c s. if away s > 0 then publish (s\<lparr>away := away s - 1\<rparr>) else s)
     (\<lambda>c s. if away s > 0
            then if pending_away_dec l > 0
                 then blink_onboard (led s) (Done (l\<lparr>pending_away_dec := sat_add (pending_away_dec l) 1\<rparr>))
                 else pulse Io_away_dec (blink_onboard (led s) (Done l))
            else Done l)"

definition handle_scores_zero :: "locals \<Rightarrow> board_prog" where
  "handle_scores_zero l = Lock
     (\<lambda>c s. publish (s\<lparr>home := 0, away := 0\<rparr>))
     (\<lambda>c s. pulse Io_clear (blink_onboard (led s)
        (Done (l\<lparr>pending_home_dec := 0, pending_away_dec := 0\<rparr>))))"

definition handle_reset :: "build \<Rightarrow> locals \<Rightarrow> board_prog" where
  "handle_reset b l =
     (let l' = l\<lparr>pending_min := 0, pending_sec := 0\<rparr>;
          rest = Lock (\<lambda>c s. s\<lparr>pending_running := None, pending_at := None\<rparr>)
                   (\<lambda>c s. pulse Io_reset (blink_onboard (led s) (Done l')))
      in case b of
           Simulate \<Rightarrow> Lock (\<lambda>c s. refresh_running c (s\<lparr>last_change := None\<rparr>)) (\<lambda>c s. rest)
         | Hardware \<Rightarrow> rest)"

text \<open>The deltas are \<open>i16\<close> differences of two \<open>u8\<close>, so they are exact as integers.\<close>

definition handle_set_timer :: "build \<Rightarrow> u8 \<Rightarrow> u8 \<Rightarrow> locals \<Rightarrow> board_prog" where
  "handle_set_timer b m sec l =
     (let m = min m 99; sec = min sec 59 in
      case b of
        Simulate \<Rightarrow>
          Lock (\<lambda>c s. refresh_running c ((set_clock c m sec s)\<lparr>last_change := None\<rparr>)) (\<lambda>c s. Done l)
      | Hardware \<Rightarrow>
          Lock (\<lambda>c s. snd (start_stop_pulse_for c (Some False) s))
            (\<lambda>c s. let pulse_stop = fst (start_stop_pulse_for c (Some False) s);
                       rest = Lock (\<lambda>c s. s) (\<lambda>c s. Done (l
                         \<lparr>pending_min := uint m - uint (minutes s),
                          pending_sec := uint sec - uint (seconds s)\<rparr>))
                   in if pulse_stop then pulse Io_start rest else rest))"

definition handle_aux :: "locals \<Rightarrow> board_prog" where
  "handle_aux l = Lock (\<lambda>c s. s) (\<lambda>c s. pulse Io_aux (blink_onboard (led s) (Done l)))"

fun handle :: "build \<Rightarrow> command \<Rightarrow> locals \<Rightarrow> board_prog" where
  "handle b LedOn l = handle_led True l"
| "handle b LedOff l = handle_led False l"
| "handle b StartStop l = handle_start_stop b None l"
| "handle b Start l = handle_start_stop b (Some True) l"
| "handle b Stop l = handle_start_stop b (Some False) l"
| "handle b HomeInc l = handle_home_inc l"
| "handle b HomeDec l = handle_home_dec l"
| "handle b AwayInc l = handle_away_inc l"
| "handle b AwayDec l = handle_away_dec l"
| "handle b ScoresZero l = handle_scores_zero l"
| "handle b Reset l = handle_reset b l"
| "handle b (SetTimer m sec) l = handle_set_timer b m sec l"
| "handle b Aux l = handle_aux l"

section \<open>The loop\<close>

text \<open>One min/sec pulse towards the target.\<close>

definition min_sec_pulse :: "locals \<Rightarrow> board_prog" where
  "min_sec_pulse l =
     (if pending_min l > 0 then pulse Io_min_inc (Done (l\<lparr>pending_min := pending_min l - 1\<rparr>))
      else if pending_min l < 0 then pulse Io_min_dec (Done (l\<lparr>pending_min := pending_min l + 1\<rparr>))
      else if pending_sec l > 0 then pulse Io_sec_inc (Done (l\<lparr>pending_sec := pending_sec l - 1\<rparr>))
      else if pending_sec l < 0 then pulse Io_sec_dec (Done (l\<lparr>pending_sec := pending_sec l + 1\<rparr>))
      else Done l)"

definition pending_step :: "build \<Rightarrow> locals \<Rightarrow> board_prog" where
  "pending_step b l =
     (if pending_home_dec l > 0 then
        pulse Io_home_dec (Done (l\<lparr>pending_home_dec := pending_home_dec l - 1\<rparr>))
      else if pending_away_dec l > 0 then
        pulse Io_away_dec (Done (l\<lparr>pending_away_dec := pending_away_dec l - 1\<rparr>))
      else if pending_min l \<noteq> 0 \<or> pending_sec l \<noteq> 0 then
        (case b of
           Hardware \<Rightarrow> Lock (\<lambda>c s. snd (start_stop_pulse_for c (Some False) s))
             (\<lambda>c s. if fst (start_stop_pulse_for c (Some False) s) then pulse Io_start (Done l)
                    else min_sec_pulse l)
         | Simulate \<Rightarrow> min_sec_pulse l)
      else Done l)"

text \<open>
  One iteration: \<open>Some cmd\<close> when the channel gave a command, \<open>None\<close> when \<open>try_receive\<close>
  found it empty.  The task only polls while something is pending; with nothing pending it
  waits for a command, which \<open>pending_step\<close> agrees with by doing nothing.
\<close>

definition iteration :: "build \<Rightarrow> command option \<Rightarrow> locals \<Rightarrow> board_prog" where
  "iteration b r l = (case r of Some cmd \<Rightarrow> handle b cmd l | None \<Rightarrow> pending_step b l)"

section \<open>Running a program against an environment\<close>

text \<open>
  \<open>env k s\<close> is what the \<open>k\<close>-th acquisition of the mutex finds when the task left the
  scoreboard as \<open>s\<close>: the clock then, and the state after whatever other tasks did.
\<close>

type_synonym environment = "nat \<Rightarrow> scoreboard \<Rightarrow> clock \<times> scoreboard"

primrec exec :: "board_prog \<Rightarrow> environment \<Rightarrow> nat \<Rightarrow> scoreboard \<Rightarrow>
    scoreboard \<times> locals \<times> nat \<times> effect list" where
  "exec (Done l) env k s = (s, l, k, [])"
| "exec (Emit e p) env k s = (case exec p env k s of (s', l, k', es) \<Rightarrow> (s', l, k', e # es))"
| "exec (Lock f g) env k s =
     (case env k s of (c, s1) \<Rightarrow> exec (g c s1) env (Suc k) (f c s1))"

text \<open>Several iterations; the list says what each one received.\<close>

fun run_board :: "build \<Rightarrow> command option list \<Rightarrow> locals \<Rightarrow> environment \<Rightarrow> nat \<Rightarrow> scoreboard \<Rightarrow>
    scoreboard \<times> locals \<times> nat \<times> effect list" where
  "run_board b [] l env k s = (s, l, k, [])"
| "run_board b (r # rs) l env k s =
     (case exec (iteration b r l) env k s of (s1, l1, k1, es1) \<Rightarrow>
        (case run_board b rs l1 env k1 s1 of (s2, l2, k2, es2) \<Rightarrow> (s2, l2, k2, es1 @ es2)))"

end
