(* ===== verification/Tasks.thy ===== *)
theory Tasks
  imports Board_Task
begin

text \<open>
  The other tasks that share \<open>ScoreboardState\<close> with \<open>board_task\<close>: the simulate build's
  \<open>timer_task\<close>, the UART reader's \<open>set_clock\<close>, and the \<open>refresh_running\<close> sections of
  \<open>heartbeat_task\<close>, \<open>GET /api/status\<close> and the event streams.  From \<open>board_task\<close>'s point of
  view they are the environment; the locale \<open>interference\<close> says what it may rely on, and
  the interpretation shows that every schedule of the other tasks provides it.
\<close>

section \<open>timer_task\<close>

definition timer_tick :: "clock \<Rightarrow> scoreboard \<Rightarrow> scoreboard" where
  "timer_tick c s =
     (if running s then
        (let m = minutes s; sec = seconds s in
         if sec > 0 then set_clock c m (sec - 1) s
         else if m > 0 then set_clock c (m - 1) 59 s
         else refresh_running c (s\<lparr>last_change := None\<rparr>))
      else s)"

lemma timer_tick_00_dead:
  "sb_inv s \<Longrightarrow> timer_tick c s =
     (if running s then
        (if seconds s > 0 then set_clock c (minutes s) (seconds s - 1) s
         else set_clock c (minutes s - 1) 59 s)
      else s)"
  by (auto simp: timer_tick_def sb_inv_def Let_def word_gt_0)

lemma word_minus_one_le: "(w :: 'a::len word) > 0 \<Longrightarrow> w \<le> n \<Longrightarrow> w - 1 \<le> n"
  by (simp add: word_le_nat_alt unat_minus_one word_gt_0)

interpretation timer_op: scoreboard_op "\<lambda>_ :: unit. timer_tick" "\<lambda>_. True"
proof unfold_locales
  fix c s
  assume inv: "sb_inv s"
  then have "minutes s \<le> 99" "seconds s \<le> 59" by (simp_all add: sb_inv_def)
  then have ok: "seconds s > 0 \<Longrightarrow> seconds s - 1 \<le> 59"
    "running s \<Longrightarrow> \<not> seconds s > 0 \<Longrightarrow> minutes s - 1 \<le> 99"
    using inv by (auto simp: sb_inv_def word_gt_0 intro: word_minus_one_le)
  show "sb_inv (timer_tick c s)" and "signalled s (timer_tick c s)"
    using inv ok \<open>minutes s \<le> 99\<close> set_clock_op.keeps_inv [where s = s and c = c]
      set_clock_op.signals [where s = s and c = c]
    by (auto simp: timer_tick_00_dead)
qed

section \<open>The other tasks as one operation\<close>

text \<open>\<open>Uart_packet\<close> is the end of a frame in \<open>read_serial\<close>: nothing happens unless it parses.\<close>

datatype task_call = Uart_packet bytes | Refresh | Timer_tick

fun task_op :: "task_call \<Rightarrow> clock \<Rightarrow> scoreboard \<Rightarrow> scoreboard" where
  "task_op (Uart_packet pkt) c s =
     (case parse_clock_packet pkt of None \<Rightarrow> s | Some (m, sec) \<Rightarrow> set_clock c m sec s)"
| "task_op Refresh c s = refresh_running c s"
| "task_op Timer_tick c s = timer_tick c s"

interpretation tasks_op: scoreboard_op task_op "\<lambda>_. True"
proof unfold_locales
  fix a c s
  assume inv: "sb_inv s"
  show "sb_inv (task_op a c s)"
    using inv set_clock_op.keeps_inv [where s = s and c = c] timer_op.keeps_inv
    by (cases a) (auto simp: sb_inv_refresh_running parse_clock_packet_Some split: option.splits)
  show "signalled s (task_op a c s)"
    using inv set_clock_op.signals [where s = s and c = c] timer_op.signals
    by (cases a) (auto simp: signalled_refresh_running parse_clock_packet_Some split: option.splits)
qed

lemma timer_tick_scores [simp]:
  "home (timer_tick c s) = home s" "away (timer_tick c s) = away s" "led (timer_tick c s) = led s"
  by (simp_all add: timer_tick_def set_clock_eq Let_def)

lemma task_op_scores [simp]:
  "home (task_op a c s) = home s" "away (task_op a c s) = away s" "led (task_op a c s) = led s"
  by (cases a; simp add: set_clock_eq split: option.split)+

section \<open>The environment of board_task\<close>

text \<open>
  A schedule: before the \<open>k\<close>-th acquisition the other tasks ran the operations \<open>sched k\<close>,
  each with its own clock, and the clock is \<open>clk k\<close> when the mutex is taken.
\<close>

definition other_tasks ::
    "(nat \<Rightarrow> (task_call \<times> clock) list) \<Rightarrow> (nat \<Rightarrow> clock) \<Rightarrow> environment" where
  "other_tasks sched clk k s = (clk k, fold (\<lambda>(a, c). task_op a c) (sched k) s)"

text \<open>What \<open>board_task\<close> relies on: scores and LED are its own, the rest stays well formed.\<close>

locale interference =
  fixes env :: environment
  assumes env_inv: "sb_inv s \<Longrightarrow> sb_inv (snd (env k s))"
    and env_signals: "sb_inv s \<Longrightarrow> signalled s (snd (env k s))"
    and env_home: "home (snd (env k s)) = home s"
    and env_away: "away (snd (env k s)) = away s"
    and env_led: "led (snd (env k s)) = led s"

lemma fold_task_op_scores:
  "home (fold (\<lambda>(a, c). task_op a c) xs s) = home s"
  "away (fold (\<lambda>(a, c). task_op a c) xs s) = away s"
  "led (fold (\<lambda>(a, c). task_op a c) xs s) = led s"
  by (induction xs arbitrary: s) auto

interpretation tasks: interference "other_tasks sched clk"
  by unfold_locales
    (auto simp: other_tasks_def fold_task_op_scores list_all_iff
      intro: tasks_op.fold_keeps_inv tasks_op.fold_signals)

end
