(* ===== verification/Board_Correct.thy ===== *)
theory Board_Correct
  imports Tasks
begin

text \<open>
  What \<open>board_task\<close> guarantees whatever the other tasks do: its programs keep the shared
  invariant, pulse the pins one at a time, and move the physical scores exactly as the
  stored ones.
\<close>

section \<open>Invariant\<close>

definition locals_inv :: "locals \<Rightarrow> bool" where
  "locals_inv l \<longleftrightarrow> pending_home_dec l = 0 \<and> pending_away_dec l = 0 \<and>
     \<bar>pending_min l\<bar> \<le> 99 \<and> \<bar>pending_sec l\<bar> \<le> 59"

lemma locals_inv_init: "locals_inv init_locals"
  by (simp add: locals_inv_def init_locals_def)

text \<open>
  A program is well behaved if every critical section it may still run keeps the invariant
  and signals, from any state another task may leave, and if it ends with good locals.
\<close>

primrec prog_ok :: "board_prog \<Rightarrow> bool" where
  "prog_ok (Done l) \<longleftrightarrow> locals_inv l"
| "prog_ok (Emit e p) \<longleftrightarrow> prog_ok p"
| "prog_ok (Lock f g) \<longleftrightarrow>
     (\<forall>c s. sb_inv s \<longrightarrow> sb_inv (f c s) \<and> signalled s (f c s) \<and> prog_ok (g c s))"

lemma prog_ok_pulse [simp]: "prog_ok (pulse p k) = prog_ok k"
  by (simp add: pulse_def)

lemma prog_ok_blink [simp]: "prog_ok (blink_onboard h k) = prog_ok k"
  by (simp add: blink_onboard_def)

lemma publish_inv:
  "sb_inv s \<Longrightarrow> minutes s' = minutes s \<Longrightarrow> seconds s' = seconds s \<Longrightarrow> running s' = running s \<Longrightarrow>
   pending_running s' = pending_running s \<Longrightarrow> pending_at s' = pending_at s \<Longrightarrow>
   home s' \<le> 99 \<Longrightarrow> away s' \<le> 99 \<Longrightarrow> sb_inv (publish s')"
  by (simp add: sb_inv_def)

lemma publish_signalled:
  "sb_inv s \<Longrightarrow> announced s' = announced s \<Longrightarrow> sends s' = sends s \<Longrightarrow> signalled s (publish s')"
  by (rule signalled_publish) (simp_all add: sb_inv_def)

lemma sb_inv_bounds:
  assumes "sb_inv s"
  shows "minutes s \<le> 99" "seconds s \<le> 59" "home s \<le> 99" "away s \<le> 99"
  using assms by (simp_all add: sb_inv_def)

lemma clear_pending_inv:
  "sb_inv s \<Longrightarrow> sb_inv (s\<lparr>pending_running := None, pending_at := None\<rparr>)"
  "signalled s (s\<lparr>pending_running := None, pending_at := None\<rparr>)"
  by (simp_all add: sb_inv_def signalled_def visible_of_def)

lemma stop_clock_inv:
  assumes "sb_inv s"
  shows "sb_inv (refresh_running c (s\<lparr>last_change := l\<rparr>))"
    and "signalled s (refresh_running c (s\<lparr>last_change := l\<rparr>))"
  using assms refresh_after_clock_inv [of s "minutes s" "seconds s" c l]
    refresh_after_clock_signalled [where s = s and c = c and m = "minutes s" and sec = "seconds s" and l = l]
  by (auto simp: sb_inv_bounds)

lemma set_then_stop_inv:
  assumes "sb_inv s" "m \<le> 99" "sec \<le> 59"
  shows "sb_inv (refresh_running c ((set_clock c m sec s)\<lparr>last_change := l\<rparr>))"
    and "signalled s (refresh_running c ((set_clock c m sec s)\<lparr>last_change := l\<rparr>))"
proof -
  have "sb_inv (set_clock c m sec s)" "signalled s (set_clock c m sec s)"
    using assms set_clock_op.keeps_inv [of "(m, sec)" s c] set_clock_op.signals [of "(m, sec)" s c]
    by auto
  then show "sb_inv (refresh_running c ((set_clock c m sec s)\<lparr>last_change := l\<rparr>))"
    and "signalled s (refresh_running c ((set_clock c m sec s)\<lparr>last_change := l\<rparr>))"
    by (auto intro: stop_clock_inv signalled_trans)
qed

lemmas prog_inv_intros =
  publish_inv publish_signalled clear_pending_inv stop_clock_inv set_then_stop_inv
  start_stop_pulse_for_inv start_stop_pulse_for_signalled

lemma delta_bounded:
  fixes m m' :: u8
  assumes "m \<le> k" "m' \<le> k"
  shows "\<bar>uint m - uint m'\<bar> \<le> uint k"
  using assms uint_nonnegative [of m] uint_nonnegative [of m']
  unfolding word_le_def abs_le_iff by linarith

lemma set_timer_deltas_bounded:
  fixes m sec :: u8
  shows "sb_inv s \<Longrightarrow> \<bar>uint (min m 99) - uint (minutes s)\<bar> \<le> 99"
    and "sb_inv s \<Longrightarrow> \<bar>uint (min sec 59) - uint (seconds s)\<bar> \<le> 59"
  using delta_bounded [of "min m 99" 99 "minutes s"] delta_bounded [of "min sec 59" 59 "seconds s"]
  by (simp_all add: sb_inv_bounds)

lemma min_sec_pulse_ok: "locals_inv l \<Longrightarrow> prog_ok (min_sec_pulse l)"
  by (auto simp: min_sec_pulse_def locals_inv_def)

lemma handle_ok:
  assumes "locals_inv l"
  shows "prog_ok (handle b cmd l)"
proof (cases cmd)
  case (SetTimer m sec)
  with assms show ?thesis
    by (auto simp: handle_set_timer_def Let_def locals_inv_def set_timer_deltas_bounded
        intro: prog_inv_intros split: build.splits)
next
  case HomeInc
  with assms show ?thesis
    by (auto simp: handle_home_inc_def SCORE_MAX_def locals_inv_def sb_inv_bounds inc_le
        intro: prog_inv_intros)
next
  case HomeDec
  with assms show ?thesis
    by (auto simp: handle_home_dec_def locals_inv_def sb_inv_bounds word_minus_one_le
        intro: prog_inv_intros)
next
  case AwayInc
  with assms show ?thesis
    by (auto simp: handle_away_inc_def SCORE_MAX_def locals_inv_def sb_inv_bounds inc_le
        intro: prog_inv_intros)
next
  case AwayDec
  with assms show ?thesis
    by (auto simp: handle_away_dec_def locals_inv_def sb_inv_bounds word_minus_one_le
        intro: prog_inv_intros)
qed (use assms in \<open>auto simp: handle_led_def handle_start_stop_def handle_scores_zero_def
       handle_reset_def handle_aux_def Let_def locals_inv_def sb_inv_bounds
     intro: prog_inv_intros split: build.splits\<close>)

lemma iteration_ok: "locals_inv l \<Longrightarrow> prog_ok (iteration b r l)"
  by (auto simp: iteration_def pending_step_def handle_ok min_sec_pulse_ok locals_inv_def
      intro: prog_inv_intros split: option.splits build.splits)

section \<open>Effects: whole pulses, one pin at a time\<close>

text \<open>
  A pulse train: each pin driven high is held for \<open>PULSE_MS\<close> and driven low before
  anything else happens to any pin.
\<close>

fun pulse_train :: "effect list \<Rightarrow> bool" where
  "pulse_train [] \<longleftrightarrow> True"
| "pulse_train (SetHigh p # AfterMillis ms # SetLow q # es) \<longleftrightarrow>
     p = q \<and> ms = PULSE_MS \<and> pulse_train es"
| "pulse_train (AfterMillis ms # es) \<longleftrightarrow> pulse_train es"
| "pulse_train (GpioSet v # es) \<longleftrightarrow> pulse_train es"
| "pulse_train _ \<longleftrightarrow> False"

lemma pulse_train_append: "pulse_train es \<Longrightarrow> pulse_train fs \<Longrightarrow> pulse_train (es @ fs)"
  by (induction es rule: pulse_train.induct) auto

text \<open>Programs built from pulses, LED writes, waits and critical sections.\<close>

inductive tidy :: "board_prog \<Rightarrow> bool" where
  tidy_Done: "tidy (Done l)"
| tidy_pulse: "tidy k \<Longrightarrow> tidy (pulse p k)"
| tidy_led: "tidy k \<Longrightarrow> tidy (Emit (GpioSet v) k)"
| tidy_wait: "tidy k \<Longrightarrow> tidy (Emit (AfterMillis ms) k)"
| tidy_Lock: "(\<And>c s. tidy (g c s)) \<Longrightarrow> tidy (Lock f g)"

lemma tidy_blink: "tidy k \<Longrightarrow> tidy (blink_onboard h k)"
  by (simp add: blink_onboard_def tidy.intros)

lemmas tidy_intros = tidy.intros tidy_blink

lemma tidy_min_sec_pulse: "tidy (min_sec_pulse l)"
  by (auto simp: min_sec_pulse_def intro: tidy_intros)

lemma tidy_iteration: "tidy (iteration b r l)"
proof (cases r)
  case None
  then show ?thesis
    by (auto simp: iteration_def pending_step_def intro!: tidy_intros tidy_min_sec_pulse
        split: build.split)
next
  case (Some cmd)
  then show ?thesis
    by (cases cmd)
      (auto simp: iteration_def handle_led_def handle_start_stop_def handle_home_inc_def
        handle_home_dec_def handle_away_inc_def handle_away_dec_def handle_scores_zero_def
        handle_reset_def handle_set_timer_def handle_aux_def Let_def
        intro!: tidy_intros split: build.split)
qed

lemma exec_pulse:
  "exec (pulse p k) env n s = (case exec k env n s of
     (s', l, n', es) \<Rightarrow> (s', l, n', SetHigh p # AfterMillis PULSE_MS # SetLow p # es))"
  by (simp add: pulse_def split: prod.splits)

lemma exec_tidy:
  "tidy p \<Longrightarrow> exec p env n s = (s', l, n', es) \<Longrightarrow> pulse_train es"
proof (induction arbitrary: n s es rule: tidy.induct)
  case (tidy_pulse k p)
  then show ?case by (auto simp: exec_pulse split: prod.splits)
qed (auto split: prod.splits)

section \<open>Scores: the pulses say what the state says\<close>

text \<open>
  The scoreboard's own score counters, seen from the pins: the home/away buttons add or
  subtract one, the clear button zeroes both.
\<close>

fun score_effect :: "effect \<Rightarrow> int \<times> int \<Rightarrow> int \<times> int" where
  "score_effect (SetHigh Io_home_inc) (h, a) = (h + 1, a)"
| "score_effect (SetHigh Io_home_dec) (h, a) = (h - 1, a)"
| "score_effect (SetHigh Io_away_inc) (h, a) = (h, a + 1)"
| "score_effect (SetHigh Io_away_dec) (h, a) = (h, a - 1)"
| "score_effect (SetHigh Io_clear) (h, a) = (0, 0)"
| "score_effect _ x = x"

definition replay :: "effect list \<Rightarrow> int \<times> int \<Rightarrow> int \<times> int" where
  "replay es x = fold score_effect es x"

lemma replay_simps [simp]:
  "replay [] x = x" "replay (e # es) x = replay es (score_effect e x)"
  "replay (es @ fs) x = replay fs (replay es x)"
  by (simp_all add: replay_def)

lemma score_effect_other [simp]:
  "score_effect (AfterMillis ms) x = x" "score_effect (SetLow p) x = x"
  "score_effect (GpioSet v) x = x" "score_effect (SetHigh Io_start) x = x"
  "score_effect (SetHigh Io_reset) x = x" "score_effect (SetHigh Io_aux) x = x"
  "score_effect (SetHigh Io_min_inc) x = x" "score_effect (SetHigh Io_min_dec) x = x"
  "score_effect (SetHigh Io_sec_inc) x = x" "score_effect (SetHigh Io_sec_dec) x = x"
  by (cases x; simp)+

definition scores :: "scoreboard \<Rightarrow> int \<times> int" where
  "scores s = (uint (home s), uint (away s))"

text \<open>
  \<open>mirrors p x h a\<close>: with the scoreboard showing \<open>x\<close> and the state holding \<open>h\<close>, \<open>a\<close>, the
  program ends with the scoreboard showing what the state holds.  Only this task writes the
  scores, so a critical section finds them as the last one left them.
\<close>

primrec mirrors :: "board_prog \<Rightarrow> int \<times> int \<Rightarrow> u16 \<Rightarrow> u16 \<Rightarrow> bool" where
  "mirrors (Done l) x h a \<longleftrightarrow> x = (uint h, uint a)"
| "mirrors (Emit e p) x h a \<longleftrightarrow> mirrors p (score_effect e x) h a"
| "mirrors (Lock f g) x h a \<longleftrightarrow>
     (\<forall>c s. home s = h \<and> away s = a \<longrightarrow> mirrors (g c s) x (home (f c s)) (away (f c s)))"

lemma mirrors_pulse [simp]: "mirrors (pulse p k) x h a = mirrors k (score_effect (SetHigh p) x) h a"
  by (simp add: pulse_def)

lemma mirrors_blink [simp]: "mirrors (blink_onboard v k) x h a = mirrors k x h a"
  by (simp add: blink_onboard_def)

lemma start_stop_scores [simp]:
  "home (snd (start_stop_pulse_for c w s)) = home s"
  "away (snd (start_stop_pulse_for c w s)) = away s"
  by (simp_all add: start_stop_pulse_for_state)

lemma set_clock_scores [simp]:
  "home (set_clock c m sec s) = home s" "away (set_clock c m sec s) = away s"
  by (simp_all add: set_clock_eq)

lemma uint_plus_1: "(w :: u16) < 99 \<Longrightarrow> uint (w + 1) = uint w + 1"
  by (simp add: uint_word_ariths word_less_def)

lemma uint_minus_1: "(w :: u16) > 0 \<Longrightarrow> uint (w - 1) = uint w - 1"
  using uint_minus_simple_alt [of 1 w] by (simp add: word_less_def word_le_def)

lemma iteration_mirrors:
  assumes "locals_inv l"
  shows "mirrors (iteration b r l) (uint h, uint a) h a"
proof (cases r)
  case None
  with assms show ?thesis
    by (auto simp: iteration_def pending_step_def min_sec_pulse_def locals_inv_def split: build.splits)
next
  case (Some cmd)
  with assms show ?thesis
    by (cases cmd)
      (auto simp: iteration_def handle_led_def handle_start_stop_def handle_home_inc_def
        handle_home_dec_def handle_away_inc_def handle_away_dec_def handle_scores_zero_def
        handle_reset_def handle_set_timer_def handle_aux_def Let_def locals_inv_def
        SCORE_MAX_def uint_plus_1 uint_minus_1 split: build.splits)
qed

section \<open>Runs against any schedule of the other tasks\<close>

context interference
begin

lemma exec_keeps:
  "prog_ok p \<Longrightarrow> sb_inv s \<Longrightarrow> exec p env k s = (s', l, k', es) \<Longrightarrow>
   sb_inv s' \<and> signalled s s' \<and> locals_inv l"
proof (induction p arbitrary: k s es)
  case (Lock f g)
  obtain c s1 where e: "env k s = (c, s1)" by force
  with Lock.prems(2) have s1: "sb_inv s1" "signalled s s1"
    using env_inv [of s k] env_signals [of s k] by simp_all
  with Lock.prems(1) have "sb_inv (f c s1)" "signalled s1 (f c s1)" "prog_ok (g c s1)"
    by auto
  with Lock.IH [OF rangeI [of g c] rangeI [of "g c" s1]] Lock.prems(3) e s1(2) show ?case
    by (auto intro: signalled_trans)
qed (auto split: prod.splits)

lemma exec_mirrors:
  "mirrors p x (home s) (away s) \<Longrightarrow> exec p env k s = (s', l, k', es) \<Longrightarrow> replay es x = scores s'"
proof (induction p arbitrary: k s x es)
  case (Lock f g)
  obtain c s1 where e: "env k s = (c, s1)" by force
  then have "home s1 = home s" "away s1 = away s"
    using env_home [of k s] env_away [of k s] by simp_all
  with Lock.prems(1) have "mirrors (g c s1) x (home (f c s1)) (away (f c s1))" by simp
  with Lock.IH [OF rangeI [of g c] rangeI [of "g c" s1]] Lock.prems(2) e show ?case by auto
next
  case (Emit e p)
  from Emit.prems(2) obtain fs where "exec p env k s = (s', l, k', fs)" "es = e # fs"
    by (auto split: prod.splits)
  with Emit.IH [of "score_effect e x" s k fs] Emit.prems(1) show ?case by simp
qed (simp add: scores_def)

lemma run_board_keeps:
  "locals_inv l \<Longrightarrow> sb_inv s \<Longrightarrow> run_board b rs l env k s = (s', l', k', es) \<Longrightarrow>
   sb_inv s' \<and> signalled s s' \<and> locals_inv l' \<and> pulse_train es \<and> replay es (scores s) = scores s'"
proof (induction rs arbitrary: l s k es)
  case Nil
  then show ?case by simp
next
  case (Cons r rs)
  obtain s1 l1 k1 es1 where 1: "exec (iteration b r l) env k s = (s1, l1, k1, es1)"
    by (metis prod_cases4)
  obtain es2 where 2: "run_board b rs l1 env k1 s1 = (s', l', k', es2)" "es = es1 @ es2"
    using Cons.prems(3) 1 by (auto split: prod.splits)
  have "sb_inv s1" "signalled s s1" "locals_inv l1"
    using exec_keeps [OF iteration_ok [OF Cons.prems(1)] Cons.prems(2) 1] by simp_all
  moreover have "pulse_train es1" by (rule exec_tidy [OF tidy_iteration 1])
  moreover have "replay es1 (scores s) = scores s1"
    using exec_mirrors [OF _ 1] iteration_mirrors [OF Cons.prems(1)] by (simp add: scores_def)
  ultimately show ?case
    using Cons.IH [OF _ _ 2(1)] 2(2) by (auto intro: signalled_trans pulse_train_append)
qed

end

lemma tasks_run_board:
  "run_board b rs init_locals (other_tasks sched clk) 0 default_scoreboard = (s', l', k', es) \<Longrightarrow>
   sb_inv s' \<and> locals_inv l' \<and> pulse_train es \<and> replay es (0, 0) = scores s'"
  using tasks.run_board_keeps [OF locals_inv_init sb_inv_default]
  by (auto simp: scores_def default_scoreboard_def)

text \<open>Whatever commands arrive and however the other tasks are scheduled, the pulses
  sent since boot put the physical scoreboard on exactly the scores the state holds.\<close>

lemma board_scores_mirror:
  "case run_board b rs init_locals (other_tasks sched clk) 0 default_scoreboard of
     (s', l', k', es) \<Rightarrow> replay es (0, 0) = (uint (home s'), uint (away s'))"
  using tasks_run_board by (fastforce simp: scores_def split: prod.split)

text \<open>C4: and the shared state keeps its invariant, the task's pending score pulses stay
  zero and its pending min/sec pulses stay within one display's range.\<close>

theorem board_run_invariant:
  "case run_board b rs init_locals (other_tasks sched clk) 0 default_scoreboard of
     (s', l', k', es) \<Rightarrow> sb_inv s' \<and> pending_home_dec l' = 0 \<and> pending_away_dec l' = 0 \<and>
       \<bar>pending_min l'\<bar> \<le> 99 \<and> \<bar>pending_sec l'\<bar> \<le> 59"
  using tasks_run_board by (fastforce simp: locals_inv_def split: prod.split)

text \<open>C25: and every pin driven high is held 50 ms and driven low before any other pin moves.\<close>

theorem board_pulse_train:
  "case run_board b rs init_locals (other_tasks sched clk) 0 default_scoreboard of
     (s', l', k', es) \<Rightarrow> pulse_train es"
  using tasks_run_board by (fastforce split: prod.split)

end
