(* ===== verification/Http.thy ===== *)
theory Http
  imports Board_Task "HOL-Library.Sublist"
begin

text \<open>
  The HTTP side of \<open>src/main.rs\<close> that is the program's own: the captive-portal state, the
  user-agent tag of the request log, the route table, and the status document.  Requests and
  responses themselves are picoserve's.
\<close>

unbundle bit_operations_syntax

section \<open>Captive portal\<close>

record portal =
  served_ui :: bool
  last_ui_ms :: u32

definition init_portal :: portal where
  "init_portal = \<lparr>served_ui = False, last_ui_ms = 0\<rparr>"

definition UI_CAPTIVE_MS :: u32 where "UI_CAPTIVE_MS = 90000"

text \<open>\<open>Instant::now().as_millis() as u32\<close>.\<close>

definition now_ms :: "clock \<Rightarrow> u32" where
  "now_ms c = ucast (millis c (now c))"

definition mark_ui_served :: "clock \<Rightarrow> portal \<Rightarrow> portal" where
  "mark_ui_served c p = p\<lparr>served_ui := True, last_ui_ms := now_ms c\<rparr>"

definition apple_probe_done :: "clock \<Rightarrow> portal \<Rightarrow> bool" where
  "apple_probe_done c p = (if \<not> served_ui p then False else now_ms c - last_ui_ms p < UI_CAPTIVE_MS)"

datatype probe_reply = Redirect | AppleDone

text \<open>The responses the program builds itself; a missing status is 200.\<close>

record response =
  code :: nat
  headers :: "(string \<times> string) list"
  body :: string

definition PORTAL_URL :: string where "PORTAL_URL = ''http://192.168.0.1/''"

definition APPLE_SUCCESS :: string where
  "APPLE_SUCCESS = ''<HTML><HEAD><TITLE>Success</TITLE></HEAD><BODY>Success</BODY></HTML>''"

fun probe_response :: "probe_reply \<Rightarrow> response" where
  "probe_response Redirect =
     \<lparr>code = 302, headers = [(''Location'', PORTAL_URL), (''Cache-Control'', ''no-store'')], body = PORTAL_URL\<rparr>"
| "probe_response AppleDone =
     \<lparr>code = 200, headers = [(''Content-Type'', ''text/html''), (''Cache-Control'', ''no-store'')],
      body = APPLE_SUCCESS\<rparr>"

section \<open>Request log\<close>

text \<open>\<open>str::contains\<close>, \<open>str::is_char_boundary\<close>, \<open>&s[..i]\<close> on the UTF-8 bytes of a string.\<close>

fun contains :: "bytes \<Rightarrow> bytes \<Rightarrow> bool" where
  "contains [] pat = (pat = [])"
| "contains (b # bs) pat = (prefix pat (b # bs) \<or> contains bs pat)"

definition char_boundary :: "bytes \<Rightarrow> nat \<Rightarrow> bool" where
  "char_boundary s i \<longleftrightarrow> i = 0 \<or> i = length s \<or> (i < length s \<and> s ! i AND 0xC0 \<noteq> 0x80)"

definition str_to :: "bytes \<Rightarrow> nat \<Rightarrow> bytes rs" where
  "str_to s i = (if char_boundary s i then ret (take i s) else panic)"

definition ua_tag :: "bytes \<Rightarrow> bytes rs" where
  "ua_tag ua =
     (if contains ua (ascii ''CaptiveNetworkSupport'') then ret (ascii ''CNA'')
      else if contains ua (ascii ''Android'') then ret (ascii ''Android'')
      else if contains ua (ascii ''iPhone'') \<or> contains ua (ascii ''iPad'') \<or> contains ua (ascii ''iPod'')
        then ret (ascii ''iOS'')
      else if contains ua (ascii ''Macintosh'') then ret (ascii ''macOS'')
      else if length ua > 28 then str_to ua 28
      else ret ua)"

text \<open>
  \<open>log_http\<close>: nothing for the status poll, else method, path, host, tag, whether the UI was
  served, and the action.  \<open>rq_headers\<close> is picoserve's lookup of a header by name, \<open>None\<close> also when
  its value is no string.
\<close>

record request_parts =
  rq_method :: string
  rq_path :: bytes
  rq_headers :: "string \<Rightarrow> bytes option"

definition hdr :: "request_parts \<Rightarrow> string \<Rightarrow> bytes" where
  "hdr parts name = (case rq_headers parts name of Some v \<Rightarrow> v | None \<Rightarrow> ascii ''-'')"

type_synonym http_line = "(string \<times> bytes \<times> bytes \<times> bytes \<times> bool \<times> string) option"

definition log_http ::
    "portal \<Rightarrow> request_parts \<Rightarrow> string \<Rightarrow> http_line rs" where
  "log_http p parts act =
     (if prefix (ascii ''/api/status'') (rq_path parts) then ret None
      else do {
        tag \<leftarrow> ua_tag (hdr parts ''User-Agent'');
        ret (Some (rq_method parts, rq_path parts, hdr parts ''Host'', tag, served_ui p, act))
      })"

section \<open>Handlers\<close>

text \<open>\<open>MarkUi\<close>, \<open>AppleProbe\<close> and \<open>PortalFallback\<close>; \<open>Ui_page\<close> is picoserve's response of the page.\<close>

datatype reply = Ui_page | Reply response

definition mark_ui :: "clock \<Rightarrow> portal \<Rightarrow> request_parts \<Rightarrow> (portal \<times> http_line \<times> reply) rs" where
  "mark_ui c p parts =
     (let p = mark_ui_served c p in do {
        line \<leftarrow> log_http p parts ''UI'';
        ret (p, line, Ui_page)
      })"

definition apple_probe_service :: "clock \<Rightarrow> portal \<Rightarrow> request_parts \<Rightarrow> (http_line \<times> reply) rs" where
  "apple_probe_service c p parts =
     (let fin = apple_probe_done c p in do {
        line \<leftarrow> log_http p parts (if fin then ''apple-success'' else ''302'');
        ret (line, Reply (probe_response (if fin then AppleDone else Redirect)))
      })"

definition portal_fallback :: "portal \<Rightarrow> request_parts \<Rightarrow> (http_line \<times> reply) rs" where
  "portal_fallback p parts = do {
     line \<leftarrow> log_http p parts ''302'';
     ret (line, Reply (probe_response Redirect))
   }"

text \<open>UTF-8 of code points up to 0x7FF, enough for the examples.\<close>

definition utf8_char :: "nat \<Rightarrow> bytes" where
  "utf8_char c = (if c < 0x80 then [of_nat c] else [of_nat (0xC0 + c div 64), of_nat (0x80 + c mod 64)])"

definition utf8 :: "nat list \<Rightarrow> bytes" where
  "utf8 cs = concat (map utf8_char cs)"

section \<open>Routes\<close>

datatype meth = Get | Post

datatype action =
    Serve_ui | Apple_probe | Send command | Status | Events | Ota_upload

text \<open>
  The fixed paths, in the order of \<open>build_app\<close>.
\<close>

definition routes :: "bool \<Rightarrow> (string \<times> meth \<times> action) list" where
  "routes with_ota =
     [(''/'', Get, Serve_ui), (''/index.html'', Get, Serve_ui),
      (''/hotspot-detect.html'', Get, Apple_probe), (''/hotspotdetect.html'', Get, Apple_probe),
      (''/library/test/success.html'', Get, Apple_probe),
      (''/led/on'', Post, Send LedOn), (''/led/off'', Post, Send LedOff),
      (''/api/ctrl/start-stop'', Post, Send StartStop), (''/api/ctrl/start'', Post, Send Start),
      (''/api/ctrl/stop'', Post, Send Stop), (''/api/ctrl/reset'', Post, Send Reset),
      (''/api/ctrl/home-inc'', Post, Send HomeInc), (''/api/ctrl/home-dec'', Post, Send HomeDec),
      (''/api/ctrl/away-inc'', Post, Send AwayInc), (''/api/ctrl/away-dec'', Post, Send AwayDec),
      (''/api/ctrl/scores-zero'', Post, Send ScoresZero), (''/api/ctrl/aux'', Post, Send Aux),
      (''/api/status'', Get, Status), (''/api/events'', Get, Events)] @
     (if with_ota then [(''/api/ota'', Post, Ota_upload)] else [])"

text \<open>
  A path is a fixed one or \<open>/api/timer/set/<min>/<sec>\<close>; every other path goes to
  \<open>PortalFallback\<close>, which redirects whatever the method: \<open>None\<close>.  \<open>segments\<close> splits a path below
  that prefix into the two numbers when picoserve's \<open>parse_path_segment::<u8>\<close> accepts both.
\<close>

definition route :: "bool \<Rightarrow> (string \<Rightarrow> (u8 \<times> u8) option) \<Rightarrow> string \<Rightarrow> (meth \<times> action) option" where
  "route with_ota segments path =
     (case map_of (routes with_ota) path of
        Some r \<Rightarrow> Some r
      | None \<Rightarrow> map_option (\<lambda>(m, sec). (Post, Send (SetTimer m sec))) (segments path))"

text \<open>
  The requests that the portal answers: the page, the Apple probes, and every path that no route
  takes.  \<open>None\<close>: another handler's, or picoserve's refusal of the method.
\<close>

definition portal_call :: "bool \<Rightarrow> (string \<Rightarrow> (u8 \<times> u8) option) \<Rightarrow> clock \<Rightarrow> portal \<Rightarrow> request_parts \<Rightarrow>
    meth \<Rightarrow> string \<Rightarrow> (portal \<times> http_line \<times> reply) rs option" where
  "portal_call with_ota segments c p parts m path =
     (case route with_ota segments path of
        None \<Rightarrow> Some (map_option (Pair p) (portal_fallback p parts))
      | Some (Get, Serve_ui) \<Rightarrow> if m = Get then Some (mark_ui c p parts) else None
      | Some (Get, Apple_probe) \<Rightarrow>
          if m = Get then Some (map_option (Pair p) (apple_probe_service c p parts)) else None
      | _ \<Rightarrow> None)"

section \<open>Status\<close>

definition time_str :: "u8 \<Rightarrow> u8 \<Rightarrow> bytes" where
  "time_str m sec =
     (let m = min m 99; sec = min sec 59
      in [48 + m div 10, 48 + m mod 10, 58, 48 + sec div 10, 48 + sec mod 10])"

record status =
  st_time :: bytes
  st_running :: bool
  st_home :: u16
  st_away :: u16
  st_led :: bool
  st_sim :: bool
  st_age_ms :: u32

definition status_of :: "build \<Rightarrow> clock \<Rightarrow> scoreboard \<Rightarrow> status" where
  "status_of b c s =
     \<lparr>st_time = time_str (minutes s) (seconds s), st_running = running s, st_home = home s,
      st_away = away s, st_led = led s, st_sim = (b = Simulate), st_age_ms = age_ms c s\<rparr>"

text \<open>
  What the build stamps into the image: version, commit hash and date (\<open>VERSION\<close>, \<open>GIT_HASH\<close>,
  \<open>GIT_DATE\<close>); \<open>GIT_SHORT\<close> is the first seven characters of the hash.
\<close>

record build_info =
  version :: string
  git_hash :: string
  git_date :: string

definition GIT_SHORT :: "build_info \<Rightarrow> string" where
  "GIT_SHORT i = (if length (git_hash i) \<ge> 7 then take 7 (git_hash i) else git_hash i)"

text \<open>
  The document as serde gets it: the fields in the order of \<open>StatusJson\<close>, the time by
  \<open>TimeStr::serialize\<close>.
\<close>

datatype json = J_str bytes | J_bool bool | J_num nat

definition time_serialize :: "bytes \<Rightarrow> json" where
  "time_serialize buf = J_str (utf8_or buf ''00:00'')"

definition status_json :: "build_info \<Rightarrow> status \<Rightarrow> (string \<times> json) list" where
  "status_json i d =
     [(''time'', time_serialize (st_time d)), (''running'', J_bool (st_running d)),
      (''home'', J_num (unat (st_home d))), (''away'', J_num (unat (st_away d))),
      (''led'', J_bool (st_led d)), (''sim'', J_bool (st_sim d)),
      (''ver'', J_str (ascii (version i))), (''git'', J_str (ascii (GIT_SHORT i))),
      (''date'', J_str (ascii (git_date i))), (''age_ms'', J_num (unat (st_age_ms d)))]"

section \<open>Properties\<close>

text \<open>After the UI was last served, an Apple probe is told it is online for exactly the 90 seconds
  that follow, as long as less than \<open>2 ^ 32\<close> ms pass.\<close>

lemma apple_probe_window:
  assumes "unat (millis c (now c)) \<le> unat (millis d (now d))"
    and "unat (millis d (now d)) - unat (millis c (now c)) < 2 ^ 32"
  shows "apple_probe_done d (mark_ui_served c p) \<longleftrightarrow>
    unat (millis d (now d)) - unat (millis c (now c)) < 90000"
proof -
  let ?a = "unat (millis c (now c))" and ?b = "unat (millis d (now d))"
  have "now_ms d - now_ms c = of_nat (?b - ?a)"
    using assms(1) by (simp add: now_ms_def of_nat_diff)
  then have "unat (now_ms d - now_ms c) = ?b - ?a"
    using assms(2) by (simp add: unat_of_nat)
  then show ?thesis
    by (simp add: apple_probe_done_def mark_ui_served_def UI_CAPTIVE_MS_def word_less_nat_alt)
qed

lemma ascii_not_continuation: "b < 128 \<Longrightarrow> b AND 0xC0 \<noteq> 0x80" for b :: u8
proof
  assume "b < 128" "b AND 0xC0 = 0x80"
  moreover have "b AND 0xC0 \<le> b" by (rule word_and_le2)
  ultimately show False by simp
qed

text \<open>
  When the log line of a request cannot be written: the path is not the status poll's, the user
  agent is none of the kinds the tag knows, and the byte at which the tag cuts it is inside a
  character.
\<close>

definition known_agents :: "string list" where
  "known_agents = [''CaptiveNetworkSupport'', ''Android'', ''iPhone'', ''iPad'', ''iPod'', ''Macintosh'']"

definition log_cuts :: "request_parts \<Rightarrow> bool" where
  "log_cuts parts \<longleftrightarrow> \<not> prefix (ascii ''/api/status'') (rq_path parts) \<and>
     (let ua = hdr parts ''User-Agent'' in
       28 < length ua \<and> ua ! 28 AND 0xC0 = 0x80 \<and> (\<forall>t \<in> set known_agents. \<not> sublist (ascii t) ua))"

lemma contains_sublist: "contains s pat \<longleftrightarrow> sublist pat s"
  by (induction s) (auto simp: sublist_Cons_right)

lemma log_http_panics: "log_http p parts act = panic \<longleftrightarrow> log_cuts parts"
  by (auto simp: log_http_def log_cuts_def ua_tag_def str_to_def char_boundary_def known_agents_def
      contains_sublist Let_def split: if_splits)

lemma log_http_then: "(log_http p parts act \<bind> (\<lambda>line. ret (f line))) = panic \<longleftrightarrow> log_cuts parts"
  using log_http_panics [of p parts act] by (cases "log_http p parts act") auto

lemma log_http_writes: "\<not> log_cuts parts \<Longrightarrow> \<exists>line. log_http p parts act = ret line"
  using log_http_panics [of p parts act] by (cases "log_http p parts act") auto

text \<open>A user agent of ASCII characters is never cut.\<close>

lemma ascii_not_cut: "list_all (\<lambda>b. b < 128) (hdr parts ''User-Agent'') \<Longrightarrow> \<not> log_cuts parts"
  by (auto simp: log_cuts_def Let_def list_all_length ascii_not_continuation)

text \<open>The requests whose log line is written by one of the portal's handlers.\<close>

definition portal_answers :: "bool \<Rightarrow> (string \<Rightarrow> (u8 \<times> u8) option) \<Rightarrow> meth \<Rightarrow> string \<Rightarrow> bool" where
  "portal_answers with_ota segments m path \<longleftrightarrow> route with_ota segments path = None \<or>
     m = Get \<and> route with_ota segments path \<in> {Some (Get, Serve_ui), Some (Get, Apple_probe)}"

lemma portal_call_panics:
  "portal_call with_ota segs c p parts m path = Some panic \<longleftrightarrow> portal_answers with_ota segs m path \<and> log_cuts parts"
  by (auto simp: portal_call_def portal_answers_def portal_fallback_def mark_ui_def
      apple_probe_service_def Let_def log_http_then
      split: option.splits prod.splits meth.splits action.splits)

lemma contains_first: "x \<notin> set ua \<Longrightarrow> \<not> contains ua (x # pat)"
  by (induction ua) auto

text \<open>A user agent of 27 ASCII characters and an e with acute accent: byte 28, where the tag cuts,
  is inside the last character.\<close>

lemma cut_example:
  assumes "hdr parts ''User-Agent'' = utf8 (replicate 27 97 @ [0xE9])" "rq_path parts = ascii ''/''"
  shows "log_cuts parts"
proof -
  have u: "utf8 (replicate 27 97 @ [0xE9]) = replicate 27 97 @ [0xC3, 0xA9]"
    by (simp add: utf8_def utf8_char_def concat_replicate_single)
  have set: "set (replicate 27 97 @ [0xC3, 0xA9 :: u8]) = {97, 0xC3, 0xA9}" by auto
  have "\<not> contains (replicate 27 97 @ [0xC3, 0xA9]) (x # pat)" if "x \<in> {67, 65, 105, 77}" for x pat
    by (rule contains_first) (use that in \<open>auto simp: set\<close>)
  then show ?thesis
    using assms by (simp add: log_cuts_def u ascii_def known_agents_def nth_append contains_sublist)
qed

lemma distinct_paths: "distinct (map fst (routes ota))"
proof -
  have "distinct (map fst (routes True))" by code_simp
  then show ?thesis by (cases ota) (simp_all add: routes_def)
qed

text \<open>Every command but set-timer has exactly one fixed path, and it is sent by POST.\<close>

lemma command_routes:
  assumes "\<forall>m sec. cmd \<noteq> SetTimer m sec"
  shows "\<exists>!path. \<exists>meth. map_of (routes ota) path = Some (meth, Send cmd) \<and> meth = Post"
proof -
  have iff: "map_of (routes ota) path = Some r \<longleftrightarrow> (path, r) \<in> set (routes ota)" for path r
    using distinct_paths [of ota] by (simp add: map_of_eq_Some_iff)
  have "\<exists>!path. (path, Post, Send cmd) \<in> set (routes ota)"
    using assms by (cases cmd) (simp_all add: routes_def)
  then show ?thesis by (simp add: iff)
qed

lemma u8_div_mod: "unat (w div 10) = unat w div 10" "unat (w mod 10) = unat w mod 10" for w :: u8
  by (simp_all add: unat_div unat_mod)

lemma digit_pair:
  fixes w :: u8
  assumes "w \<le> 99"
  shows "unat (48 + w div 10) = 48 + unat w div 10" "unat (48 + w mod 10) = 48 + unat w mod 10"
    "unat w div 10 \<le> 9"
proof -
  have w: "unat w \<le> 99" using assms by (simp add: word_le_nat_alt)
  then have "unat w div 10 \<le> 9" "unat w mod 10 \<le> 9" by linarith+
  then show "unat (48 + w div 10) = 48 + unat w div 10" "unat (48 + w mod 10) = 48 + unat w mod 10"
    "unat w div 10 \<le> 9"
    by (simp_all add: unat_word_ariths u8_div_mod)
qed

text \<open>The time string is two digits, a colon, two digits, and reads back as the clamped time.\<close>

lemma time_str_reads_back:
  "\<exists>a b c d. time_str m sec = [a, b, 58, c, d] \<and> {a, b, c, d} \<subseteq> {48..57} \<and>
     10 * (unat a - 48) + (unat b - 48) = min (unat m) 99 \<and>
     10 * (unat c - 48) + (unat d - 48) = min (unat sec) 59"
proof -
  have *: "min m 99 \<le> 99" "min sec 59 \<le> 99"
    by (simp_all add: min_def word_le_nat_alt)
  have u: "unat (min m 99) = min (unat m) 99" "unat (min sec 59) = min (unat sec) 59"
    by (simp_all add: min_def word_le_nat_alt)
  have "k mod 10 \<le> 9" for k :: nat by presburger
  then show ?thesis
    using digit_pair [OF *(1)] digit_pair [OF *(2)]
    by (simp add: time_str_def Let_def word_le_nat_alt u)
qed

text \<open>So the fallback \<open>00:00\<close> of \<open>serialize\<close> is never shown for another time.\<close>

lemma status_json_time:
  "map_of (status_json i (status_of b c s)) ''time'' = Some (J_str (time_str (minutes s) (seconds s)))"
proof -
  obtain u v w x where t: "time_str (minutes s) (seconds s) = [u, v, 58, w, x]" "{u, v, w, x} \<subseteq> {48..57}"
    using time_str_reads_back by blast
  have "y < 0x80" if "y \<in> {48..57}" for y :: u8
    using that by (simp add: word_le_nat_alt word_less_nat_alt)
  with t have "list_all (\<lambda>b. b < 0x80) (time_str (minutes s) (seconds s))" by simp
  from ascii_utf8 [OF this] show ?thesis
    by (simp add: status_json_def time_serialize_def status_of_def)
qed

end
