(* ===== verification/Events.thy ===== *)
theory Events
  imports Tasks Http
begin

text \<open>
  The event streams of \<open>src/main.rs\<close>: \<open>EventsService\<close> and \<open>StatusEvents\<close>.  The watch channel
  \<open>EVENTS\<close> is \<open>embassy_sync\<close>'s: its message counter is the scoreboard's \<open>sends\<close>, a receiver
  remembers the counter it has seen, \<open>changed\<close> waits for a larger one and \<open>try_changed\<close> asks
  for it, both marking it seen.

  A stream is a state machine over critical sections, one step per section or channel call:
  it writes a snapshot, waits for the three-way select, and after the stop timeout refreshes
  and looks at the channel.
\<close>

section \<open>Model\<close>

definition MAX_EVENT_STREAMS :: nat where "MAX_EVENT_STREAMS = 4"

datatype phase = Snapshot | Wait | Check

text \<open>\<open>docs\<close> is what was written to the client, the latest first.\<close>

record stream =
  seen :: nat
  phase :: phase
  docs :: "status list"

text \<open>\<open>EVENTS.receiver()\<close> fails when all receivers are taken; \<open>try_changed\<close> drops old signals.\<close>

definition open_stream :: "nat \<Rightarrow> scoreboard \<Rightarrow> stream option" where
  "open_stream n s =
     (if n < MAX_EVENT_STREAMS then Some \<lparr>seen = sends s, phase = Snapshot, docs = []\<rparr> else None)"

text \<open>\<open>EventsService\<close>: the stream, or the reply when all receivers are taken.\<close>

definition events_service ::
    "nat \<Rightarrow> scoreboard \<Rightarrow> portal \<Rightarrow> request_parts \<Rightarrow> (http_line \<times> (response + stream)) rs" where
  "events_service n s p parts = do {
     line \<leftarrow> log_http p parts ''events'';
     ret (line, case open_stream n s of
       None \<Rightarrow> Inl \<lparr>code = 503, headers = [(''Cache-Control'', ''no-store'')], body = ''busy''\<rparr>
     | Some st \<Rightarrow> Inr st)
   }"

definition write_snapshot :: "build \<Rightarrow> clock \<Rightarrow> scoreboard \<Rightarrow> stream \<Rightarrow> scoreboard \<times> stream" where
  "write_snapshot b c s st =
     (let s = refresh_running c s
      in (s, st\<lparr>docs := status_of b c s # docs st, phase := Wait\<rparr>))"

text \<open>\<open>Either3::First\<close>: only possible when the channel has something new.\<close>

definition stream_changed :: "scoreboard \<Rightarrow> stream \<Rightarrow> stream option" where
  "stream_changed s st =
     (if seen st < sends s then Some (st\<lparr>seen := sends s, phase := Snapshot\<rparr>) else None)"

text \<open>\<open>Either3::Third\<close>: refresh under the lock, then \<open>try_changed\<close>.\<close>

definition stream_timeout :: "clock \<Rightarrow> scoreboard \<Rightarrow> stream \<Rightarrow> scoreboard \<times> stream" where
  "stream_timeout c s st = (refresh_running c s, st\<lparr>phase := Check\<rparr>)"

definition stream_check :: "scoreboard \<Rightarrow> stream \<Rightarrow> stream" where
  "stream_check s st =
     (if seen st < sends s then st\<lparr>seen := sends s, phase := Snapshot\<rparr> else st\<lparr>phase := Wait\<rparr>)"

text \<open>How long the select waits for its third arm, in ms.\<close>

definition stop_wait :: "clock \<Rightarrow> scoreboard \<Rightarrow> u64" where
  "stop_wait c s =
     (let age = ucast (age_ms c s) :: u64 in
      if \<not> running s then 30000
      else if age \<ge> STOPPED_AFTER_MS then 1
      else STOPPED_AFTER_MS - age)"

section \<open>What a stream has told its client\<close>

definition doc_shows :: "build \<Rightarrow> status \<Rightarrow> visible \<Rightarrow> bool" where
  "doc_shows b d v \<longleftrightarrow> st_time d = time_str (vis_minutes v) (vis_seconds v) \<and>
     st_running d = vis_running v \<and> st_home d = vis_home v \<and> st_away d = vis_away v \<and>
     st_led d = vis_led v \<and> st_sim d = (b = Simulate)"

lemma doc_shows_status_of [simp]: "doc_shows b (status_of b c s) (visible_of s)"
  by (simp add: doc_shows_def status_of_def visible_of_def)

text \<open>
  A stream that is not about to write and has seen every signal has told its client what is
  visible.
\<close>

definition stream_inv :: "build \<Rightarrow> scoreboard \<Rightarrow> stream \<Rightarrow> bool" where
  "stream_inv b s st \<longleftrightarrow> seen st \<le> sends s \<and>
     (phase st \<noteq> Snapshot \<and> seen st = sends s \<longrightarrow>
        (\<exists>d ds. docs st = d # ds \<and> doc_shows b d (visible_of s)))"

lemma stream_inv_open: "open_stream n s = Some st \<Longrightarrow> stream_inv b s st"
  by (auto simp: open_stream_def stream_inv_def split: if_splits)

lemma stream_inv_env: "stream_inv b s st \<Longrightarrow> signalled s s' \<Longrightarrow> stream_inv b s' st"
  by (auto simp: stream_inv_def signalled_def)

lemma sends_refresh: "sb_inv s \<Longrightarrow> sends s \<le> sends (refresh_running c s)"
  using signalled_refresh_running [of s c] by (simp add: signalled_def)

lemma stream_inv_snapshot:
  "stream_inv b s st \<Longrightarrow> sb_inv s \<Longrightarrow> write_snapshot b c s st = (s', st') \<Longrightarrow> stream_inv b s' st'"
  using sends_refresh [of s c] by (auto simp: stream_inv_def write_snapshot_def Let_def)

lemma stream_inv_changed: "stream_changed s st = Some st' \<Longrightarrow> stream_inv b s st'"
  by (auto simp: stream_changed_def stream_inv_def split: if_splits)

lemma stream_inv_timeout:
  "stream_inv b s st \<Longrightarrow> sb_inv s \<Longrightarrow> phase st = Wait \<Longrightarrow> stream_timeout c s st = (s', st') \<Longrightarrow>
   stream_inv b s' st'"
  using stream_inv_env [of b s st "refresh_running c s"] signalled_refresh_running [of s c]
  by (auto simp: stream_timeout_def) (simp add: stream_inv_def)

lemma stream_inv_check: "stream_inv b s st \<Longrightarrow> phase st = Check \<Longrightarrow> stream_inv b s (stream_check s st)"
  by (auto simp: stream_check_def stream_inv_def)

section \<open>The stop timeout\<close>

lemma stop_wait_running:
  assumes "running s" "last_change s = Some t" "elapsed_ms c t < 2000"
  shows "stop_wait c s = 2000 - elapsed_ms c t"
proof -
  have "unat (elapsed_ms c t) < 2000" using assms(3) by (simp add: word_less_nat_alt)
  then have "min (elapsed_ms c t) 0xFFFFFFFF = elapsed_ms c t"
    "unat (ucast (elapsed_ms c t) :: u32) = unat (elapsed_ms c t)"
    by (simp_all add: min_def word_le_nat_alt unat_ucast_eq)
  then have "(ucast (age_ms c s) :: u64) = elapsed_ms c t"
    using assms(2) by (simp add: age_ms_def word_unat_eq_iff unat_ucast_eq)
  then show ?thesis
    using assms(1,3) by (auto simp: stop_wait_def STOPPED_AFTER_MS_def Let_def)
qed

text \<open>When the time has not changed, the stop timeout of a stream that saw the clock running
  fires no earlier and no later than the clock turns to stopped.\<close>

lemma stop_wait_exact:
  assumes "running s" "last_change s = Some t" "(minutes s, seconds s) \<noteq> (0, 0)"
    and "elapsed_ms c t < 2000"
  shows "\<not> running (refresh_running d s) \<longleftrightarrow> unat (elapsed_ms c t) + unat (stop_wait c s) \<le> unat (elapsed_ms d t)"
proof -
  have "unat (2000 - elapsed_ms c t) = 2000 - unat (elapsed_ms c t)"
    using assms(4) by (subst unat_sub) (simp_all add: less_imp_le)
  then show ?thesis
    using assms stop_wait_running [OF assms(1,2,4)]
    by (auto simp: uart_running_def word_less_nat_alt not_less)
qed

lemma stop_wait_exact_witness:
  "\<exists>c d s. running s \<and> \<not> running (refresh_running d s) \<and> unat (stop_wait c s) = 1500"
proof -
  define c where "c = \<lparr>now = 1000500, millis = (\<lambda>t. of_nat t)\<rparr>"
  define d where "d = \<lparr>now = 1002000, millis = (\<lambda>t. of_nat t)\<rparr>"
  define s where "s = default_scoreboard\<lparr>running := True, last_change := Some 1000000\<rparr>"
  have s: "running s" "last_change s = Some 1000000" "(minutes s, seconds s) \<noteq> (0, 0)"
    by (simp_all add: s_def default_scoreboard_def PERIOD_MIN_def)
  have e: "elapsed_ms c 1000000 = 500" "elapsed_ms d 1000000 = 2000"
    by (simp_all add: elapsed_ms_def c_def d_def)
  then have "stop_wait c s = 1500" using stop_wait_running [OF s(1,2)] by simp
  with stop_wait_exact [OF s, of c d] e s(1) show ?thesis
    by (intro exI [of _ c] exI [of _ d] exI [of _ s]) auto
qed

text \<open>That timeout reports the stop: when the clock shows running but has not changed for two
  seconds, the stream's refresh signals the change, its own check sees the signal, and the next
  document says stopped.\<close>

lemma stop_is_reported:
  assumes "sb_inv s" "stream_inv b s st" "running s" "last_change s = Some t"
    and "elapsed_ms c t \<ge> 2000"
  shows "case stream_timeout c s st of (s1, st1) \<Rightarrow>
    phase (stream_check s1 st1) = Snapshot \<and>
    (case write_snapshot b c s1 (stream_check s1 st1) of (s2, st2) \<Rightarrow>
       \<exists>d. docs st2 = d # docs st \<and> \<not> st_running d)"
proof -
  have r: "\<not> uart_running c s" "\<not> uart_running c (refresh_running c s)"
    using assms(4,5) by (simp_all add: uart_running_def not_less)
  then have "visible_of (refresh_running c s) \<noteq> visible_of s"
    using assms(3) by (simp add: visible_of_def)
  with signalled_refresh_running [OF assms(1), of c] have "sends s < sends (refresh_running c s)"
    by (auto simp: signalled_def)
  with assms(2) have "seen st < sends (refresh_running c s)" by (simp add: stream_inv_def)
  with r show ?thesis
    by (simp add: stream_timeout_def stream_check_def write_snapshot_def Let_def status_of_def)
qed

lemma stop_is_reported_witness:
  "\<exists>c s st. running s \<and> phase st = Wait \<and>
     (case stream_timeout c s st of (s1, st1) \<Rightarrow> phase (stream_check s1 st1) = Snapshot)"
proof -
  define c where "c = \<lparr>now = 1002000, millis = (\<lambda>t. of_nat t)\<rparr>"
  define c0 where "c0 = \<lparr>now = 1000000, millis = (\<lambda>t. of_nat t)\<rparr>"
  define s where "s = set_clock c0 8 0 default_scoreboard"
  define st where "st = \<lparr>seen = sends s, phase = Wait, docs = [status_of Hardware c0 s]\<rparr>"
  have "sb_inv s" using set_clock_op.keeps_inv [of "(8, 0)"] sb_inv_default by (simp add: s_def)
  moreover have "stream_inv Hardware s st" by (simp add: stream_inv_def st_def)
  moreover have "running s" "last_change s = Some 1000000"
    by (simp_all add: s_def set_clock_eq uart_running_def c0_def elapsed_ms_def default_scoreboard_def
        PERIOD_MIN_def)
  moreover have "elapsed_ms c 1000000 \<ge> 2000" by (simp add: elapsed_ms_def c_def)
  ultimately show ?thesis
    using stop_is_reported [of s Hardware st 1000000 c]
    by (intro exI [of _ c] exI [of _ s] exI [of _ st]) (auto simp: st_def split: prod.splits)
qed

section \<open>Requests that stop the firmware\<close>

text \<open>C40: the firmware panics on a request exactly when a portal handler (the page, an Apple probe, a
  path that no route takes) or the event stream has to log it and its User-Agent is longer than 28
  bytes, names none of the known agents, and has byte 28 inside a multi-byte character.  The
  control commands, the status document and the upload write no such line.\<close>

theorem request_log_panics:
  "(portal_call with_ota segs c p parts m path = Some panic \<longleftrightarrow> portal_answers with_ota segs m path \<and> log_cuts parts) \<and>
   (events_service n s p parts = panic \<longleftrightarrow> log_cuts parts)"
  by (simp add: portal_call_panics events_service_def log_http_then)

lemma request_log_panics_example:
  "portal_call True segs c p \<lparr>rq_method = ''GET'', rq_path = ascii ''/'',
     rq_headers = hs(''User-Agent'' \<mapsto> utf8 (replicate 27 97 @ [0xE9]))\<rparr> Get ''/'' = Some panic"
  by (simp add: portal_call_panics cut_example hdr_def portal_answers_def route_def routes_def)

end
