(* ===== verification/System.thy ===== *)
theory System
  imports Board_Correct Events
begin

text \<open>
  The running firmware as one transition system: the shared scoreboard, the command channel,
  \<open>board_task\<close> at whatever point of its current command it is, the effects it has had, and the
  open event streams.  A step is one critical section, one channel operation or one effect, of
  any task, at any time; the clock each section reads is arbitrary.
\<close>

section \<open>Model\<close>

record system =
  sb :: scoreboard
  prog :: board_prog
  queue :: "command list"
  trace :: "effect list"
  streams :: "stream list"

definition boot :: system where
  "boot = \<lparr>sb = default_scoreboard, prog = Done init_locals, queue = [], trace = [], streams = []\<rparr>"

text \<open>\<open>Channel<Cs, Command, 8>\<close>.\<close>

definition CHANNEL_CAPACITY :: nat where "CHANNEL_CAPACITY = 8"

text \<open>The UART reader runs in the hardware build, the timer task in the simulate build.\<close>

fun task_runs :: "build \<Rightarrow> task_call \<Rightarrow> bool" where
  "task_runs b (Uart_packet pkt) \<longleftrightarrow> b = Hardware"
| "task_runs b Refresh \<longleftrightarrow> True"
| "task_runs b Timer_tick \<longleftrightarrow> b = Simulate"

inductive sys_step :: "build \<Rightarrow> system \<Rightarrow> system \<Rightarrow> bool" for b where
  post: "length (queue S) < CHANNEL_CAPACITY \<Longrightarrow> sys_step b S (S\<lparr>queue := queue S @ [cmd]\<rparr>)"
| recv: "prog S = Done l \<Longrightarrow> queue S = cmd # cmds \<Longrightarrow>
    sys_step b S (S\<lparr>prog := iteration b (Some cmd) l, queue := cmds\<rparr>)"
| poll: "prog S = Done l \<Longrightarrow> queue S = [] \<Longrightarrow> has_pending l \<Longrightarrow>
    sys_step b S (S\<lparr>prog := iteration b None l\<rparr>)"
| emit: "prog S = Emit e p \<Longrightarrow> sys_step b S (S\<lparr>prog := p, trace := trace S @ [e]\<rparr>)"
| lock: "prog S = Lock f g \<Longrightarrow> sys_step b S (S\<lparr>sb := f c (sb S), prog := g c (sb S)\<rparr>)"
| task: "task_runs b a \<Longrightarrow> sys_step b S (S\<lparr>sb := task_op a c (sb S)\<rparr>)"
| connect: "open_stream (length (streams S)) (sb S) = Some st \<Longrightarrow>
    sys_step b S (S\<lparr>streams := streams S @ [st]\<rparr>)"
| snapshot: "streams S = xs @ st # ys \<Longrightarrow> phase st = Snapshot \<Longrightarrow>
    write_snapshot b c (sb S) st = (s', st') \<Longrightarrow>
    sys_step b S (S\<lparr>sb := s', streams := xs @ st' # ys\<rparr>)"
| changed: "streams S = xs @ st # ys \<Longrightarrow> phase st = Wait \<Longrightarrow> stream_changed (sb S) st = Some st' \<Longrightarrow>
    sys_step b S (S\<lparr>streams := xs @ st' # ys\<rparr>)"
| timeout: "streams S = xs @ st # ys \<Longrightarrow> phase st = Wait \<Longrightarrow>
    stream_timeout c (sb S) st = (s', st') \<Longrightarrow>
    sys_step b S (S\<lparr>sb := s', streams := xs @ st' # ys\<rparr>)"
| check: "streams S = xs @ st # ys \<Longrightarrow> phase st = Check \<Longrightarrow>
    sys_step b S (S\<lparr>streams := xs @ stream_check (sb S) st # ys\<rparr>)"
| close: "streams S = xs @ st # ys \<Longrightarrow> sys_step b S (S\<lparr>streams := xs @ ys\<rparr>)"

inductive reachable :: "build \<Rightarrow> system \<Rightarrow> bool" for b where
  start: "reachable b boot"
| step: "reachable b S \<Longrightarrow> sys_step b S S' \<Longrightarrow> reachable b S'"

inductive_cases sys_stepE: "sys_step b S S'"

section \<open>Refining the system\<close>

text \<open>
  A concrete system whose every step, seen through \<open>abs\<close>, leads from reachable abstract states to
  reachable abstract states.
\<close>

locale refinement =
  fixes start :: 'c and cstep :: "'c \<Rightarrow> 'c \<Rightarrow> bool" and abs :: "'c \<Rightarrow> 'a" and areach :: "'a \<Rightarrow> bool"
  assumes abs_start: "areach (abs start)"
    and abs_step: "areach (abs x) \<Longrightarrow> cstep x y \<Longrightarrow> areach (abs y)"
begin

lemma reaches: "cstep\<^sup>*\<^sup>* start x \<Longrightarrow> areach (abs x)"
  by (induction rule: rtranclp_induct) (auto intro: abs_start abs_step)

lemma inherits: "(\<And>a. areach a \<Longrightarrow> P a) \<Longrightarrow> cstep\<^sup>*\<^sup>* start x \<Longrightarrow> P (abs x)"
  using reaches by blast

end

section \<open>Invariant\<close>

definition sys_inv :: "build \<Rightarrow> system \<Rightarrow> bool" where
  "sys_inv b S \<longleftrightarrow> sb_inv (sb S) \<and> prog_ok (prog S) \<and>
     mirrors (prog S) (replay (trace S) (0, 0)) (home (sb S)) (away (sb S)) \<and>
     length (queue S) \<le> CHANNEL_CAPACITY \<and> length (streams S) \<le> MAX_EVENT_STREAMS \<and>
     list_all (stream_inv b (sb S)) (streams S)"

lemma streams_env:
  "list_all (stream_inv b s) sts \<Longrightarrow> signalled s s' \<Longrightarrow> list_all (stream_inv b s') sts"
  by (auto simp: list_all_iff intro: stream_inv_env)

lemma write_snapshot_sb: "write_snapshot b c s st = (s', st') \<Longrightarrow> s' = refresh_running c s"
  by (simp add: write_snapshot_def Let_def)

lemma stream_timeout_sb: "stream_timeout c s st = (s', st') \<Longrightarrow> s' = refresh_running c s"
  by (simp add: stream_timeout_def)

lemma sys_inv_boot: "sys_inv b boot"
  by (simp add: sys_inv_def boot_def sb_inv_default locals_inv_init)
    (simp add: default_scoreboard_def)

lemma sys_inv_lock:
  assumes "sys_inv b S" "prog S = Lock f g"
  shows "sys_inv b (S\<lparr>sb := f c (sb S), prog := g c (sb S)\<rparr>)"
proof -
  have "sb_inv (sb S)" "prog_ok (Lock f g)" using assms by (auto simp: sys_inv_def)
  then have "sb_inv (f c (sb S))" "signalled (sb S) (f c (sb S))" "prog_ok (g c (sb S))" by auto
  with assms show ?thesis by (auto simp: sys_inv_def intro: streams_env)
qed

lemma sys_inv_board:
  assumes "sys_inv b S" "prog S = Done l"
  shows "prog_ok (iteration b r l)"
    and "mirrors (iteration b r l) (replay (trace S) (0, 0)) (home (sb S)) (away (sb S))"
  using assms iteration_ok [of l b r] iteration_mirrors [of l b r] by (auto simp: sys_inv_def)

text \<open>A section of another task, and a step of one stream.\<close>

lemma sys_inv_sb:
  assumes "sys_inv b S" "sb_inv s'" "signalled (sb S) s'" "home s' = home (sb S)" "away s' = away (sb S)"
  shows "sys_inv b (S\<lparr>sb := s'\<rparr>)"
  using assms(1,2,4,5) streams_env [OF _ assms(3), of b "streams S"] by (simp add: sys_inv_def)

lemma sys_inv_stream:
  assumes "sys_inv b S" "streams S = xs @ st # ys" "stream_inv b (sb S) st'"
  shows "sys_inv b (S\<lparr>streams := xs @ st' # ys\<rparr>)"
  using assms by (simp add: sys_inv_def)

lemma sys_inv_refresh:
  assumes "sys_inv b S"
  shows "sys_inv b (S\<lparr>sb := refresh_running c (sb S)\<rparr>)"
proof (rule sys_inv_sb [OF assms])
  have "sb_inv (sb S)" using assms by (simp add: sys_inv_def)
  then show "sb_inv (refresh_running c (sb S))" "signalled (sb S) (refresh_running c (sb S))"
    by (simp_all add: sb_inv_refresh_running signalled_refresh_running)
qed simp_all

lemma sys_inv_refresh_stream:
  assumes "sys_inv b S" "streams S = xs @ st # ys" "stream_inv b (refresh_running c (sb S)) st'"
  shows "sys_inv b (S\<lparr>sb := refresh_running c (sb S), streams := xs @ st' # ys\<rparr>)"
  using sys_inv_stream [OF sys_inv_refresh [OF assms(1), of c], of xs st ys st'] assms(2,3) by simp

lemma sys_inv_parts:
  assumes "sys_inv b S"
  shows "sb_inv (sb S)" "streams S = xs @ st # ys \<Longrightarrow> stream_inv b (sb S) st"
  using assms by (simp_all add: sys_inv_def)

lemma sys_inv_step:
  assumes "sys_step b S S'" "sys_inv b S"
  shows "sys_inv b S'"
  using assms
proof (induction rule: sys_step.induct)
  case (lock S f g c)
  then show ?case by (intro sys_inv_lock)
next
  case (task a S c)
  then show ?case
    by (intro sys_inv_sb) (simp_all add: sys_inv_def tasks_op.keeps_inv tasks_op.signals)
next
  case (snapshot S xs st ys c s' st')
  note inv = sys_inv_parts [OF snapshot.prems]
  have s: "s' = refresh_running c (sb S)" using snapshot.hyps(3) by (rule write_snapshot_sb)
  with stream_inv_snapshot [OF inv(2) inv(1) snapshot.hyps(3)] snapshot show ?case
    by (simp add: sys_inv_refresh_stream)
next
  case (timeout S xs st ys c s' st')
  note inv = sys_inv_parts [OF timeout.prems]
  have s: "s' = refresh_running c (sb S)" using timeout.hyps(3) by (rule stream_timeout_sb)
  with stream_inv_timeout [OF inv(2) inv(1) timeout.hyps(2,3)] timeout show ?case
    by (simp add: sys_inv_refresh_stream)
next
  case (changed S xs st ys st')
  with stream_inv_changed [OF changed.hyps(3)] show ?case by (simp add: sys_inv_stream)
next
  case (check S xs st ys)
  with stream_inv_check [OF sys_inv_parts(2)] show ?case by (simp add: sys_inv_stream)
next
  case (connect S st)
  then have "stream_inv b (sb S) st" "length (streams S) < MAX_EVENT_STREAMS"
    by (auto intro: stream_inv_open simp: open_stream_def split: if_splits)
  with connect show ?case by (simp add: sys_inv_def)
next
  case (recv S l cmd cmds)
  note sys_inv_board [OF recv.prems recv.hyps(1), of "Some cmd"]
  with recv.prems recv.hyps(2) show ?case by (simp add: sys_inv_def)
next
  case (poll S l)
  note sys_inv_board [OF poll.prems poll.hyps(1), of None]
  with poll.prems show ?case by (simp add: sys_inv_def)
next
  case (close S xs st ys)
  then show ?case by (simp add: sys_inv_def)
next
  case (emit S e p)
  then show ?case by (simp add: sys_inv_def)
next
  case (post S cmd)
  then show ?case by (simp add: sys_inv_def)
qed

lemma reachable_inv: "reachable b S \<Longrightarrow> sys_inv b S"
  by (induction rule: reachable.induct) (auto intro: sys_inv_boot sys_inv_step)

section \<open>The hardware clock belongs to the UART\<close>

text \<open>
  The time and the moment it changed are as before, and the run flag is as before or what the
  age of the time says.
\<close>

definition follows_uart :: "scoreboard \<Rightarrow> scoreboard \<Rightarrow> bool" where
  "follows_uart s s' \<longleftrightarrow> minutes s' = minutes s \<and> seconds s' = seconds s \<and>
     last_change s' = last_change s \<and>
     (running s' = running s \<or> (\<exists>c. running s' = uart_running c s'))"

lemma follows_uart_refl: "follows_uart s s"
  by (simp add: follows_uart_def)

lemma follows_uart_refresh: "follows_uart s (refresh_running c s)"
  by (auto simp: follows_uart_def uart_running_def)

lemma follows_uart_start_stop: "follows_uart s (snd (start_stop_pulse_for c want s))"
proof -
  have "uart_running c (snd (start_stop_pulse_for c want s)) = uart_running c s"
    by (simp add: start_stop_pulse_for_state uart_running_def)
  then show ?thesis by (auto simp: follows_uart_def start_stop_pulse_for_state)
qed

lemma follows_uart_fields:
  "minutes s' = minutes s \<Longrightarrow> seconds s' = seconds s \<Longrightarrow> last_change s' = last_change s \<Longrightarrow>
   running s' = running s \<Longrightarrow> follows_uart s s'"
  by (simp add: follows_uart_def)

lemmas follows_uart_intros =
  follows_uart_refl follows_uart_refresh follows_uart_start_stop follows_uart_fields

primrec hands_off :: "board_prog \<Rightarrow> bool" where
  "hands_off (Done l) \<longleftrightarrow> True"
| "hands_off (Emit e p) \<longleftrightarrow> hands_off p"
| "hands_off (Lock f g) \<longleftrightarrow> (\<forall>c s. follows_uart s (f c s) \<and> hands_off (g c s))"

lemma hands_off_pulse [simp]: "hands_off (pulse p k) = hands_off k"
  by (simp add: pulse_def)

lemma hands_off_blink [simp]: "hands_off (blink_onboard h k) = hands_off k"
  by (simp add: blink_onboard_def)

lemma hands_off_min_sec [simp]: "hands_off (min_sec_pulse l)"
  by (simp add: min_sec_pulse_def)

lemma hands_off_iteration: "hands_off (iteration Hardware r l)"
proof (cases r)
  case None
  then show ?thesis
    by (auto simp: iteration_def pending_step_def intro: follows_uart_intros)
next
  case (Some cmd)
  then show ?thesis
    by (cases cmd)
      (auto simp: iteration_def handle_led_def handle_start_stop_def handle_home_inc_def
        handle_home_dec_def handle_away_inc_def handle_away_dec_def handle_scores_zero_def
        handle_reset_def handle_set_timer_def handle_aux_def Let_def intro: follows_uart_intros)
qed

lemma hands_off_step: "sys_step Hardware S S' \<Longrightarrow> hands_off (prog S) \<Longrightarrow> hands_off (prog S')"
  by (induction rule: sys_step.induct) (simp_all add: hands_off_iteration)

lemma hands_off_reachable: "reachable Hardware S \<Longrightarrow> hands_off (prog S)"
  by (induction rule: reachable.induct) (simp add: boot_def, rule hands_off_step)

section \<open>Running board_task alone\<close>

text \<open>Executing the current program to its end is a run of the system.\<close>

lemma reachable_exec:
  "reachable b S \<Longrightarrow> prog S = p \<Longrightarrow> exec p (\<lambda>k s. (c, s)) n (sb S) = (s', l, n', es) \<Longrightarrow>
   reachable b (S\<lparr>sb := s', prog := Done l, trace := trace S @ es\<rparr>)"
proof (induction p arbitrary: S n es)
  case (Done l')
  then show ?case by (cases S) auto
next
  case (Emit e p)
  obtain fs where fs: "exec p (\<lambda>k s. (c, s)) n (sb S) = (s', l, n', fs)" "es = e # fs"
    using Emit.prems(3) by (auto split: prod.splits)
  have "reachable b (S\<lparr>prog := p, trace := trace S @ [e]\<rparr>)"
    by (rule reachable.step [OF Emit.prems(1) emit [OF Emit.prems(2)]])
  from Emit.IH [OF this] fs show ?case by simp
next
  case (Lock f g)
  have "reachable b (S\<lparr>sb := f c (sb S), prog := g c (sb S)\<rparr>)"
    by (rule reachable.step [OF Lock.prems(1) lock [OF Lock.prems(2)]])
  from Lock.IH [OF rangeI [of g c] rangeI [of "g c" "sb S"] this] Lock.prems(3) show ?case by simp
qed

lemma reachable_command:
  assumes "reachable b S" "prog S = Done l0" "queue S = []"
    and "exec (handle b cmd l0) (\<lambda>k s. (c, s)) 0 (sb S) = (s', l, n', es)"
  shows "reachable b (S\<lparr>sb := s', prog := Done l, queue := [], trace := trace S @ es\<rparr>)"
proof -
  have "reachable b (S\<lparr>queue := [cmd]\<rparr>)"
    using reachable.step [OF assms(1) post [of S b cmd]] assms(3) by (simp add: CHANNEL_CAPACITY_def)
  from reachable.step [OF this recv [of _ l0 cmd "[]"]] assms(2)
  have "reachable b (S\<lparr>prog := handle b cmd l0, queue := []\<rparr>)" by (simp add: iteration_def)
  from reachable_exec [OF this _, of "handle b cmd l0"] assms(4)
  have "reachable b (S\<lparr>prog := handle b cmd l0, queue := [], sb := s', prog := Done l,
      trace := trace S @ es\<rparr>)" by simp
  then show ?thesis by (cases S) simp
qed

definition some_clock :: clock where
  "some_clock = \<lparr>now = 60000000, millis = (\<lambda>t. of_nat (t div 1000))\<rparr>"

section \<open>Properties\<close>



text \<open>At every moment board_task is between two commands, the score pulses sent since boot
  have put the physical scoreboard on the stored scores, whatever is queued or connected.\<close>

lemma idle_scores_mirror:
  assumes "reachable b S" "prog S = Done l"
  shows "replay (trace S) (0, 0) = (uint (home (sb S)), uint (away (sb S)))"
  using reachable_inv [OF assms(1)] assms(2) by (simp add: sys_inv_def)

lemma idle_scores_mirror_witness:
  "\<exists>S l. reachable Hardware S \<and> prog S = Done l \<and> home (sb S) = 1 \<and>
     replay (trace S) (0, 0) = (uint (home (sb S)), uint (away (sb S)))"
proof -
  obtain s' l n' es where e:
    "exec (handle Hardware HomeInc init_locals) (\<lambda>k s. (some_clock, s)) 0 (sb boot) = (s', l, n', es)"
    by (metis prod_cases4)
  have r: "reachable Hardware (boot\<lparr>sb := s', prog := Done l, queue := [], trace := trace boot @ es\<rparr>)"
    (is "reachable _ ?S") by (rule reachable_command [OF reachable.start _ _ e]) (simp_all add: boot_def)
  have "home s' = 1"
    using e by (auto simp: boot_def handle_home_inc_def SCORE_MAX_def default_scoreboard_def Let_def
        init_locals_def exec_pulse blink_onboard_def split: prod.splits)
  with r idle_scores_mirror [OF r] show ?thesis by (intro exI [of _ ?S] exI [of _ l]) simp
qed

text \<open>C3: no lost update: a stream that waits has a signal to wake it, or the last document it
  wrote shows the time, run flag, scores and LED as they are.\<close>

theorem stream_up_to_date:
  assumes "reachable b S" "st \<in> set (streams S)" "phase st = Wait"
  shows "stream_changed (sb S) st \<noteq> None \<or>
    (\<exists>d ds. docs st = d # ds \<and> st_time d = time_str (minutes (sb S)) (seconds (sb S)) \<and>
       st_running d = running (sb S) \<and> st_home d = home (sb S) \<and> st_away d = away (sb S) \<and>
       st_led d = led (sb S))"
proof -
  have "stream_inv b (sb S) st"
    using reachable_inv [OF assms(1)] assms(2) by (auto simp: sys_inv_def list_all_iff)
  with assms(3) show ?thesis
    by (auto simp: stream_inv_def stream_changed_def doc_shows_def visible_of_def)
qed

theorem stream_up_to_date_witness:
  "\<exists>S st. reachable Hardware S \<and> st \<in> set (streams S) \<and> phase st = Wait \<and>
     (stream_changed (sb S) st \<noteq> None \<or>
      (\<exists>d ds. docs st = d # ds \<and> st_time d = time_str (minutes (sb S)) (seconds (sb S)) \<and>
         st_running d = running (sb S) \<and> st_home d = home (sb S) \<and> st_away d = away (sb S) \<and>
         st_led d = led (sb S)))"
proof -
  define st0 where "st0 = \<lparr>seen = sends (sb boot), phase = Snapshot, docs = []\<rparr>"
  have "open_stream (length (streams boot)) (sb boot) = Some st0"
    by (simp add: open_stream_def boot_def MAX_EVENT_STREAMS_def st0_def)
  from reachable.step [OF reachable.start connect [OF this]]
  have 1: "reachable Hardware (boot\<lparr>streams := [st0]\<rparr>)" by (simp add: boot_def)
  obtain s' st' where w: "write_snapshot Hardware some_clock (sb boot) st0 = (s', st')" by force
  from reachable.step [OF 1 snapshot [where xs = "[]" and ys = "[]" and st = st0 and st' = st'
        and s' = s' and c = some_clock]] w
  have 2: "reachable Hardware (boot\<lparr>sb := s', streams := [st']\<rparr>)" (is "reachable _ ?S")
    by (simp add: st0_def)
  have "st' \<in> set (streams ?S)" "phase st' = Wait"
    using w by (auto simp: write_snapshot_def Let_def)
  with 2 stream_up_to_date [OF 2] show ?thesis by blast
qed

end
