(* ===== verification/Run_State.thy ===== *)
theory Run_State
  imports Board_Correct
begin

text \<open>
  Start, stop and the clock.  GP1 is a toggle and the UART confirms it late, so the
  firmware keeps a pending request (\<open>start_stop_pulse_for\<close>); setting the clock is a train
  of min/sec pulses that must not run against a ticking clock.  The last section is the
  software clock of the simulate build.
\<close>

section \<open>Effective run state\<close>

lemma uart_running_cong:
  "minutes s' = minutes s \<Longrightarrow> seconds s' = seconds s \<Longrightarrow> last_change s' = last_change s \<Longrightarrow>
   uart_running c s' = uart_running c s"
  by (simp add: uart_running_def)

lemma effective_running_eq:
  "effective_running c s \<longleftrightarrow>
     (if pending_running s = Some (\<not> uart_running c s) \<and> pending_age_ms c s < 2000
      then \<not> uart_running c s else uart_running c s)"
  by (auto simp: effective_running_def pending_running_refresh_running resolve_pending_running_def
      decode_consts split: option.splits)

text \<open>C6: a pulse is sent exactly when the request differs from what the clock is believed
  to do: a request made less than 2 s ago that the UART has not confirmed, else the UART.\<close>

theorem start_stop_pulse_decision:
  "fst (start_stop_pulse_for c want s) \<longleftrightarrow>
     want \<noteq> Some (if pending_running s = Some (\<not> uart_running c s) \<and> pending_age_ms c s < 2000
                   then \<not> uart_running c s else uart_running c s)"
  by (simp add: start_stop_pulse_for_pulses effective_running_eq)

section \<open>A repeated request\<close>

text \<open>\<open>unconfirmed w xs s\<close>: after none of the operations does the UART flag read \<open>w\<close>.\<close>

fun unconfirmed :: "bool \<Rightarrow> (task_call \<times> clock) list \<Rightarrow> scoreboard \<Rightarrow> bool" where
  "unconfirmed w [] s \<longleftrightarrow> True"
| "unconfirmed w ((a, d) # xs) s \<longleftrightarrow>
     running (task_op a d s) \<noteq> w \<and> unconfirmed w xs (task_op a d s)"

definition pends :: "bool \<Rightarrow> instant \<Rightarrow> scoreboard \<Rightarrow> bool" where
  "pends w t s \<longleftrightarrow> pending_running s = Some w \<and> pending_at s = Some t"

lemma refresh_keeps_pending:
  "pends w t s \<Longrightarrow> elapsed_ms d t < 2000 \<Longrightarrow> running (refresh_running d s) \<noteq> w \<Longrightarrow>
   pends w t (refresh_running d s)"
  by (simp add: pends_def pending_running_refresh_running pending_at_refresh_running
      resolve_pending_running_def pending_age_ms_def decode_consts)

lemma refresh_after_change_keeps_pending:
  "pends w t s \<Longrightarrow> elapsed_ms d t < 2000 \<Longrightarrow>
   running (refresh_running d (s\<lparr>last_change := l\<rparr>)) \<noteq> w \<Longrightarrow>
   pends w t (refresh_running d (s\<lparr>last_change := l\<rparr>))"
  by (rule refresh_keeps_pending) (auto simp: pends_def)

lemma set_clock_keeps_pending:
  "pends w t s \<Longrightarrow> elapsed_ms d t < 2000 \<Longrightarrow> running (set_clock d m sec s) \<noteq> w \<Longrightarrow>
   pends w t (set_clock d m sec s)"
  unfolding set_clock_eq by (rule refresh_keeps_pending) (auto simp: pends_def)

lemma task_op_keeps_pending:
  "pends w t s \<Longrightarrow> elapsed_ms d t < 2000 \<Longrightarrow> running (task_op a d s) \<noteq> w \<Longrightarrow>
   pends w t (task_op a d s)"
  using refresh_keeps_pending set_clock_keeps_pending refresh_after_change_keeps_pending
  by (cases a) (auto simp: timer_tick_def Let_def split: option.splits if_splits)

lemma tasks_keep_pending:
  "pends w t s \<Longrightarrow> \<forall>(a, d) \<in> set xs. elapsed_ms d t < 2000 \<Longrightarrow> unconfirmed w xs s \<Longrightarrow>
   pends w t (fold (\<lambda>(a, d). task_op a d) xs s)"
proof (induction xs arbitrary: s)
  case (Cons x xs)
  obtain a d where x: "x = (a, d)" by force
  with Cons.prems have "pends w t (task_op a d s)"
    by (intro task_op_keeps_pending) auto
  with Cons x show ?case by auto
qed simp

text \<open>C15: once a request was pulsed, the same request is not pulsed again while the UART has
  not confirmed it and 2 s have not passed, whatever frames and refreshes come in between.\<close>

theorem duplicate_request_no_pulse:
  assumes pulsed: "fst (start_stop_pulse_for c (Some w) s)"
    and recent: "\<forall>(a, d) \<in> set xs. elapsed_ms d (now c) < 2000"
    and unconf: "unconfirmed w xs (snd (start_stop_pulse_for c (Some w) s))"
    and again: "elapsed_ms c' (now c) < 2000"
  shows "\<not> fst (start_stop_pulse_for c' (Some w)
           (fold (\<lambda>(a, d). task_op a d) xs (snd (start_stop_pulse_for c (Some w) s))))"
proof -
  let ?s = "snd (start_stop_pulse_for c (Some w) s)"
  have "pends w (now c) ?s"
    using pulsed by (simp add: pends_def start_stop_pulse_for_pulses start_stop_pulse_for_state)
  from tasks_keep_pending [OF this recent unconf] again show ?thesis
    by (auto simp: pends_def start_stop_pulse_for_pulses effective_running_eq pending_age_ms_def)
qed

theorem duplicate_request_no_pulse_witness:
  "\<exists>c c' s xs. xs \<noteq> [] \<and> fst (start_stop_pulse_for c (Some True) s) \<and>
     \<not> fst (start_stop_pulse_for c' (Some True)
        (fold (\<lambda>(a, d). task_op a d) xs (snd (start_stop_pulse_for c (Some True) s))))"
proof -
  define ms :: "nat \<Rightarrow> u64" where "ms = (\<lambda>t. of_nat (t div 1000))"
  define c where "c = \<lparr>now = 5000000, millis = ms\<rparr>"
  define d where "d = \<lparr>now = 5500000, millis = ms\<rparr>"
  have p: "fst (start_stop_pulse_for c (Some True) default_scoreboard)"
    by (simp add: start_stop_pulse_decision uart_running_def default_scoreboard_def)
  have "\<not> fst (start_stop_pulse_for d (Some True)
      (fold (\<lambda>(a, d). task_op a d) [(Refresh, d)]
        (snd (start_stop_pulse_for c (Some True) default_scoreboard))))"
  proof (rule duplicate_request_no_pulse [OF p])
    show "\<forall>(a, d) \<in> set [(Refresh, d)]. elapsed_ms d (now c) < 2000"
      by (simp add: elapsed_ms_def c_def d_def ms_def)
    show "elapsed_ms d (now c) < 2000"
      by (simp add: elapsed_ms_def c_def d_def ms_def)
    show "unconfirmed True [(Refresh, d)] (snd (start_stop_pulse_for c (Some True) default_scoreboard))"
      by (simp add: start_stop_pulse_for_state uart_running_def default_scoreboard_def)
  qed
  with p show ?thesis by blast
qed

section \<open>Setting the clock\<close>

text \<open>What the min/sec buttons do to the displayed time, one unit per pulse.\<close>

fun display_effect :: "effect \<Rightarrow> int \<times> int \<Rightarrow> int \<times> int" where
  "display_effect (SetHigh Io_min_inc) (m, s) = (m + 1, s)"
| "display_effect (SetHigh Io_min_dec) (m, s) = (m - 1, s)"
| "display_effect (SetHigh Io_sec_inc) (m, s) = (m, s + 1)"
| "display_effect (SetHigh Io_sec_dec) (m, s) = (m, s - 1)"
| "display_effect _ x = x"

definition display :: "effect list \<Rightarrow> int \<times> int \<Rightarrow> int \<times> int" where
  "display es x = fold display_effect es x"

lemma display_simps [simp]:
  "display [] x = x" "display (e # es) x = display es (display_effect e x)"
  "display (es @ fs) x = display fs (display es x)"
  by (simp_all add: display_def)

text \<open>The state other tasks leave while the display stands still and no request is pending.\<close>

definition frozen :: "scoreboard \<Rightarrow> scoreboard \<Rightarrow> bool" where
  "frozen s0 s \<longleftrightarrow> minutes s = minutes s0 \<and> seconds s = seconds s0 \<and>
     last_change s = last_change s0 \<and> pending_running s = None"

lemma frozen_uart_running: "frozen s0 s \<Longrightarrow> uart_running c s = uart_running c s0"
  by (rule uart_running_cong) (simp_all add: frozen_def)

lemma frozen_refresh: "frozen s0 s \<Longrightarrow> frozen s0 (refresh_running c s)"
  by (simp add: frozen_def pending_running_refresh_running)

lemma stop_request_when_stopped:
  assumes "frozen s0 s" "\<not> uart_running c s0"
  shows "start_stop_pulse_for c (Some False) s = (False, refresh_running c s)"
proof -
  have "\<not> effective_running c s"
    using assms by (auto simp: effective_running_eq frozen_uart_running frozen_def)
  then have "\<not> fst (start_stop_pulse_for c (Some False) s)"
    "snd (start_stop_pulse_for c (Some False) s) = refresh_running c s"
    by (simp_all add: start_stop_pulse_for_pulses start_stop_pulse_for_state)
  then show ?thesis by (simp add: prod_eq_iff)
qed

definition train_left :: "locals \<Rightarrow> nat" where
  "train_left l = nat \<bar>pending_min l\<bar> + nat \<bar>pending_sec l\<bar>"

definition no_score_pulses :: "locals \<Rightarrow> bool" where
  "no_score_pulses l \<longleftrightarrow> pending_home_dec l = 0 \<and> pending_away_dec l = 0"

text \<open>One pulse: the display moves by what the locals say is left, and less is left.\<close>

definition time_pins :: "pin set" where
  "time_pins = {Io_min_inc, Io_min_dec, Io_sec_inc, Io_sec_dec}"

definition pressed :: "effect list \<Rightarrow> pin set" where
  "pressed es = {p. SetHigh p \<in> set es}"

text \<open>The start/stop pulses among the effects.\<close>

definition toggles :: "effect list \<Rightarrow> nat" where
  "toggles es = count_list es (SetHigh Io_start)"

lemma pressed_simps [simp]:
  "pressed [] = {}" "pressed (SetHigh p # es) = insert p (pressed es)"
  "pressed (SetLow p # es) = pressed es" "pressed (AfterMillis n # es) = pressed es"
  "pressed (es @ fs) = pressed es \<union> pressed fs"
  by (auto simp: pressed_def)

lemma toggles_simps [simp]:
  "toggles [] = 0" "toggles (e # es) = (if e = SetHigh Io_start then Suc (toggles es) else toggles es)"
  "toggles (es @ fs) = toggles es + toggles fs"
  by (simp_all add: toggles_def)

lemma exec_min_sec_pulse:
  assumes "exec (min_sec_pulse l) env k s = (s', l', k', es)" "no_score_pulses l"
  shows "s' = s \<and> no_score_pulses l' \<and> train_left l' = train_left l - 1 \<and>
     display es (m - pending_min l, sec - pending_sec l) = (m - pending_min l', sec - pending_sec l') \<and>
     pressed es \<subseteq> time_pins \<and> toggles es = 0"
  using assms
  by (auto simp: min_sec_pulse_def exec_pulse train_left_def no_score_pulses_def time_pins_def split: if_splits)

text \<open>
  One round of the train, whatever the other tasks and the clock do: a min/sec pulse, or a
  start/stop pulse that leaves the train as it is.
\<close>

lemma train_round:
  assumes "no_score_pulses l" "exec (iteration Hardware None l) env k s = (s', l', k', es)"
  shows "no_score_pulses l' \<and> train_left l' = train_left l - (1 - toggles es) \<and> toggles es \<le> 1 \<and>
     display es (m - pending_min l, sec - pending_sec l) = (m - pending_min l', sec - pending_sec l') \<and>
     pressed es \<subseteq> insert Io_start time_pins"
proof (cases "pending_min l = 0 \<and> pending_sec l = 0")
  case True
  with assms show ?thesis
    by (auto simp: iteration_def pending_step_def no_score_pulses_def train_left_def)
next
  case False
  obtain c s1 where e: "env k s = (c, s1)" by force
  show ?thesis
  proof (cases "fst (start_stop_pulse_for c (Some False) s1)")
    case True
    with assms False e show ?thesis
      by (auto simp: iteration_def pending_step_def no_score_pulses_def exec_pulse)
  next
    case nopulse: False
    with assms False e have "exec (min_sec_pulse l) env (Suc k)
        (snd (start_stop_pulse_for c (Some False) s1)) = (s', l', k', es)"
      by (simp add: iteration_def pending_step_def no_score_pulses_def)
    from exec_min_sec_pulse [OF this assms(1)] show ?thesis by auto
  qed
qed

lemma run_train:
  "no_score_pulses l \<Longrightarrow> run_board Hardware (replicate n None) l env k s = (s', l', k', es) \<Longrightarrow>
    no_score_pulses l' \<and> train_left l' = train_left l - (n - toggles es) \<and> toggles es \<le> n \<and>
    display es (m - pending_min l, sec - pending_sec l) = (m - pending_min l', sec - pending_sec l') \<and>
    pressed es \<subseteq> insert Io_start time_pins"
proof (induction n arbitrary: s l k es)
  case (Suc n)
  obtain s1 l1 k1 es1 where 1: "exec (iteration Hardware None l) env k s = (s1, l1, k1, es1)"
    by (metis prod_cases4)
  obtain es2 where 2: "es = es1 @ es2"
    "run_board Hardware (replicate n None) l1 env k1 s1 = (s', l', k', es2)"
    using Suc.prems(2) 1 by (auto split: prod.splits)
  from train_round [OF Suc.prems(1) 1, of m sec] Suc.IH [OF _ 2(2)] 2(1)
  show ?case by auto
qed simp

lemma train_left_0: "train_left l = 0 \<longleftrightarrow> pending_min l = 0 \<and> pending_sec l = 0"
  by (auto simp: train_left_def)

text \<open>The state in which the handler of set-timer reads the time, after its own stop request.\<close>

definition timer_base :: "environment \<Rightarrow> nat \<Rightarrow> scoreboard \<Rightarrow> scoreboard" where
  "timer_base env k s = snd (env (Suc k)
     (snd (start_stop_pulse_for (fst (env k s)) (Some False) (snd (env k s)))))"

lemma exec_set_timer:
  "\<exists>s1 k1 es. exec (handle Hardware (SetTimer m sec) l) env k s =
    (s1, l\<lparr>pending_min := uint (min m 99) - uint (minutes (timer_base env k s)),
           pending_sec := uint (min sec 59) - uint (seconds (timer_base env k s))\<rparr>, k1, es) \<and>
    es \<in> {[], [SetHigh Io_start, AfterMillis PULSE_MS, SetLow Io_start]}"
  by (auto simp: handle_set_timer_def Let_def timer_base_def exec_pulse split: prod.split)

lemma timer_base_inv: "sb_inv s \<Longrightarrow> sb_inv (timer_base (other_tasks sched clk) k s)"
  by (simp add: timer_base_def tasks.env_inv start_stop_pulse_for_inv)

text \<open>How many min/sec pulses lead from the time shown by \<open>t\<close> to the (clamped) target.\<close>

definition pulses_to :: "scoreboard \<Rightarrow> u8 \<Rightarrow> u8 \<Rightarrow> nat" where
  "pulses_to t m sec = nat \<bar>uint (min m 99) - uint (minutes t)\<bar> + nat \<bar>uint (min sec 59) - uint (seconds t)\<bar>"

text \<open>C8: whatever frames, refreshes and clock readings come in between, the min/sec pulses sent
  after a set-timer command and those still to send lead, together, from the time the handler read
  to the (clamped) target, one unit each.  Every round sends one of them or a start/stop pulse, so
  none is left once there were as many rounds as there are units, at most 158, and start/stop
  pulses.  No other button is pressed.\<close>

theorem set_timer_reaches_target:
  assumes "sb_inv s" "locals_inv l"
  shows "case run_board Hardware (Some (SetTimer m sec) # replicate n None) l
           (other_tasks sched clk) k s of
     (s', l', k', es) \<Rightarrow> let t = timer_base (other_tasks sched clk) k s in
       display es (uint (minutes t), uint (seconds t)) =
         (uint (min m 99) - pending_min l', uint (min sec 59) - pending_sec l') \<and>
       pulses_to t m sec \<le> 158 \<and>
       (pulses_to t m sec + toggles es \<le> n \<longrightarrow> \<not> has_pending l') \<and>
       pressed es \<subseteq> {Io_start, Io_min_inc, Io_min_dec, Io_sec_inc, Io_sec_dec}"
proof -
  let ?env = "other_tasks sched clk"
  let ?t = "timer_base ?env k s"
  let ?l = "l\<lparr>pending_min := uint (min m 99) - uint (minutes ?t),
    pending_sec := uint (min sec 59) - uint (seconds ?t)\<rparr>"
  obtain s1 k1 es1 where 1: "exec (handle Hardware (SetTimer m sec) l) ?env k s = (s1, ?l, k1, es1)"
    "es1 \<in> {[], [SetHigh Io_start, AfterMillis PULSE_MS, SetLow Io_start]}"
    using exec_set_timer [of m sec l ?env k s] by blast
  obtain s2 l2 k2 es where 2: "run_board Hardware (replicate n None) ?l ?env k1 s1 = (s2, l2, k2, es)"
    by (metis prod_cases4)
  have nsp: "no_score_pulses ?l" using assms(2) by (simp add: locals_inv_def no_score_pulses_def)
  note t = run_train [OF nsp 2, of "uint (min m 99)" "uint (min sec 59)"]
  have left: "train_left ?l = pulses_to ?t m sec" by (simp add: train_left_def pulses_to_def)
  have "nat \<bar>uint (min m 99) - uint (minutes ?t)\<bar> \<le> 99" "nat \<bar>uint (min sec 59) - uint (seconds ?t)\<bar> \<le> 59"
    using set_timer_deltas_bounded [OF timer_base_inv [OF assms(1)]] by (simp_all add: nat_le_iff)
  then have 158: "pulses_to ?t m sec \<le> 158" by (simp add: pulses_to_def)
  have "\<not> has_pending l2" if "pulses_to ?t m sec + toggles es \<le> n"
  proof -
    have "train_left l2 = 0" using that t left by simp
    with t show ?thesis by (simp add: train_left_0 no_score_pulses_def has_pending_def)
  qed
  with 1 2 158 t show ?thesis by (auto simp: iteration_def Let_def time_pins_def)
qed

text \<open>
  A frame that reports the effect of an earlier pulse.  The UART flag then reads running,
  although the scoreboard's clock stands still.
\<close>

lemma uart_running_after_change:
  assumes "(m, sec) \<noteq> (minutes s, seconds s)" "(m, sec) \<noteq> (0, 0)" "elapsed_ms c (now d) < 2000"
  shows "uart_running c (set_clock d m sec s)"
  using assms by (auto simp: set_clock_eq uart_running_def)

lemma refreshes_keep:
  "\<forall>(a, d) \<in> set xs. a = Refresh \<Longrightarrow> pending_running s = None \<Longrightarrow>
   let s' = fold (\<lambda>(a, d). task_op a d) xs s in
   pending_running s' = None \<and> (\<forall>c. uart_running c s' = uart_running c s)"
proof (induction xs arbitrary: s)
  case (Cons x xs)
  obtain d where x: "x = (Refresh, d)" using Cons.prems(1) by (cases x) auto
  have "pending_running (refresh_running d s) = None"
    using Cons.prems(2) by (simp add: pending_running_refresh_running)
  moreover have "uart_running c (refresh_running d s) = uart_running c s" for c
    by (rule uart_running_cong) simp_all
  ultimately show ?case using Cons.IH [of "refresh_running d s"] Cons.prems(1) x by simp
qed simp

lemma set_clock_keeps_no_pending:
  "pending_running s = None \<Longrightarrow> pending_running (set_clock d m sec s) = None"
  by (simp add: set_clock_eq pending_running_refresh_running)

lemma stop_pulse_when_running:
  "pending_running s = None \<Longrightarrow> uart_running c s \<Longrightarrow> fst (start_stop_pulse_for c (Some False) s)"
  by (auto simp: start_stop_pulse_for_pulses effective_running_eq)

text \<open>C30: a min/sec train is interrupted by a start/stop pulse if, with no start/stop request
  pending, a frame with a new time other than 00:00 came less than 2 s before the check and only
  refreshes of the run state came after it.  The pulses of the train cause such frames, so a
  clock that stood still is toggled, that is started.\<close>

theorem train_toggles_stopped_clock:
  assumes "no_score_pulses l" "pending_min l \<noteq> 0 \<or> pending_sec l \<noteq> 0"
    and sched: "sched k = xs @ (Uart_packet pkt, d) # ys" "\<forall>(a, d) \<in> set ys. a = Refresh"
    and before: "s1 = fold (\<lambda>(a, d). task_op a d) xs s" "pending_running s1 = None"
    and frame: "parse_clock_packet pkt = Some (m, sec)" "(m, sec) \<noteq> (minutes s1, seconds s1)" "(m, sec) \<noteq> (0, 0)"
    and recent: "elapsed_ms (clk k) (now d) < 2000"
  shows "\<exists>s' k'. exec (iteration Hardware None l) (other_tasks sched clk) k s =
    (s', l, k', [SetHigh Io_start, AfterMillis 50, SetLow Io_start])"
proof -
  let ?s2 = "fold (\<lambda>(a, d). task_op a d) ys (set_clock d m sec s1)"
  have "other_tasks sched clk k s = (clk k, ?s2)"
    using sched(1) before(1) frame(1) by (simp add: other_tasks_def)
  moreover have "fst (start_stop_pulse_for (clk k) (Some False) ?s2)"
    using refreshes_keep [OF sched(2) set_clock_keeps_no_pending [OF before(2)], of d m sec]
      uart_running_after_change [OF frame(2,3) recent]
    by (intro stop_pulse_when_running) (simp_all add: Let_def)
  ultimately show ?thesis
    using assms(1,2) by (auto simp: iteration_def pending_step_def no_score_pulses_def exec_pulse PULSE_MS_def)
qed

text \<open>
  From 07:30 stopped to 09:30: the first minute pulse is reported by a frame 08:30, the
  next pulse is on the start/stop pin, and then comes the second minute pulse.
\<close>

definition idle_clock :: "nat \<Rightarrow> clock" where
  "idle_clock k = \<lparr>now = 60000000 + k * 50000, millis = (\<lambda>t. of_nat (t div 1000))\<rparr>"

definition confirming_sched :: "nat \<Rightarrow> (task_call \<times> clock) list" where
  "confirming_sched k =
     (if k = 3 then [(Uart_packet [0x60, 0, 0, 8, 30, 0], idle_clock 3), (Refresh, idle_clock 3)] else [])"

definition example_env :: environment where
  "example_env = other_tasks confirming_sched idle_clock"

lemma example_frame: "parse_clock_packet [0x60, 0, 0, 8, 30, 0] = Some (8, 30)"
  by (simp add: parse_clock_packet_Some)

lemma example_env_simps:
  "k \<noteq> 3 \<Longrightarrow> example_env k s = (idle_clock k, s)"
  "example_env 3 s = (idle_clock 3, refresh_running (idle_clock 3) (set_clock (idle_clock 3) 8 30 s))"
  by (simp_all add: example_env_def other_tasks_def confirming_sched_def example_frame)

lemma example_first_pulse:
  "\<exists>s1. exec (iteration Hardware (Some (SetTimer 9 30)) init_locals) example_env 0 default_scoreboard =
      (refresh_running (idle_clock 0) default_scoreboard, init_locals\<lparr>pending_min := 2\<rparr>, 2, []) \<and>
    exec (iteration Hardware None (init_locals\<lparr>pending_min := 2\<rparr>)) example_env 2
      (refresh_running (idle_clock 0) default_scoreboard) =
      (s1, init_locals\<lparr>pending_min := 1\<rparr>, 3, [SetHigh Io_min_inc, AfterMillis 50, SetLow Io_min_inc]) \<and>
    frozen default_scoreboard s1"
proof -
  have fr: "frozen default_scoreboard default_scoreboard"
    by (simp add: frozen_def default_scoreboard_def)
  have off: "\<not> uart_running c default_scoreboard" for c
    by (simp add: uart_running_def default_scoreboard_def)
  have f0: "frozen default_scoreboard (refresh_running (idle_clock 0) default_scoreboard)"
    by (rule frozen_refresh [OF fr])
  have "exec (iteration Hardware (Some (SetTimer 9 30)) init_locals) example_env 0 default_scoreboard =
      (refresh_running (idle_clock 0) default_scoreboard, init_locals\<lparr>pending_min := 2\<rparr>, 2, [])"
    by (simp add: iteration_def handle_set_timer_def example_env_simps Let_def
        stop_request_when_stopped [OF fr off])
      (simp add: default_scoreboard_def PERIOD_MIN_def PERIOD_SEC_def init_locals_def)
  then show ?thesis
    using frozen_refresh [OF f0]
    by (simp add: iteration_def pending_step_def example_env_simps
        stop_request_when_stopped [OF f0 off] min_sec_pulse_def exec_pulse PULSE_MS_def init_locals_def)
qed

lemma example_toggle_and_last:
  assumes "frozen default_scoreboard s1"
  shows "\<exists>s2 s3. exec (iteration Hardware None (init_locals\<lparr>pending_min := 1\<rparr>)) example_env 3 s1 =
      (s2, init_locals\<lparr>pending_min := 1\<rparr>, 4, [SetHigh Io_start, AfterMillis 50, SetLow Io_start]) \<and>
    exec (iteration Hardware None (init_locals\<lparr>pending_min := 1\<rparr>)) example_env 4 s2 =
      (s3, init_locals, 5, [SetHigh Io_min_inc, AfterMillis 50, SetLow Io_min_inc])"
proof -
  let ?c = "idle_clock 3" and ?d = "idle_clock 4"
  let ?s = "refresh_running ?c (set_clock ?c 8 30 s1)"
  let ?s2 = "snd (start_stop_pulse_for ?c (Some False) ?s)"
  have new: "(8, 30) \<noteq> (minutes s1, seconds s1)" "(8, 30) \<noteq> (0 :: u8, 0 :: u8)"
    using assms by (simp_all add: frozen_def default_scoreboard_def PERIOD_MIN_def PERIOD_SEC_def)
  have on: "uart_running e (set_clock ?c 8 30 s1)" if "e \<in> {?c, ?d}" for e
    using that by (intro uart_running_after_change [OF new]) (auto simp: idle_clock_def elapsed_ms_def)
  have same: "uart_running e ?s = uart_running e (set_clock ?c 8 30 s1)" for e
    by (rule uart_running_cong) simp_all
  have "pending_running (set_clock ?c 8 30 s1) = None"
    using assms by (intro set_clock_keeps_no_pending) (simp add: frozen_def)
  then have "pending_running ?s = None" by (simp add: pending_running_refresh_running)
  then have pulse: "fst (start_stop_pulse_for ?c (Some False) ?s)"
    using on [of ?c] same by (intro stop_pulse_when_running) simp_all
  then have s2: "pending_running ?s2 = Some False" "pending_at ?s2 = Some (now ?c)"
    by (simp_all add: start_stop_pulse_for_pulses start_stop_pulse_for_state)
  have "uart_running ?d ?s2 = uart_running ?d ?s"
    by (rule uart_running_cong) (simp_all add: start_stop_pulse_for_state)
  then have "\<not> fst (start_stop_pulse_for ?d (Some False) ?s2)"
    using on [of ?d] same s2
    by (simp add: start_stop_pulse_for_pulses effective_running_eq pending_age_ms_def
        elapsed_ms_def idle_clock_def)
  with pulse show ?thesis
    by (simp add: iteration_def pending_step_def example_env_simps min_sec_pulse_def exec_pulse
        PULSE_MS_def init_locals_def)
qed

theorem train_toggles_stopped_clock_witness:
  "\<exists>s1 l1 k1 s' k'.
     run_board Hardware [Some (SetTimer 9 30), None] init_locals
       (other_tasks confirming_sched idle_clock) 0 default_scoreboard =
       (s1, l1, k1, [SetHigh Io_min_inc, AfterMillis 50, SetLow Io_min_inc]) \<and> \<not> running s1 \<and>
     exec (iteration Hardware None l1) (other_tasks confirming_sched idle_clock) k1 s1 =
       (s', l1, k', [SetHigh Io_start, AfterMillis 50, SetLow Io_start])"
proof -
  obtain s1 where r: "exec (iteration Hardware (Some (SetTimer 9 30)) init_locals) example_env 0 default_scoreboard =
      (refresh_running (idle_clock 0) default_scoreboard, init_locals\<lparr>pending_min := 2\<rparr>, 2, [])"
    "exec (iteration Hardware None (init_locals\<lparr>pending_min := 2\<rparr>)) example_env 2
      (refresh_running (idle_clock 0) default_scoreboard) =
      (s1, init_locals\<lparr>pending_min := 1\<rparr>, 3, [SetHigh Io_min_inc, AfterMillis 50, SetLow Io_min_inc])"
    "frozen default_scoreboard s1"
    using example_first_pulse by blast
  have "\<exists>s' k'. exec (iteration Hardware None (init_locals\<lparr>pending_min := 1\<rparr>))
      (other_tasks confirming_sched idle_clock) 3 s1 =
      (s', init_locals\<lparr>pending_min := 1\<rparr>, k', [SetHigh Io_start, AfterMillis 50, SetLow Io_start])"
    by (rule train_toggles_stopped_clock [where m = 8 and sec = 30 and d = "idle_clock 3" and xs = "[]"
          and pkt = "[0x60, 0, 0, 8, 30, 0]" and ys = "[(Refresh, idle_clock 3)]" and ?s1.0 = s1])
      (use r(3) in \<open>simp_all add: init_locals_def no_score_pulses_def confirming_sched_def
        example_frame frozen_def default_scoreboard_def elapsed_ms_def idle_clock_def
        PERIOD_MIN_def PERIOD_SEC_def\<close>)
  moreover have "\<not> running s1" using r(2,3)
    by (auto simp: iteration_def pending_step_def example_env_simps frozen_def min_sec_pulse_def
        exec_pulse init_locals_def default_scoreboard_def uart_running_def start_stop_pulse_for_state
        split: if_splits)
  ultimately show ?thesis using r(1,2) by (auto simp: example_env_def [symmetric])
qed

theorem set_timer_reaches_target_witness:
  "case run_board Hardware (Some (SetTimer 9 30) # replicate 3 None) init_locals
     (other_tasks confirming_sched idle_clock) 0 default_scoreboard of
   (s', l', k', es) \<Rightarrow> display es (7, 30) = (9, 30) \<and> \<not> has_pending l' \<and> toggles es = 1"
proof -
  let ?p = "\<lambda>pin. [SetHigh pin, AfterMillis 50, SetLow pin]"
  obtain s1 s2 s3 where r: "exec (iteration Hardware (Some (SetTimer 9 30)) init_locals) example_env 0 default_scoreboard =
      (refresh_running (idle_clock 0) default_scoreboard, init_locals\<lparr>pending_min := 2\<rparr>, 2, [])"
    "exec (iteration Hardware None (init_locals\<lparr>pending_min := 2\<rparr>)) example_env 2
      (refresh_running (idle_clock 0) default_scoreboard) = (s1, init_locals\<lparr>pending_min := 1\<rparr>, 3, ?p Io_min_inc)"
    "exec (iteration Hardware None (init_locals\<lparr>pending_min := 1\<rparr>)) example_env 3 s1 =
      (s2, init_locals\<lparr>pending_min := 1\<rparr>, 4, ?p Io_start)"
    "exec (iteration Hardware None (init_locals\<lparr>pending_min := 1\<rparr>)) example_env 4 s2 = (s3, init_locals, 5, ?p Io_min_inc)"
    using example_first_pulse example_toggle_and_last by metis
  have run: "run_board Hardware (Some (SetTimer 9 30) # replicate 3 None) init_locals
      (other_tasks confirming_sched idle_clock) 0 default_scoreboard =
      (s3, init_locals, 5, ?p Io_min_inc @ ?p Io_start @ ?p Io_min_inc)"
    using r by (simp add: numeral_3_eq_3 example_env_def [symmetric])
  have "minutes (timer_base (other_tasks confirming_sched idle_clock) 0 default_scoreboard) = 7"
    "seconds (timer_base (other_tasks confirming_sched idle_clock) 0 default_scoreboard) = 30"
    by (simp_all add: timer_base_def example_env_def [symmetric] example_env_simps
        start_stop_pulse_for_state default_scoreboard_def PERIOD_MIN_def PERIOD_SEC_def)
  moreover have "pending_min init_locals = 0" "pending_sec init_locals = 0" by (simp_all add: init_locals_def)
  ultimately show ?thesis
    using set_timer_reaches_target [OF sb_inv_default locals_inv_init, where m = 9 and sec = 30 and n = 3 and
        sched = confirming_sched and clk = idle_clock and k = 0]
    unfolding run by (simp add: pulses_to_def Let_def min_def)
qed

section \<open>The simulate build\<close>

lemma unat_pred: "w > 0 \<Longrightarrow> unat (w - 1) = unat w - 1 \<and> 0 < unat w" for w :: "'a::len word"
  by (simp add: unat_minus_one word_gt_0 unat_gt_0)

lemma total_seconds_tick:
  "sec > 0 \<Longrightarrow> unat (total_seconds m (sec - 1)) = unat (total_seconds m sec) - 1"
  "m > 0 \<Longrightarrow> unat (total_seconds (m - 1) 59) = unat (total_seconds m 0) - 1"
proof -
  show "unat (total_seconds m (sec - 1)) = unat (total_seconds m sec) - 1" if "sec > 0"
    using unat_pred [OF that] by (simp only: unat_total_seconds) linarith
  show "unat (total_seconds (m - 1) 59) = unat (total_seconds m 0) - 1" if "m > 0"
    using unat_pred [OF that] by (cases "unat m") (simp_all add: unat_total_seconds)
qed

definition shown :: "scoreboard \<Rightarrow> nat" where
  "shown s = unat (total_seconds (minutes s) (seconds s))"

text \<open>The software clock counts: it runs, and its last change is \<open>t\<close>.\<close>

definition counting :: "instant \<Rightarrow> scoreboard \<Rightarrow> bool" where
  "counting t s \<longleftrightarrow> (running s \<longleftrightarrow> shown s \<noteq> 0) \<and> (shown s \<noteq> 0 \<longrightarrow> last_change s = Some t)"

lemma shown_0: "shown s = 0 \<longleftrightarrow> (minutes s, seconds s) = (0, 0)"
proof -
  have "shown s = 0 \<longleftrightarrow> total_seconds (minutes s) (seconds s) = 0"
    by (simp add: shown_def unat_eq_0)
  then show ?thesis by simp
qed

lemma counting_refresh:
  "counting t s \<Longrightarrow> elapsed_ms d t < 2000 \<Longrightarrow>
   counting t (refresh_running d s) \<and> shown (refresh_running d s) = shown s"
  by (auto simp: counting_def shown_0 uart_running_def) (simp_all add: shown_def)

lemma counting_tick:
  assumes "counting t s" "elapsed_ms d (now d) < 2000"
  shows "counting (now d) (timer_tick d s) \<and> shown (timer_tick d s) = shown s - 1"
proof (cases "running s")
  case False
  with assms show ?thesis by (auto simp: timer_tick_def counting_def)
next
  case True
  then have nz: "(minutes s, seconds s) \<noteq> (0, 0)"
    using assms(1) shown_0 by (auto simp: counting_def)
  show ?thesis
  proof (cases "seconds s > 0")
    case sec: True
    then have "seconds s - 1 \<noteq> seconds s" by simp
    with True sec assms(2) total_seconds_tick(1) [OF sec, of "minutes s"] show ?thesis
      by (auto simp: timer_tick_def Let_def set_clock_eq counting_def shown_0 uart_running_def)
        (simp_all add: shown_def)
  next
    case sec: False
    then have z: "seconds s = 0" by (simp add: word_gt_0)
    with nz have m: "minutes s > 0" by (simp add: word_gt_0)
    from True z m assms(2) total_seconds_tick(2) [OF m] show ?thesis
      by (auto simp: timer_tick_def Let_def set_clock_eq counting_def shown_0 uart_running_def)
        (simp_all add: shown_def)
  qed
qed

text \<open>Ticks and refreshes with less than 2 s between a tick and the refreshes after it.\<close>

fun paced :: "instant \<Rightarrow> (task_call \<times> clock) list \<Rightarrow> bool" where
  "paced t [] \<longleftrightarrow> True"
| "paced t ((Refresh, d) # xs) \<longleftrightarrow> elapsed_ms d t < 2000 \<and> paced t xs"
| "paced t ((Timer_tick, d) # xs) \<longleftrightarrow> elapsed_ms d (now d) < 2000 \<and> paced (now d) xs"
| "paced t ((Uart_packet pkt, d) # xs) \<longleftrightarrow> False"

fun ticks :: "(task_call \<times> clock) list \<Rightarrow> nat" where
  "ticks [] = 0"
| "ticks ((a, d) # xs) = (if a = Timer_tick then 1 else 0) + ticks xs"

lemma counting_run:
  "paced t xs \<Longrightarrow> counting t s \<Longrightarrow>
   \<exists>t'. counting t' (fold (\<lambda>(a, d). task_op a d) xs s) \<and>
        shown (fold (\<lambda>(a, d). task_op a d) xs s) = shown s - ticks xs"
proof (induction t xs arbitrary: s rule: paced.induct)
  case (2 t d xs)
  with counting_refresh [of t s d] show ?case by auto
next
  case (3 t d xs)
  with counting_tick [of t s d] show ?case by (auto simp: diff_diff_eq)
qed auto

text \<open>C39: the simulate build counts down one second per tick of \<open>timer_task\<close>, through any
  refreshes in between, runs until 00:00 and is stopped exactly there.\<close>

theorem sim_countdown:
  assumes "running s" "last_change s = Some t" "sb_inv s" "paced t xs"
  shows "let s' = fold (\<lambda>(a, d). task_op a d) xs s in
    unat (total_seconds (minutes s') (seconds s')) =
      unat (total_seconds (minutes s) (seconds s)) - ticks xs \<and>
    (running s' \<longleftrightarrow> ticks xs < unat (total_seconds (minutes s) (seconds s)))"
proof -
  have "counting t s"
    using assms(1-3) shown_0 [of s] by (auto simp: counting_def sb_inv_def)
  from counting_run [OF assms(4) this] show ?thesis
    by (auto simp: counting_def shown_def Let_def)
qed

theorem sim_countdown_witness:
  "let s = set_clock (idle_clock 0) 0 3 default_scoreboard;
       xs = [(Timer_tick, idle_clock 20), (Refresh, idle_clock 30), (Timer_tick, idle_clock 40)];
       s' = fold (\<lambda>(a, d). task_op a d) xs s in
   unat (total_seconds (minutes s') (seconds s')) = 1 \<and> running s'"
proof -
  let ?s = "set_clock (idle_clock 0) 0 3 default_scoreboard"
  let ?xs = "[(Timer_tick, idle_clock 20), (Refresh, idle_clock 30), (Timer_tick, idle_clock 40)]"
  have s: "running ?s" "last_change ?s = Some (now (idle_clock 0))"
    "unat (total_seconds (minutes ?s) (seconds ?s)) = 3"
    by (simp_all add: set_clock_eq default_scoreboard_def uart_running_def idle_clock_def elapsed_ms_def
        total_seconds_def PERIOD_MIN_def PERIOD_SEC_def)
  have "sb_inv ?s" using set_clock_op.keeps_inv [of "(0, 3)"] sb_inv_default by simp
  moreover have "paced (now (idle_clock 0)) ?xs" by (simp add: idle_clock_def elapsed_ms_def)
  ultimately show ?thesis
    using sim_countdown [OF s(1,2), of ?xs] s(3) by (simp only: Let_def) simp
qed

end
