(* ===== verification/Board_Run.thy ===== *)
theory Board_Run
  imports System Run_State
begin

text \<open>
  What \<open>board_task\<close> does to the system on its own: the scores it leads to, in either build, so that
  the systems that add the UART, the HTTP workers or other inputs to theory \<open>System\<close> take them over by
  lemma \<open>sys_step_score\<close>; and its own steps, of which theory \<open>Board_Rest\<close> shows that they end.
\<close>

section \<open>The commands as score keeping\<close>

text \<open>What a command means for the scores.\<close>

fun score_spec :: "command \<Rightarrow> int \<times> int \<Rightarrow> int \<times> int" where
  "score_spec HomeInc (h, a) = (min 99 (h + 1), a)"
| "score_spec HomeDec (h, a) = (max 0 (h - 1), a)"
| "score_spec AwayInc (h, a) = (h, min 99 (a + 1))"
| "score_spec AwayDec (h, a) = (h, max 0 (a - 1))"
| "score_spec ScoresZero x = (0, 0)"
| "score_spec _ x = x"

text \<open>The program ends with the scores \<open>t\<close>; only \<open>board_task\<close> writes them.\<close>

primrec aims :: "board_prog \<Rightarrow> u16 \<Rightarrow> u16 \<Rightarrow> int \<times> int \<Rightarrow> bool" where
  "aims (Done l) h a t \<longleftrightarrow> (uint h, uint a) = t"
| "aims (Emit e p) h a t \<longleftrightarrow> aims p h a t"
| "aims (Lock f g) h a t \<longleftrightarrow>
     (\<forall>c s. home s = h \<and> away s = a \<longrightarrow> aims (g c s) (home (f c s)) (away (f c s)) t)"

lemma aims_pulse [simp]: "aims (pulse p k) h a t = aims k h a t"
  by (simp add: pulse_def)

lemma aims_blink [simp]: "aims (blink_onboard v k) h a t = aims k h a t"
  by (simp add: blink_onboard_def)

lemma score_bounds:
  fixes w :: u16
  assumes "w \<le> 99"
  shows "min 99 (uint w + 1) = (if w < 99 then uint (w + 1) else uint w)"
    and "max 0 (uint w - 1) = (if w > 0 then uint (w - 1) else uint w)"
proof -
  have "uint w \<le> 99" using assms by (simp add: word_le_def)
  moreover have "uint w = 99" if "\<not> w < 99"
  proof -
    have "w = 99" using that assms by (metis linorder_not_less order_antisym)
    then show ?thesis by simp
  qed
  ultimately show "min 99 (uint w + 1) = (if w < 99 then uint (w + 1) else uint w)"
    by (auto simp: uint_plus_1 word_less_def)
  show "max 0 (uint w - 1) = (if w > 0 then uint (w - 1) else uint w)"
  proof (cases "w > 0")
    case True
    have "0 \<le> uint (w - 1)" by (rule uint_nonnegative)
    with True show ?thesis by (simp only: uint_minus_1) simp
  qed (simp add: word_gt_0)
qed

lemma handle_aims:
  assumes "h \<le> 99" "a \<le> 99" "locals_inv l"
  shows "aims (handle b cmd l) h a (score_spec cmd (uint h, uint a))"
  using assms(3)
  by (cases cmd)
    (auto simp: handle_led_def handle_start_stop_def handle_home_inc_def handle_home_dec_def
      handle_away_inc_def handle_away_dec_def handle_scores_zero_def handle_reset_def
      handle_set_timer_def handle_aux_def Let_def locals_inv_def SCORE_MAX_def
      score_bounds [OF assms(1)] score_bounds [OF assms(2)] split: build.splits)

lemma pending_aims: "locals_inv l \<Longrightarrow> aims (pending_step b l) h a (uint h, uint a)"
  by (auto simp: pending_step_def min_sec_pulse_def locals_inv_def split: build.splits)

text \<open>
  The commands posted are those done, whose effect the current program aims at, followed by
  those still in the channel.
\<close>

definition keeps_score :: "system \<Rightarrow> command list \<Rightarrow> bool" where
  "keeps_score S cmds \<longleftrightarrow> (\<exists>ended. cmds = ended @ queue S \<and>
     aims (prog S) (home (sb S)) (away (sb S)) (fold score_spec ended (0, 0)))"

lemma keeps_scoreI:
  "cmds = ended @ queue S \<Longrightarrow> aims (prog S) (home (sb S)) (away (sb S)) (fold score_spec ended (0, 0)) \<Longrightarrow>
   keeps_score S cmds"
  by (auto simp: keeps_score_def)

lemma keeps_score_boot: "keeps_score boot []"
  by (simp add: keeps_score_def boot_def default_scoreboard_def)

lemma keeps_score_cong:
  "keeps_score S cmds \<Longrightarrow> prog S' = prog S \<Longrightarrow> queue S' = queue S \<Longrightarrow>
   home (sb S') = home (sb S) \<Longrightarrow> away (sb S') = away (sb S) \<Longrightarrow> keeps_score S' cmds"
  by (simp add: keeps_score_def)

lemma keeps_score_post:
  "keeps_score S cmds \<Longrightarrow> keeps_score (S\<lparr>queue := queue S @ [cmd]\<rparr>) (cmds @ [cmd])"
  by (auto simp: keeps_score_def)

lemma sys_step_score:
  assumes "sys_step b S S'" "sys_inv b S" "keeps_score S cmds" "length (queue S') \<le> length (queue S)"
  shows "keeps_score S' cmds"
  using assms
proof (induction rule: sys_step.induct)
  case (recv S l cmd rest)
  then obtain ended where e: "cmds = ended @ cmd # rest"
    "(uint (home (sb S)), uint (away (sb S))) = fold score_spec ended (0, 0)"
    by (auto simp: keeps_score_def)
  have "locals_inv l" "home (sb S) \<le> 99" "away (sb S) \<le> 99"
    using recv.prems(1) recv.hyps(1) by (auto simp: sys_inv_def sb_inv_bounds)
  with handle_aims e show ?case
    by (intro keeps_scoreI [of _ "ended @ [cmd]"]) (simp_all add: iteration_def flip: e(2))
next
  case (poll S l)
  then obtain ended where e: "cmds = ended @ queue S"
    "(uint (home (sb S)), uint (away (sb S))) = fold score_spec ended (0, 0)"
    by (auto simp: keeps_score_def)
  have "locals_inv l" using poll.prems(1) poll.hyps(1) by (auto simp: sys_inv_def)
  with pending_aims e show ?case
    by (intro keeps_scoreI [of _ ended]) (simp_all add: iteration_def flip: e(2))
next
  case (emit S e p)
  then show ?case by (auto simp: keeps_score_def)
next
  case (lock S f g c)
  then show ?case by (auto simp: keeps_score_def)
qed (auto elim!: keeps_score_cong dest!: write_snapshot_sb stream_timeout_sb)

section \<open>board_task alone\<close>

text \<open>The steps of \<open>sys_step\<close> that are \<open>board_task\<close>'s, when the clock reads \<open>c\<close>.\<close>

inductive board_step :: "build \<Rightarrow> clock \<Rightarrow> system \<Rightarrow> system \<Rightarrow> bool" for b c where
  b_recv: "prog S = Done l \<Longrightarrow> queue S = cmd # cmds \<Longrightarrow>
    board_step b c S (S\<lparr>prog := iteration b (Some cmd) l, queue := cmds\<rparr>)"
| b_poll: "prog S = Done l \<Longrightarrow> queue S = [] \<Longrightarrow> has_pending l \<Longrightarrow>
    board_step b c S (S\<lparr>prog := iteration b None l\<rparr>)"
| b_emit: "prog S = Emit e p \<Longrightarrow> board_step b c S (S\<lparr>prog := p, trace := trace S @ [e]\<rparr>)"
| b_lock: "prog S = Lock f g \<Longrightarrow> board_step b c S (S\<lparr>sb := f c (sb S), prog := g c (sb S)\<rparr>)"

lemma board_step_sys: "board_step b c S S' \<Longrightarrow> sys_step b S S'"
  by (induction rule: board_step.induct) (auto intro: recv poll emit lock)

lemma board_step_keeps: "board_step b c S S' \<Longrightarrow> streams S' = streams S \<and> length (queue S') \<le> length (queue S)"
  by (induction rule: board_step.induct) auto

text \<open>\<open>board_task\<close> has nothing to do: it waits for a command.\<close>

definition at_rest :: "system \<Rightarrow> bool" where
  "at_rest S \<longleftrightarrow> (\<exists>l. prog S = Done l \<and> \<not> has_pending l) \<and> queue S = []"

lemma board_can_go: "\<not> at_rest S \<Longrightarrow> \<exists>S'. board_step b c S S'"
  by (cases "prog S"; cases "queue S") (auto simp: at_rest_def intro: board_step.intros)

section \<open>A change is announced once\<close>

lemma sends_refresh_running:
  "sends (refresh_running c s) =
     (if announced s = visible_of (refresh_running c s) then sends s else sends s + 1)"
  by (simp add: refresh_running_def Let_def sends_publish)

lemma refresh_twice_silent: "sends (refresh_running c (refresh_running c s)) = sends (refresh_running c s)"
proof -
  have "uart_running c (refresh_running c s) = uart_running c s" by (rule uart_running_cong) simp_all
  then have "visible_of (refresh_running c (refresh_running c s)) = visible_of (refresh_running c s)"
    by (simp add: visible_of_def)
  then show ?thesis by (simp add: sends_refresh_running [of c "refresh_running c s"])
qed

end
