(* ===== verification/Board_Rest.thy ===== *)
theory Board_Rest
  imports Board_Run
begin

text \<open>
  \<open>board_task\<close> gets everything done: with a clock that goes on and whatever the other tasks do in
  between, its steps end, and then the channel is empty and no pulse is owed.  The one thing that
  could keep it busy is a set-timer train that stops the clock again and again; that takes a frame
  with a new time each time.  The systems that run \<open>board_task\<close> take this over by the locale
  \<open>board_host\<close>.
\<close>

section \<open>A clock that goes on\<close>

text \<open>The time driver counts microseconds in 64 bits.\<close>

definition clock_at :: "instant \<Rightarrow> clock" where
  "clock_at t = \<lparr>now = t, millis = (\<lambda>d. of_nat (min d (2 ^ 64 - 1) div 1000))\<rparr>"

lemma now_clock_at [simp]: "now (clock_at t) = t"
  by (simp add: clock_at_def)

lemma elapsed_at: "elapsed_ms (clock_at t) u < 2000 \<longleftrightarrow> t - u < 2000000"
proof -
  have "min d (2 ^ 64 - 1) div 1000 < 2000 \<longleftrightarrow> d < 2000000" for d :: nat
    by (auto simp: min_def div_less_iff_less_mult)
  moreover have "min d (2 ^ 64 - 1) div 1000 < 2 ^ 64" for d :: nat
    by (rule le_less_trans [OF div_le_dividend]) simp
  ultimately show ?thesis
    by (simp add: elapsed_ms_def clock_at_def word_less_nat_alt unat_of_nat take_bit_nat_eq_self del: of_nat_min)
qed

lemma uart_running_at:
  "uart_running (clock_at t) s \<longleftrightarrow> (minutes s, seconds s) \<noteq> (0, 0) \<and>
     (\<exists>u. last_change s = Some u \<and> t - u < 2000000)"
  by (auto simp: uart_running_def elapsed_at)

lemma uart_running_earlier:
  "uart_running (clock_at t') s \<Longrightarrow> t \<le> t' \<Longrightarrow> uart_running (clock_at t) s"
  by (auto simp: uart_running_at)

lemma pending_age_at:
  "pending_age_ms (clock_at t) s < 2000 \<longleftrightarrow> (case pending_at s of Some a \<Rightarrow> t - a < 2000000 | None \<Rightarrow> True)"
  by (simp add: pending_age_ms_def elapsed_at split: option.split)

section \<open>After a stop pulse\<close>

text \<open>
  From \<open>t\<close> on no stop request is pulsed: the time has stood still and no start is pending, or a
  stop is pending that was requested after the time last changed.
\<close>

definition settled :: "instant \<Rightarrow> scoreboard \<Rightarrow> bool" where
  "settled t s \<longleftrightarrow> \<not> uart_running (clock_at t) s \<and> pending_running s \<noteq> Some True \<or>
     pending_running s = Some False \<and>
       (\<exists>a. pending_at s = Some a \<and> (\<forall>u. last_change s = Some u \<longrightarrow> u \<le> a))"

lemma settled_later: "settled t s \<Longrightarrow> t \<le> t' \<Longrightarrow> settled t' s"
  by (auto simp: settled_def dest: uart_running_earlier)

lemma settled_not_effective:
  assumes "settled t s"
  shows "\<not> effective_running (clock_at t) s"
  using assms by (auto simp: settled_def effective_running_eq uart_running_at pending_age_at)

lemma settled_no_pulse: "settled t s \<Longrightarrow> \<not> fst (start_stop_pulse_for (clock_at t) (Some False) s)"
  by (simp add: start_stop_pulse_for_pulses settled_not_effective)

lemma settled_refresh:
  assumes "settled t s"
  shows "settled t (refresh_running (clock_at t) s)"
proof -
  have "uart_running (clock_at t) (refresh_running (clock_at t) s) = uart_running (clock_at t) s"
    by (rule uart_running_cong) simp_all
  with assms show ?thesis
    by (auto simp: settled_def pending_running_refresh_running pending_at_refresh_running
        resolve_pending_running_def decode_consts pending_age_at uart_running_at split: option.splits if_splits)
qed

lemma settled_after_pulse:
  assumes "fst (start_stop_pulse_for (clock_at t) (Some False) s)" "\<forall>u. last_change s = Some u \<longrightarrow> u \<le> t"
  shows "settled t (snd (start_stop_pulse_for (clock_at t) (Some False) s))"
  using assms by (simp add: settled_def start_stop_pulse_for_pulses start_stop_pulse_for_state)

section \<open>The train a program leaves\<close>

text \<open>Whatever the program finds, it ends with at most \<open>n\<close> min/sec pulses left to send.\<close>

primrec leaves :: "nat \<Rightarrow> board_prog \<Rightarrow> bool" where
  "leaves n (Done l) \<longleftrightarrow> train_left l \<le> n"
| "leaves n (Emit e p) \<longleftrightarrow> leaves n p"
| "leaves n (Lock f g) \<longleftrightarrow> (\<forall>c s. leaves n (g c s))"

lemma leaves_pulse [simp]: "leaves n (pulse p k) = leaves n k"
  by (simp add: pulse_def)

lemma leaves_blink [simp]: "leaves n (blink_onboard h k) = leaves n k"
  by (simp add: blink_onboard_def)

lemma train_left_updates [simp]:
  "train_left (l\<lparr>pending_home_dec := x\<rparr>) = train_left l"
  "train_left (l\<lparr>pending_away_dec := x\<rparr>) = train_left l"
  "train_left (l\<lparr>pending_min := 0, pending_sec := 0\<rparr>) = 0"
  by (simp_all add: train_left_def)

lemma leaves_min_sec: "no_score_pulses l \<Longrightarrow> leaves (train_left l - 1) (min_sec_pulse l)"
  by (auto simp: min_sec_pulse_def train_left_def)

lemma timer_train_bound: "train_left (l\<lparr>pending_min := uint m - uint m', pending_sec := uint x - uint x'\<rparr>) \<le> 510"
  for m m' x x' :: u8
proof -
  have "uint w < 256" "0 \<le> uint w" for w :: u8 using uint_lt2p [of w] by simp_all
  from this [of m] this [of m'] this [of x] this [of x']
  have "nat \<bar>uint m - uint m'\<bar> \<le> 255" "nat \<bar>uint x - uint x'\<bar> \<le> 255" by linarith+
  then show ?thesis by (simp add: train_left_def)
qed

lemma leaves_iteration: "leaves (train_left l + 510) (iteration b r l)"
proof (cases r)
  case None
  then show ?thesis
    by (auto simp: iteration_def pending_step_def min_sec_pulse_def train_left_def split: build.splits)
next
  case (Some cmd)
  have "leaves (train_left l + 510) (handle b cmd l)"
    using timer_train_bound
    by (cases cmd)
      (auto simp: handle_led_def handle_start_stop_def handle_home_inc_def handle_home_dec_def
        handle_away_inc_def handle_away_dec_def handle_scores_zero_def handle_reset_def
        handle_set_timer_def handle_aux_def Let_def intro: trans_le_add2 split: build.splits)
  with Some show ?thesis by (simp add: iteration_def)
qed

lemma leaves_step: "sys_step b S S' \<Longrightarrow> \<exists>n. leaves n (prog S) \<Longrightarrow> \<exists>n. leaves n (prog S')"
  by (induction rule: sys_step.induct) (auto intro: leaves_iteration)

lemma leaves_reachable: "reachable b S \<Longrightarrow> \<exists>n. leaves n (prog S)"
  by (induction rule: reachable.induct) (auto simp: boot_def dest: leaves_step)

section \<open>The other tasks, while no request comes\<close>

text \<open>A frame that shows another time than the last one.\<close>

fun new_time :: "task_call \<Rightarrow> scoreboard \<Rightarrow> bool" where
  "new_time (Uart_packet pkt) s \<longleftrightarrow> (case parse_clock_packet pkt of
     None \<Rightarrow> False | Some p \<Rightarrow> p \<noteq> (minutes s, seconds s))"
| "new_time _ s \<longleftrightarrow> False"

text \<open>
  Between two steps of \<open>board_task\<close> time passes, and other tasks run their sections on the
  scoreboard.  The number \<open>f\<close> says how many frames with a new time still come while a train is to
  be sent or may be set up.
\<close>

inductive elsewhere :: "build \<Rightarrow> instant \<times> nat \<times> system \<Rightarrow> instant \<times> nat \<times> system \<Rightarrow> bool" for b where
  e_time: "t \<le> t' \<Longrightarrow> elsewhere b (t, f, S) (t', f, S)"
| e_task: "task_runs b a \<Longrightarrow> f = f' + (if new_time a (sb S) \<and> \<not> leaves 0 (prog S) then 1 else 0) \<Longrightarrow>
    elsewhere b (t, f, S) (t, f', S\<lparr>sb := task_op a (clock_at t) (sb S)\<rparr>)"

definition board_go :: "build \<Rightarrow> instant \<times> nat \<times> system \<Rightarrow> instant \<times> nat \<times> system \<Rightarrow> bool" where
  "board_go b x y \<longleftrightarrow> (\<exists>t f S S'. (elsewhere b)\<^sup>*\<^sup>* x (t, f, S) \<and> board_step b (clock_at t) S S' \<and> y = (t, f, S'))"

text \<open>What is reachable, at a time that is not before the last change of the clock.\<close>

definition in_time :: "build \<Rightarrow> instant \<times> nat \<times> system \<Rightarrow> bool" where
  "in_time b x \<longleftrightarrow> (case x of (t, f, S) \<Rightarrow> reachable b S \<and>
     (b = Hardware \<longrightarrow> (\<forall>u. last_change (sb S) = Some u \<longrightarrow> u \<le> t)))"

lemma in_time_elsewhere:
  assumes "elsewhere b x y" "in_time b x"
  shows "in_time b y"
  using assms
proof (induction rule: elsewhere.induct)
  case (e_task a f f' S t)
  then have "reachable b (S\<lparr>sb := task_op a (clock_at t) (sb S)\<rparr>)"
    using reachable.step [OF _ task [of b a S "clock_at t"]] by (simp add: in_time_def)
  with e_task show ?case
    by (cases a) (auto simp: in_time_def set_clock_eq split: option.splits)
qed (auto simp: in_time_def)

lemmas run_induct = rtranclp_induct [of _ "(tx, fx, Sx)" "(ty, fy, Sy)", split_rule, consumes 1, case_names refl step]
  for tx fx Sx ty fy Sy

lemma elsewhere_keeps:
  assumes "(elsewhere b)\<^sup>*\<^sup>* (t, f, S) (t', f', S')"
  shows "prog S' = prog S \<and> queue S' = queue S \<and> streams S' = streams S \<and> f' \<le> f \<and> t \<le> t' \<and>
    (in_time b (t, f, S) \<longrightarrow> in_time b (t', f', S'))"
  using assms
proof (induction rule: run_induct)
  case (step t1 f1 S1 t2 f2 S2)
  have "prog S2 = prog S1 \<and> queue S2 = queue S1 \<and> streams S2 = streams S1 \<and> f2 \<le> f1 \<and> t1 \<le> t2"
    using step.hyps(2) by (cases rule: elsewhere.cases) auto
  with step.IH in_time_elsewhere [OF step.hyps(2)] show ?case by auto
qed simp

lemma in_time_step:
  assumes "in_time b (t, f, S)" "board_step b (clock_at t) S S'"
  shows "in_time b (t, f, S')"
proof -
  have r: "reachable b S" using assms(1) by (simp add: in_time_def)
  have "last_change (sb S') = last_change (sb S)" if "b = Hardware"
    using assms(2) hands_off_reachable [of S] r that
    by (induction rule: board_step.induct) (auto simp: follows_uart_def)
  with assms reachable.step [OF r board_step_sys] show ?thesis by (auto simp: in_time_def)
qed

lemma in_time_go:
  assumes "board_go b (t, f, S) y" "in_time b (t, f, S)"
  shows "in_time b y"
proof -
  obtain t1 f1 S1 S' where "(elsewhere b)\<^sup>*\<^sup>* (t, f, S) (t1, f1, S1)" "board_step b (clock_at t1) S1 S'"
    "y = (t1, f1, S')" using assms(1) by (auto simp: board_go_def)
  with elsewhere_keeps assms(2) in_time_step show ?thesis by metis
qed

lemma in_time_ok: "in_time b (t, f, S) \<Longrightarrow> prog_ok (prog S) \<and> (\<exists>n. leaves n (prog S))"
  using reachable_inv [of b S] leaves_reachable [of b S] by (simp add: in_time_def sys_inv_def)

lemma settled_elsewhere:
  assumes "elsewhere Hardware (t, f, S) (t', f, S')" "\<not> leaves 0 (prog S)" "settled t (sb S)"
  shows "settled t' (sb S')"
  using assms
proof (cases rule: elsewhere.cases)
  case (e_task a)
  show ?thesis
  proof (cases a)
    case (Uart_packet pkt)
    with e_task assms(2,3) settled_refresh [OF assms(3)] show ?thesis
      by (auto simp: set_clock_eq split: option.splits if_splits)
  qed (use e_task assms(3) settled_refresh in auto)
qed (auto intro: settled_later)

lemma settled_meanwhile:
  assumes "(elsewhere Hardware)\<^sup>*\<^sup>* (t, f, S) (t', f', S')" "\<not> leaves 0 (prog S)" "settled t (sb S)"
  shows "f' = f \<longrightarrow> settled t' (sb S')"
  using assms
proof (induction rule: run_induct)
  case (step t1 f1 S1 t2 f2 S2)
  have "(elsewhere Hardware)\<^sup>*\<^sup>* (t1, f1, S1) (t2, f2, S2)" using step.hyps(2) by blast
  with step.hyps(1) have "f2 \<le> f1" "f1 \<le> f" "prog S1 = prog S" by (simp_all add: elsewhere_keeps)
  with step settled_elsewhere [of t1 f1 S1 t2 S2] show ?case by auto
qed simp

section \<open>The steps of board_task end\<close>

definition ends :: "('x \<Rightarrow> 'x \<Rightarrow> bool) \<Rightarrow> 'x \<Rightarrow> bool" where
  "ends r x \<longleftrightarrow> Wellfounded.accp (\<lambda>y x. r x y) x"

lemma endsI: "(\<And>y. r x y \<Longrightarrow> ends r y) \<Longrightarrow> ends r x"
  unfolding ends_def by (rule accp.accI)

lemma ends_induct [consumes 1, case_names ends]:
  assumes "ends r x" "\<And>x. (\<And>y. r x y \<Longrightarrow> ends r y) \<Longrightarrow> (\<And>y. r x y \<Longrightarrow> P y) \<Longrightarrow> P x"
  shows "P x"
  using assms unfolding ends_def by (rule accp.induct)

lemma ends_no_run: "ends r x \<Longrightarrow> \<not> (\<exists>run. run 0 = x \<and> (\<forall>i. r (run i) (run (Suc i))))"
proof (induction rule: ends_induct)
  case (ends x)
  show ?case
  proof
    assume "\<exists>run. run 0 = x \<and> (\<forall>i. r (run i) (run (Suc i)))"
    then obtain run where run: "run 0 = x" "\<And>i. r (run i) (run (Suc i))" by blast
    have "r x (run 1)" using run(1) run(2) [of 0] by simp
    from ends(2) [OF this] show False using run(2) by (auto dest!: spec [of _ "\<lambda>i. run (Suc i)"])
  qed
qed

text \<open>What is already known to end: fewer frames, commands, or pulses to come.\<close>

definition less_ends :: "build \<Rightarrow> nat \<Rightarrow> nat \<Rightarrow> nat \<Rightarrow> bool" where
  "less_ends b f q n \<longleftrightarrow> (\<forall>t f' S m. in_time b (t, f', S) \<and> leaves m (prog S) \<and>
     (f' < f \<or> f' = f \<and> (length (queue S) < q \<or> length (queue S) = q \<and> m < n)) \<longrightarrow>
     ends (board_go b) (t, f', S))"

lemma less_endsD:
  "less_ends b f q n \<Longrightarrow> in_time b (t, f', S) \<Longrightarrow> leaves m (prog S) \<Longrightarrow>
   f' < f \<or> f' = f \<and> (length (queue S) < q \<or> length (queue S) = q \<and> m < n) \<Longrightarrow>
   ends (board_go b) (t, f', S)"
  unfolding less_ends_def by blast

lemma board_step_queue: "board_step b c S S' \<Longrightarrow> queue S' = queue S \<or> length (queue S') < length (queue S)"
  by (induction rule: board_step.induct) auto

lemma less_ends_fewer:
  assumes "less_ends b f q n" "m \<le> n"
  shows "less_ends b f q m"
  unfolding less_ends_def
proof (intro allI impI, elim conjE)
  fix t f' S k
  assume "in_time b (t, f', S)" "leaves k (prog S)"
    "f' < f \<or> f' = f \<and> (length (queue S) < q \<or> length (queue S) = q \<and> k < m)"
  then show "ends (board_go b) (t, f', S)" using less_endsD [OF assms(1)] assms(2) by fastforce
qed

text \<open>One step, after the other tasks: it is enough to look at a step that is not a command's
  beginning, with no frame spent.\<close>

lemma step_ends:
  assumes less: "less_ends b f (length (queue S)) n" and good: "in_time b (t, f, S)"
    and next_ends: "\<And>t1 S1 S'. (elsewhere b)\<^sup>*\<^sup>* (t, f, S) (t1, f, S1) \<Longrightarrow> in_time b (t1, f, S1) \<Longrightarrow>
      prog S1 = prog S \<Longrightarrow> queue S1 = queue S \<Longrightarrow> board_step b (clock_at t1) S1 S' \<Longrightarrow>
      queue S' = queue S \<Longrightarrow> in_time b (t1, f, S') \<Longrightarrow> ends (board_go b) (t1, f, S')"
  shows "ends (board_go b) (t, f, S)"
proof (rule endsI)
  fix y
  assume "board_go b (t, f, S) y"
  then obtain t1 f1 S1 S' where y: "y = (t1, f1, S')" and pause: "(elsewhere b)\<^sup>*\<^sup>* (t, f, S) (t1, f1, S1)"
    and act: "board_step b (clock_at t1) S1 S'" by (auto simp: board_go_def)
  note keeps = elsewhere_keeps [OF pause]
  then have good1: "in_time b (t1, f1, S1)" using good by simp
  from in_time_step [OF this act] have good': "in_time b (t1, f1, S')" .
  then obtain m where m: "leaves m (prog S')" using in_time_ok by blast
  show "ends (board_go b) y"
  proof (cases "f1 < f \<or> length (queue S') < length (queue S)")
    case True
    then have "f1 < f \<or> f1 = f \<and> (length (queue S') < length (queue S) \<or> length (queue S') = length (queue S) \<and> m < n)"
      using keeps by auto
    with less_endsD [OF less good' m] show ?thesis by (simp add: y)
  next
    case False
    with keeps have "f1 = f" by simp
    have "queue S' = queue S"
      using board_step_queue [OF act] False keeps by auto
    with next_ends [of t1 S1 S'] pause act good1 good' \<open>f1 = f\<close> keeps show ?thesis by (simp add: y)
  qed
qed

text \<open>The check before a min/sec pulse.\<close>

lemma check_prog:
  assumes "no_score_pulses l" "train_left l > 0"
  shows "iteration Hardware None l = Lock (\<lambda>c s. snd (start_stop_pulse_for c (Some False) s))
    (\<lambda>c s. if fst (start_stop_pulse_for c (Some False) s) then pulse Io_start (Done l) else min_sec_pulse l)"
  using assms by (simp add: iteration_def pending_step_def no_score_pulses_def train_left_def)

lemma train_not_over:
  assumes "no_score_pulses l" "train_left l > 0"
  shows "\<not> leaves 0 (iteration Hardware None l)"
proof -
  let ?s = "default_scoreboard\<lparr>last_change := Some 0\<rparr>"
  have "fst (start_stop_pulse_for (clock_at 0) (Some False) ?s)"
    by (intro stop_pulse_when_running) (simp_all add: default_scoreboard_def uart_running_at PERIOD_MIN_def)
  with assms(2) show ?thesis
    unfolding check_prog [OF assms] leaves.simps
    by (intro notI) (drule spec [of _ "clock_at 0"], drule spec [of _ ?s], simp)
qed

lemma idle_locals:
  "in_time b (t, f, S) \<Longrightarrow> prog S = Done l \<Longrightarrow> no_score_pulses l \<and> (has_pending l \<longleftrightarrow> train_left l > 0)"
  using in_time_ok [of b t f S]
  by (auto simp: locals_inv_def no_score_pulses_def has_pending_def train_left_def)

lemma settled_check_ends:
  assumes "less_ends Hardware f (length (queue S)) (train_left l)" "in_time Hardware (t, f, S)"
    and l: "no_score_pulses l" "train_left l > 0" "prog S = iteration Hardware None l"
    and "settled t (sb S)"
  shows "ends (board_go Hardware) (t, f, S)"
proof (rule step_ends [OF assms(1,2)], goal_cases)
  case (1 t1 S1 S')
  have "settled t1 (sb S1)"
    using settled_meanwhile [OF 1(1)] assms(6) train_not_over [OF l(1,2)] l(3) by simp
  with 1(5) 1(3) l(3) have "prog S' = min_sec_pulse l"
    by - (erule board_step.cases, auto simp: check_prog [OF l(1,2)] settled_no_pulse)
  with leaves_min_sec [OF l(1)] have "leaves (train_left l - 1) (prog S')" by simp
  from less_endsD [OF assms(1) 1(7) this] 1(6) l(2) show ?case by simp
qed

text \<open>The end of a stop pulse: effects, then the check again, which finds the stop requested.\<close>

fun pulsing :: "locals \<Rightarrow> board_prog \<Rightarrow> bool" where
  "pulsing l (Done l') \<longleftrightarrow> l' = l"
| "pulsing l (Emit e p) \<longleftrightarrow> pulsing l p"
| "pulsing l (Lock f g) \<longleftrightarrow> False"

lemma pulsing_leaves: "pulsing l p \<Longrightarrow> leaves n p \<longleftrightarrow> train_left l \<le> n"
  by (induction p) auto

lemma settled_ends:
  "pulsing l p \<Longrightarrow> prog S = p \<Longrightarrow> less_ends Hardware f (length (queue S)) (train_left l) \<Longrightarrow>
   in_time Hardware (t, f, S) \<Longrightarrow> no_score_pulses l \<Longrightarrow> train_left l > 0 \<Longrightarrow> settled t (sb S) \<Longrightarrow>
   ends (board_go Hardware) (t, f, S)"
proof (induction p arbitrary: t S)
  case (Done l')
  show ?case
  proof (rule step_ends [OF Done.prems(3,4)], goal_cases)
    case (1 t1 S1 S')
    have s: "settled t1 (sb S1)"
      using settled_meanwhile [OF 1(1)] Done.prems by simp
    from 1(5) 1(3) Done.prems(1,2) have "prog S' = iteration Hardware None l" "sb S' = sb S1"
      using 1(4,6) by (cases rule: board_step.cases; auto)+
    with settled_check_ends [of f S' l t1] Done.prems s 1(6,7) show ?case by simp
  qed
next
  case (Emit e p)
  show ?case
  proof (rule step_ends [OF Emit.prems(3,4)], goal_cases)
    case (1 t1 S1 S')
    have s: "settled t1 (sb S1)"
      using settled_meanwhile [OF 1(1)] Emit.prems pulsing_leaves [of l "Emit e p" 0] by simp
    from 1(5) 1(3) Emit.prems(2) have "prog S' = p" "sb S' = sb S1"
      by (cases rule: board_step.cases; auto)+
    with Emit.IH [of S' t1] Emit.prems s 1(6,7) show ?case by simp
  qed
qed simp

lemma check_ends:
  assumes "less_ends Hardware f (length (queue S)) (train_left l)" "in_time Hardware (t, f, S)"
    and l: "no_score_pulses l" "train_left l > 0" "prog S = iteration Hardware None l"
  shows "ends (board_go Hardware) (t, f, S)"
proof (rule step_ends [OF assms(1,2)], goal_cases)
  case (1 t1 S1 S')
  let ?c = "clock_at t1"
  have S': "S' = S1\<lparr>sb := snd (start_stop_pulse_for ?c (Some False) (sb S1)),
      prog := if fst (start_stop_pulse_for ?c (Some False) (sb S1)) then pulse Io_start (Done l) else min_sec_pulse l\<rparr>"
    using 1(5) 1(3) l(3) by (cases rule: board_step.cases) (auto simp: check_prog [OF l(1,2)])
  show ?case
  proof (cases "fst (start_stop_pulse_for ?c (Some False) (sb S1))")
    case True
    have "settled t1 (sb S')"
      using settled_after_pulse [OF True] 1(2) by (simp add: S' in_time_def)
    with settled_ends [of l "pulse Io_start (Done l)" S' f t1] assms(1) l(1,2) 1(6,7) True show ?thesis
      by (simp add: S' pulse_def)
  next
    case False
    with leaves_min_sec [OF l(1)] have "leaves (train_left l - 1) (prog S')" by (simp add: S')
    from less_endsD [OF assms(1) 1(7) this] 1(6) l(2) show ?thesis by simp
  qed
qed

lemma prog_ends:
  "prog S = p \<Longrightarrow> leaves n p \<Longrightarrow> less_ends b f (length (queue S)) n \<Longrightarrow> in_time b (t, f, S) \<Longrightarrow>
   ends (board_go b) (t, f, S)"
proof (induction p arbitrary: t S)
  case (Done l)
  show ?case
  proof (rule step_ends [OF Done.prems(3,4)], goal_cases)
    case (1 t1 S1 S')
    have l: "no_score_pulses l" "has_pending l \<longleftrightarrow> train_left l > 0"
      using idle_locals [OF Done.prems(4,1)] by simp_all
    from 1(5) 1(3) Done.prems(1) have p: "prog S' = iteration b None l" "train_left l > 0"
      using 1(4,6) l(2) by (cases rule: board_step.cases; auto)+
    have "train_left l \<le> n" using Done.prems(2) by simp
    with Done.prems(3) 1(6) have less: "less_ends b f (length (queue S')) (train_left l)"
      by (auto elim: less_ends_fewer)
    show ?case
    proof (cases b)
      case Hardware
      with check_ends [OF _ _ l(1) p(2), of f S' t1] less 1(7) p(1) show ?thesis by simp
    next
      case Simulate
      then have "prog S' = min_sec_pulse l"
        using p l(1) by (simp add: iteration_def pending_step_def no_score_pulses_def train_left_def)
      with leaves_min_sec [OF l(1)] have "leaves (train_left l - 1) (prog S')" by simp
      from less_endsD [OF less 1(7) this] p(2) show ?thesis by simp
    qed
  qed
next
  case (Emit e p)
  show ?case
  proof (rule step_ends [OF Emit.prems(3,4)], goal_cases)
    case (1 t1 S1 S')
    from 1(5) 1(3) Emit.prems(1) have "prog S' = p" by (cases rule: board_step.cases) auto
    with Emit.IH [of S' t1] Emit.prems 1(6,7) show ?case by simp
  qed
next
  case (Lock g h)
  show ?case
  proof (rule step_ends [OF Lock.prems(3,4)], goal_cases)
    case (1 t1 S1 S')
    from 1(5) 1(3) Lock.prems(1) have "prog S' = h (clock_at t1) (sb S1)"
      by (cases rule: board_step.cases) auto
    with Lock.IH [OF rangeI rangeI, of S' "clock_at t1" "sb S1" t1] Lock.prems 1(6,7) show ?case by simp
  qed
qed

lemma board_ends:
  assumes "in_time b (t, f, S)"
  shows "ends (board_go b) (t, f, S)"
proof -
  have "less_ends b f q n" for f q n
  proof (induction "(f, q, n)" arbitrary: f q n rule: wf_induct_rule [OF wf_lex_prod [OF wf_less_than wf_lex_prod [OF wf_less_than wf_less_than]]])
    case 1
    have "ends (board_go b) (t, f', S)" if "in_time b (t, f', S)" "leaves m (prog S)"
      "f' < f \<or> f' = f \<and> (length (queue S) < q \<or> length (queue S) = q \<and> m < n)" for t f' S m
      by (rule prog_ends [OF refl that(2) _ that(1)], rule 1) (use that(3) in auto)
    then show ?case unfolding less_ends_def by blast
  qed
  then show ?thesis using in_time_ok [OF assms] prog_ends [OF refl _ _ assms] by blast
qed

text \<open>So \<open>board_task\<close> can come to rest at once.\<close>

definition only_board :: "build \<Rightarrow> clock \<Rightarrow> system \<Rightarrow> system \<Rightarrow> bool" where
  "only_board b c = (board_step b c)\<^sup>*\<^sup>*"

lemma only_board_keeps: "only_board b c S T \<Longrightarrow> streams T = streams S"
  unfolding only_board_def by (induction rule: rtranclp_induct) (auto dest: board_step_keeps)

lemma rest_from_here:
  "ends (board_go b) (t, f, S) \<Longrightarrow> \<exists>T. only_board b (clock_at t) S T \<and> at_rest T"
proof (induction "(t, f, S)" arbitrary: S rule: ends_induct)
  case ends
  show ?case
  proof (cases "at_rest S")
    case False
    then obtain S' where S': "board_step b (clock_at t) S S'" using board_can_go by blast
    then have "board_go b (t, f, S) (t, f, S')" by (auto simp: board_go_def)
    from ends(2) [OF this] S' show ?thesis
      by (auto simp: only_board_def intro: converse_rtranclp_into_rtranclp)
  qed (auto simp: only_board_def)
qed

lemma board_rests:
  assumes "reachable b S"
  obtains c T where "only_board b c S T" "at_rest T" "streams T = streams S"
proof -
  let ?t = "case last_change (sb S) of Some u \<Rightarrow> u | None \<Rightarrow> 0"
  have "in_time b (?t, 0, S)" using assms by (simp add: in_time_def)
  from rest_from_here [OF board_ends [OF this]] only_board_keeps that show thesis by blast
qed

section \<open>Systems that run board_task\<close>

text \<open>
  A system with theory \<open>System\<close>'s state in it, read by \<open>core\<close> and replaced by \<open>upd\<close>, that lets \<open>board_task\<close>
  take its steps in every good state.
\<close>

locale board_host =
  fixes b :: build and core :: "'c \<Rightarrow> system" and upd :: "'c \<Rightarrow> system \<Rightarrow> 'c"
    and cstep :: "'c \<Rightarrow> 'c \<Rightarrow> bool" and good :: "'c \<Rightarrow> bool"
  assumes core_upd [simp]: "core (upd x S) = S"
    and upd_core [simp]: "upd x (core x) = x"
    and upd_upd [simp]: "upd (upd x S) T = upd x T"
    and good_reachable: "good x \<Longrightarrow> reachable b (core x)"
    and good_step: "good x \<Longrightarrow> cstep x y \<Longrightarrow> good y"
    and hosts: "good x \<Longrightarrow> board_step b c (core x) S \<Longrightarrow> cstep x (upd x S)"
begin

lemma runs:
  assumes "good x" "only_board b c (core x) S"
  shows "cstep\<^sup>*\<^sup>* x (upd x S) \<and> good (upd x S)"
  using assms(2) unfolding only_board_def
proof (induction rule: rtranclp_induct)
  case base
  then show ?case using assms(1) by simp
next
  case (step S T)
  then have "cstep (upd x S) (upd x T)" using hosts [of "upd x S" c T] by simp
  with step.IH show ?case by (auto intro: rtranclp.rtrancl_into_rtrancl good_step)
qed

lemma rests:
  assumes "good x"
  obtains S where "cstep\<^sup>*\<^sup>* x (upd x S)" "good (upd x S)" "at_rest S" "streams S = streams (core x)"
  using board_rests [OF good_reachable [OF assms]] runs [OF assms] by metis

end

end
