(* ===== verification/Service.thy ===== *)
theory Service
  imports Board_Rest "HOL-Library.Multiset"
begin

text \<open>
  The firmware seen from the phones: the twelve HTTP workers of \<open>src/main.rs\<close> on top of the task
  system of theory \<open>System\<close>, in either build.  A worker that gets a control request sends the command
  into the bounded channel, waiting for room, and then answers \<open>OK\<close>; a status request refreshes the
  run flag and answers with a document; an events request takes one of the four receivers and holds
  the worker.  Requests are the route table's (theory \<open>Http\<close>); connections and the parsing of
  requests are the network stack's and picoserve's.
\<close>

section \<open>Model\<close>

text \<open>\<open>GET /api/status\<close>.\<close>

definition get_status :: "build \<Rightarrow> clock \<Rightarrow> scoreboard \<Rightarrow> scoreboard \<times> status" where
  "get_status b c s = (let s = refresh_running c s in (s, status_of b c s))"

text \<open>
  What a worker is doing: in \<open>cmd.send\<close> of a control handler, or behind it with the answer \<open>OK\<close>
  under way; writing a status document; in an event stream; in a handler that touches nothing of
  the system (the page, the probes, the redirect, an upload, the refusal of a stream).
\<close>

datatype job = Waiting | Sending command | Replying command | Reporting status | Streaming | Serving

text \<open>
  \<open>accepted\<close> and \<open>answered\<close> are history: the commands the channel took, and those whose answer
  reached the phone.  No step reads them.
\<close>

record service =
  sys :: system
  jobs :: "job list"
  accepted :: "command list"
  answered :: "command list"

definition svc_boot :: service where
  "svc_boot = \<lparr>sys = boot, jobs = replicate 12 Waiting, accepted = [], answered = []\<rparr>"

text \<open>
  Rule \<open>dropped\<close>: the connection breaks while the handler waits or the answer is written; the command
  may or may not have been sent.  Rule \<open>own\<close>: every step of \<open>sys_step\<close> that neither posts a command
  nor opens or ends a stream; lemma \<open>svc_own_complete\<close> below says these are all the others.
\<close>

inductive svc_step :: "build \<Rightarrow> bool \<Rightarrow> (string \<Rightarrow> (u8 \<times> u8) option) \<Rightarrow> service \<Rightarrow> service \<Rightarrow> bool"
  for b with_ota segments where
  request: "jobs V = xs @ Waiting # ys \<Longrightarrow> route with_ota segments path = Some (Post, Send cmd) \<Longrightarrow>
    svc_step b with_ota segments V (V\<lparr>jobs := xs @ Sending cmd # ys\<rparr>)"
| sent: "jobs V = xs @ Sending cmd # ys \<Longrightarrow> length (queue (sys V)) < CHANNEL_CAPACITY \<Longrightarrow>
    svc_step b with_ota segments V (V\<lparr>sys := (sys V)\<lparr>queue := queue (sys V) @ [cmd]\<rparr>,
      jobs := xs @ Replying cmd # ys, accepted := accepted V @ [cmd]\<rparr>)"
| replied: "jobs V = xs @ Replying cmd # ys \<Longrightarrow>
    svc_step b with_ota segments V (V\<lparr>jobs := xs @ Waiting # ys, answered := answered V @ [cmd]\<rparr>)"
| dropped: "jobs V = xs @ j # ys \<Longrightarrow> j \<in> {Sending cmd, Replying cmd} \<Longrightarrow>
    svc_step b with_ota segments V (V\<lparr>jobs := xs @ Waiting # ys\<rparr>)"
| status: "jobs V = xs @ Waiting # ys \<Longrightarrow> route with_ota segments path = Some (Get, Status) \<Longrightarrow>
    get_status b c (sb (sys V)) = (s, d) \<Longrightarrow>
    svc_step b with_ota segments V (V\<lparr>sys := (sys V)\<lparr>sb := s\<rparr>, jobs := xs @ Reporting d # ys\<rparr>)"
| events: "jobs V = xs @ Waiting # ys \<Longrightarrow> route with_ota segments path = Some (Get, Events) \<Longrightarrow>
    open_stream (length (streams (sys V))) (sb (sys V)) = Some st \<Longrightarrow>
    svc_step b with_ota segments V
      (V\<lparr>sys := (sys V)\<lparr>streams := streams (sys V) @ [st]\<rparr>, jobs := xs @ Streaming # ys\<rparr>)"
| refused: "jobs V = xs @ Waiting # ys \<Longrightarrow> route with_ota segments path = Some (Get, Events) \<Longrightarrow>
    open_stream (length (streams (sys V))) (sb (sys V)) = None \<Longrightarrow>
    svc_step b with_ota segments V (V\<lparr>jobs := xs @ Serving # ys\<rparr>)"
| other: "jobs V = xs @ Waiting # ys \<Longrightarrow>
    route with_ota segments path \<in> {None, Some (Get, Serve_ui), Some (Get, Apple_probe), Some (Post, Ota_upload)} \<Longrightarrow>
    svc_step b with_ota segments V (V\<lparr>jobs := xs @ Serving # ys\<rparr>)"
| served: "jobs V = xs @ j # ys \<Longrightarrow> j \<in> {Serving, Reporting d} \<Longrightarrow>
    svc_step b with_ota segments V (V\<lparr>jobs := xs @ Waiting # ys\<rparr>)"
| stream_end: "jobs V = xs @ Streaming # ys \<Longrightarrow> streams (sys V) = us @ st # vs \<Longrightarrow>
    svc_step b with_ota segments V (V\<lparr>sys := (sys V)\<lparr>streams := us @ vs\<rparr>, jobs := xs @ Waiting # ys\<rparr>)"
| own: "sys_step b (sys V) S \<Longrightarrow> length (queue S) \<le> length (queue (sys V)) \<Longrightarrow>
    length (streams S) = length (streams (sys V)) \<Longrightarrow> svc_step b with_ota segments V (V\<lparr>sys := S\<rparr>)"

lemma svc_own_complete:
  assumes "sys_step b S S'"
  shows "length (queue S') \<le> length (queue S) \<and> length (streams S') = length (streams S) \<or>
    (\<exists>cmd. S' = S\<lparr>queue := queue S @ [cmd]\<rparr>) \<or>
    (\<exists>st. open_stream (length (streams S)) (sb S) = Some st \<and> S' = S\<lparr>streams := streams S @ [st]\<rparr>) \<or>
    (\<exists>us st vs. streams S = us @ st # vs \<and> S' = S\<lparr>streams := us @ vs\<rparr>)"
  using assms
proof (induction rule: sys_step.induct)
  case (close S xs st ys)
  then show ?case by blast
qed auto

section \<open>The workers and the system\<close>

fun sending_of :: "job \<Rightarrow> command option" where
  "sending_of (Sending cmd) = Some cmd"
| "sending_of _ = None"

fun replying_of :: "job \<Rightarrow> command option" where
  "replying_of (Replying cmd) = Some cmd"
| "replying_of _ = None"

text \<open>The commands workers still hold, and those they have sent but not answered.\<close>

definition unsent :: "service \<Rightarrow> command list" where
  "unsent V = List.map_filter sending_of (jobs V)"

definition unanswered :: "service \<Rightarrow> command list" where
  "unanswered V = List.map_filter replying_of (jobs V)"

lemma map_filter_append: "List.map_filter f (xs @ ys) = List.map_filter f xs @ List.map_filter f ys"
  by (simp add: map_filter_def)

lemmas job_lists = unsent_def unanswered_def map_filter_append map_filter_simps

definition work_inv :: "service \<Rightarrow> bool" where
  "work_inv V \<longleftrightarrow> keeps_score (sys V) (accepted V) \<and>
     length (jobs V) = 12 \<and> count_list (jobs V) Streaming = length (streams (sys V)) \<and>
     mset (answered V) + mset (unanswered V) \<subseteq># mset (accepted V)"

lemma work_inv_boot: "work_inv svc_boot"
proof -
  have "unanswered svc_boot = []" "count_list (jobs svc_boot) Streaming = 0"
    by (simp_all add: job_lists svc_boot_def numeral_eq_Suc)
  moreover have "keeps_score (sys svc_boot) (accepted svc_boot)"
    by (simp add: svc_boot_def keeps_score_boot)
  ultimately show ?thesis
    by (simp add: work_inv_def) (simp add: svc_boot_def boot_def)
qed

text \<open>A worker's new job.\<close>

lemma work_inv_job:
  assumes "work_inv V" "jobs V = xs @ j # ys" "keeps_score S (accepted V @ cs)"
    and "length (streams S) + (if j = Streaming then 1 else 0) =
      length (streams (sys V)) + (if j' = Streaming then 1 else 0)"
    and "mset as + mset (List.map_filter replying_of [j']) \<subseteq># mset cs + mset (List.map_filter replying_of [j])"
  shows "work_inv (V\<lparr>sys := S, jobs := xs @ j' # ys, accepted := accepted V @ cs, answered := answered V @ as\<rparr>)"
proof -
  let ?rest = "mset (answered V) + mset (List.map_filter replying_of (xs @ ys))"
  have "?rest + mset (List.map_filter replying_of [j]) \<subseteq># mset (accepted V)"
    using assms(1,2) by (simp add: work_inv_def job_lists ac_simps split: option.splits)
  then have "?rest + (mset cs + mset (List.map_filter replying_of [j])) \<subseteq># mset (accepted V) + mset cs"
    by (simp add: ac_simps)
  with subset_mset.add_left_mono [OF assms(5)]
  have "?rest + (mset as + mset (List.map_filter replying_of [j'])) \<subseteq># mset (accepted V) + mset cs"
    by (rule subset_mset.order_trans)
  with assms(1-4) show ?thesis
    by (auto simp: work_inv_def job_lists ac_simps split: option.splits if_splits)
qed

text \<open>The same where the channel gets nothing and no answer arrives.\<close>

lemma work_inv_quiet:
  assumes "work_inv V" "jobs V = xs @ j # ys" "replying_of j' = None"
    and "queue S = queue (sys V)" "prog S = prog (sys V)" "home (sb S) = home (sb (sys V))"
      "away (sb S) = away (sb (sys V))"
    and "length (streams S) + (if j = Streaming then 1 else 0) =
      length (streams (sys V)) + (if j' = Streaming then 1 else 0)"
  shows "work_inv (V\<lparr>sys := S, jobs := xs @ j' # ys\<rparr>)"
proof -
  have "keeps_score (sys V) (accepted V)" using assms(1) by (simp add: work_inv_def)
  then have "keeps_score S (accepted V)" using assms(4-7) by (auto elim: keeps_score_cong)
  with work_inv_job [OF assms(1,2), of S "[]" j' "[]"] assms(3,8) show ?thesis
    by (simp add: map_filter_simps)
qed

lemma work_inv_step:
  assumes "svc_step b with_ota segments V V'" "sys_inv b (sys V)" "work_inv V"
  shows "work_inv V'"
  using assms
proof (induction rule: svc_step.induct)
  case (own V S)
  then show ?case
    using sys_step_score [OF own.hyps(1) own.prems(1), of "accepted V"]
    by (simp add: work_inv_def job_lists)
next
  case (sent V xs cmd ys)
  have "keeps_score (sys V) (accepted V)" using sent.prems by (simp add: work_inv_def)
  with work_inv_job [OF sent.prems(2) sent.hyps(1), of _ "[cmd]" "Replying cmd" "[]"] keeps_score_post
  show ?case by (simp add: map_filter_simps)
next
  case (replied V xs cmd ys)
  then have "keeps_score (sys V) (accepted V)" by (simp add: work_inv_def)
  with work_inv_job [OF replied.prems(2) replied.hyps(1), of "sys V" "[]" Waiting "[cmd]"]
  show ?case by (simp add: map_filter_simps)
next
  case (status V xs ys path c s d)
  then have "s = refresh_running c (sb (sys V))" by (simp add: get_status_def Let_def)
  with work_inv_quiet [OF status.prems(2) status.hyps(1)] show ?case by simp
next
  case (events V xs ys path st)
  then show ?case using work_inv_quiet [OF events.prems(2) events.hyps(1)] by simp
next
  case (stream_end V xs ys us st vs)
  then show ?case using work_inv_quiet [OF stream_end.prems(2) stream_end.hyps(1)] by simp
next
  case (request V xs ys path cmd)
  from work_inv_quiet [OF request.prems(2) request.hyps(1), of _ "sys V"] show ?case by simp
next
  case (dropped V xs j ys cmd)
  from work_inv_quiet [OF dropped.prems(2) dropped.hyps(1), of _ "sys V"] dropped.hyps(2) show ?case by auto
next
  case (refused V xs ys path)
  from work_inv_quiet [OF refused.prems(2) refused.hyps(1), of _ "sys V"] show ?case by simp
next
  case (other V xs ys path)
  from work_inv_quiet [OF other.prems(2) other.hyps(1), of _ "sys V"] show ?case by simp
next
  case (served V xs j ys d)
  from work_inv_quiet [OF served.prems(2) served.hyps(1), of _ "sys V"] served.hyps(2) show ?case by auto
qed

section \<open>Refinement, and board_task under the workers\<close>

lemma svc_core_step:
  assumes "svc_step b with_ota segments V V'" "reachable b (sys V)"
  shows "reachable b (sys V')"
  using assms
proof (induction rule: svc_step.induct)
  case (sent V xs cmd ys)
  with reachable.step [OF _ post [of "sys V" b cmd]] show ?case by simp
next
  case (status V xs ys path c s d)
  with reachable.step [OF _ task [of b Refresh "sys V" c]] show ?case
    by (simp add: get_status_def Let_def)
next
  case (events V xs ys path st)
  with reachable.step [OF _ connect [of "sys V" st b]] show ?case by simp
next
  case (stream_end V xs ys us st vs)
  with reachable.step [OF _ close [of "sys V" us st vs b]] show ?case by simp
qed (auto intro: reachable.step)

interpretation svc_sys: refinement svc_boot "svc_step b with_ota segments" sys "reachable b"
  by unfold_locales (auto simp: svc_boot_def reachable.start intro: svc_core_step)

definition svc_inv :: "build \<Rightarrow> service \<Rightarrow> bool" where
  "svc_inv b V \<longleftrightarrow> reachable b (sys V) \<and> work_inv V"

lemma svc_inv_step: "svc_inv b V \<Longrightarrow> svc_step b with_ota segments V V' \<Longrightarrow> svc_inv b V'"
  by (auto simp: svc_inv_def intro: svc_core_step work_inv_step [OF _ reachable_inv])

lemma svc_reaches_inv: "(svc_step b with_ota segments)\<^sup>*\<^sup>* svc_boot V \<Longrightarrow> svc_inv b V"
proof (induction rule: rtranclp_induct)
  case base
  show ?case by (simp add: svc_inv_def work_inv_boot) (simp add: svc_boot_def reachable.start)
qed (rule svc_inv_step)

lemma svc_inv_runs:
  "(svc_step b with_ota segments)\<^sup>*\<^sup>* V V' \<Longrightarrow> svc_inv b V \<Longrightarrow> svc_inv b V'"
  by (induction rule: rtranclp_induct) (auto intro: svc_inv_step)

interpretation svc_host: board_host b sys "\<lambda>V S. V\<lparr>sys := S\<rparr>" "svc_step b with_ota segments" "svc_inv b"
proof unfold_locales
  fix V :: service and c S
  assume "svc_inv b V" "board_step b c (sys V) S"
  then show "svc_step b with_ota segments V (V\<lparr>sys := S\<rparr>)"
    using board_step_keeps [of b c "sys V" S] by (intro own) (simp_all add: board_step_sys)
qed (auto simp: svc_inv_def reachable_inv intro: svc_core_step work_inv_step [OF _ reachable_inv])

section \<open>The requests under way\<close>

text \<open>
  What is left to do when no further request comes and no connection breaks, at time \<open>t\<close>: a step of
  \<open>board_task\<close>, a command sent, an answer written.
\<close>

inductive svc_act :: "build \<Rightarrow> instant \<Rightarrow> service \<Rightarrow> service \<Rightarrow> bool" for b t where
  a_board: "board_step b (clock_at t) (sys V) S \<Longrightarrow> svc_act b t V (V\<lparr>sys := S\<rparr>)"
| a_sent: "jobs V = xs @ Sending cmd # ys \<Longrightarrow> length (queue (sys V)) < CHANNEL_CAPACITY \<Longrightarrow>
    svc_act b t V (V\<lparr>sys := (sys V)\<lparr>queue := queue (sys V) @ [cmd]\<rparr>,
      jobs := xs @ Replying cmd # ys, accepted := accepted V @ [cmd]\<rparr>)"
| a_replied: "jobs V = xs @ Replying cmd # ys \<Longrightarrow>
    svc_act b t V (V\<lparr>jobs := xs @ Waiting # ys, answered := answered V @ [cmd]\<rparr>)"

text \<open>One of these, after time has passed and other tasks have run their sections (theory \<open>Board_Rest\<close>).\<close>

inductive svc_go :: "build \<Rightarrow> instant \<times> nat \<times> service \<Rightarrow> instant \<times> nat \<times> service \<Rightarrow> bool" for b where
  svc_goI: "(elsewhere b)\<^sup>*\<^sup>* (t, f, sys V) (t', f', S) \<Longrightarrow> svc_act b t' (V\<lparr>sys := S\<rparr>) V' \<Longrightarrow>
    svc_go b (t, f, V) (t', f', V')"

inductive_cases svc_goE: "svc_go b (t, f, V) x"

definition svc_in_time :: "build \<Rightarrow> instant \<times> nat \<times> service \<Rightarrow> bool" where
  "svc_in_time b x \<longleftrightarrow> (case x of (t, f, V) \<Rightarrow> svc_inv b V \<and> in_time b (t, f, sys V))"

text \<open>These are steps of the firmware.\<close>

lemma svc_elsewhere:
  assumes "(elsewhere b)\<^sup>*\<^sup>* (t, f, S) (t', f', S')" "sys V = S"
  shows "(svc_step b with_ota segments)\<^sup>*\<^sup>* V (V\<lparr>sys := S'\<rparr>)"
  using assms
proof (induction rule: run_induct)
  case (step t1 f1 S1 t2 f2 S2)
  from step.hyps(2) have "S2 = S1 \<or> svc_step b with_ota segments (V\<lparr>sys := S1\<rparr>) (V\<lparr>sys := S2\<rparr>)"
  proof (cases rule: elsewhere.cases)
    case (e_task a)
    have "svc_step b with_ota segments (V\<lparr>sys := S1\<rparr>) (V\<lparr>sys := S1\<rparr>\<lparr>sys := S2\<rparr>)"
      by (rule own) (use e_task task [of b a S1 "clock_at t1"] in simp_all)
    then show ?thesis by simp
  qed simp
  with step.IH [OF step.prems] show ?case by auto
next
  case refl
  then have "V\<lparr>sys := S\<rparr> = V" by auto
  then show ?case by simp
qed

lemma svc_act_step: "svc_act b t V V' \<Longrightarrow> svc_step b with_ota segments V V'"
proof (induction rule: svc_act.induct)
  case (a_board V S)
  then show ?case using board_step_keeps [OF a_board] by (intro own) (simp_all add: board_step_sys)
qed (auto intro: sent replied)

lemma svc_go_steps:
  "svc_go b (t, f, V) (t', f', V') \<Longrightarrow> (svc_step b with_ota segments)\<^sup>*\<^sup>* V V'"
  by (erule svc_goE) (blast intro: rtranclp.rtrancl_into_rtrancl svc_elsewhere svc_act_step)

lemma svc_act_in_time: "svc_act b t V V' \<Longrightarrow> in_time b (t, f, sys V) \<Longrightarrow> in_time b (t, f, sys V')"
proof (induction rule: svc_act.induct)
  case (a_sent V xs cmd ys)
  then show ?case using reachable.step [OF _ post [of "sys V" b cmd]] by (simp add: in_time_def)
qed (auto intro: in_time_step)

lemma svc_in_time_go:
  assumes "svc_go b x y" "svc_in_time b x"
  shows "svc_in_time b y"
  using assms(1)
proof (cases rule: svc_go.cases)
  case (svc_goI t f V t' f' S V')
  have "in_time b (t', f', S)"
    using elsewhere_keeps [OF svc_goI(3)] assms(2) svc_goI(1) by (simp add: svc_in_time_def)
  with svc_act_in_time [OF svc_goI(4)] have "in_time b (t', f', sys V')" by simp
  moreover have "svc_inv b V'"
    using svc_inv_runs [OF svc_go_steps [of b t f V t' f' V' True "\<lambda>_. None"]] assms svc_goI(1,2)
    by (simp add: svc_in_time_def)
  ultimately show ?thesis using svc_goI(2) by (simp add: svc_in_time_def)
qed

text \<open>They end: a command is sent and answered once, and in between \<open>board_task\<close> ends.\<close>

lemma svc_board_ends:
  assumes "ends (board_go b) x" "x = (t, f, sys V)" "svc_in_time b (t, f, V)"
    and others: "\<And>t' f' V'. svc_in_time b (t', f', V') \<Longrightarrow>
      length (unsent V') < length (unsent V) \<or>
      length (unsent V') = length (unsent V) \<and> length (unanswered V') < length (unanswered V) \<Longrightarrow>
      ends (svc_go b) (t', f', V')"
  shows "ends (svc_go b) (t, f, V)"
  using assms
proof (induction arbitrary: t f V rule: ends_induct)
  case (ends x)
  show ?case
  proof (rule endsI)
    fix y assume go: "svc_go b (t, f, V) y"
    with ends.prems(2) have good: "svc_in_time b y" by (blast intro: svc_in_time_go)
    from go obtain t' f' S V' where y: "y = (t', f', V')" and
      pause: "(elsewhere b)\<^sup>*\<^sup>* (t, f, sys V) (t', f', S)" and act: "svc_act b t' (V\<lparr>sys := S\<rparr>) V'"
      by (rule svc_goE) blast
    from act show "ends (svc_go b) y"
    proof (cases rule: svc_act.cases)
      case (a_board S')
      then have b: "board_go b x (t', f', S')" using pause ends.prems(1) by (auto simp: board_go_def)
      have V': "sys V' = S'" "unsent V' = unsent V" "unanswered V' = unanswered V"
        using a_board by (simp_all add: job_lists)
      show ?thesis unfolding y
        by (rule ends.IH [OF b]) (use V' ends.prems(3) good y in simp_all)
    next
      case (a_sent xs cmd ys)
      then have "length (unsent V') < length (unsent V)" by (simp add: job_lists)
      with ends.prems(3) good y show ?thesis by blast
    next
      case (a_replied xs cmd ys)
      then have "length (unsent V') = length (unsent V)" "length (unanswered V') < length (unanswered V)"
        by (simp_all add: job_lists)
      with ends.prems(3) good y show ?thesis by blast
    qed
  qed
qed

lemma svc_ends: "svc_in_time b (t, f, V) \<Longrightarrow> ends (svc_go b) (t, f, V)"
proof (induction "(length (unsent V), length (unanswered V))" arbitrary: t f V
    rule: wf_induct_rule [OF wf_lex_prod [OF wf_less_than wf_less_than]])
  case 1
  have "in_time b (t, f, sys V)" using 1(2) by (simp add: svc_in_time_def)
  from svc_board_ends [OF board_ends [OF this] refl 1(2)] 1(1) show ?case by auto
qed

text \<open>Where no such step is possible, everything is done.\<close>

lemma map_filter_split:
  "List.map_filter f zs \<noteq> [] \<Longrightarrow> \<exists>xs z ys v. zs = xs @ z # ys \<and> f z = Some v"
proof (induction zs)
  case (Cons z zs)
  show ?case
  proof (cases "f z")
    case None
    with Cons obtain xs w ys v where "z # zs = (z # xs) @ w # ys" "f w = Some v"
      by (auto simp: map_filter_simps)
    then show ?thesis by blast
  next
    case (Some w)
    then show ?thesis by (intro exI [of _ "[]"]) auto
  qed
qed (simp add: map_filter_simps)

lemma svc_stuck:
  assumes "\<not> (\<exists>y. svc_go b (t, f, V) y)"
  shows "at_rest (sys V)" "unsent V = []" "unanswered V = []"
proof -
  have stuck: "\<not> svc_act b t V V'" for V'
    using assms svc_goI [of b t f V t f "sys V" V'] by (metis rtranclp.rtrancl_refl service.surjective service.update_convs(1))
  show rest: "at_rest (sys V)" using board_can_go a_board stuck by blast
  show "unsent V = []"
  proof (rule ccontr)
    assume "unsent V \<noteq> []"
    then obtain xs j ys cmd where "jobs V = xs @ j # ys" "sending_of j = Some cmd"
      unfolding unsent_def using map_filter_split by metis
    then have "jobs V = xs @ Sending cmd # ys" by (cases j) auto
    from a_sent [OF this, of b t] rest stuck show False by (simp add: at_rest_def CHANNEL_CAPACITY_def)
  qed
  show "unanswered V = []"
  proof (rule ccontr)
    assume "unanswered V \<noteq> []"
    then obtain xs j ys cmd where "jobs V = xs @ j # ys" "replying_of j = Some cmd"
      unfolding unanswered_def using map_filter_split by metis
    then have "jobs V = xs @ Replying cmd # ys" by (cases j) auto
    from a_replied [OF this] stuck show False by blast
  qed
qed

text \<open>On the way no command and no answer is lost or made up, and the streams stay.\<close>

definition same_requests :: "service \<Rightarrow> service \<Rightarrow> bool" where
  "same_requests V V' \<longleftrightarrow> mset (accepted V') + mset (unsent V') = mset (accepted V) + mset (unsent V) \<and>
     mset (answered V') + mset (unanswered V') + mset (unsent V') =
       mset (answered V) + mset (unanswered V) + mset (unsent V) \<and>
     length (streams (sys V')) = length (streams (sys V))"

lemma same_requests_go: "svc_go b (t, f, V) (t', f', V') \<Longrightarrow> same_requests V V'"
proof (erule svc_goE, clarify)
  fix S
  assume "(elsewhere b)\<^sup>*\<^sup>* (t, f, sys V) (t', f', S)" and act: "svc_act b t' (V\<lparr>sys := S\<rparr>) V'"
  then have "streams S = streams (sys V)" using elsewhere_keeps by blast
  with act show "same_requests V V'"
    by (cases rule: svc_act.cases)
      (auto simp: same_requests_def job_lists ac_simps dest: board_step_keeps)
qed

lemma same_requests_run: "(svc_go b)\<^sup>*\<^sup>* (t, f, V) (t', f', V') \<Longrightarrow> same_requests V V'"
proof (induction rule: run_induct)
  case (step t1 f1 V1 t2 f2 V2)
  with same_requests_go [OF step.hyps(2)] show ?case by (simp add: same_requests_def)
qed (simp add: same_requests_def)

lemma svc_in_time_run: "(svc_go b)\<^sup>*\<^sup>* x y \<Longrightarrow> svc_in_time b x \<Longrightarrow> svc_in_time b y"
  by (induction rule: rtranclp_induct) (auto intro: svc_in_time_go)

lemma svc_scores:
  assumes "svc_inv b V" "prog (sys V) = Done l" "queue (sys V) = []"
  shows "(uint (home (sb (sys V))), uint (away (sb (sys V)))) = fold score_spec (accepted V) (0, 0)"
  using assms by (auto simp: svc_inv_def work_inv_def keeps_score_def)

section \<open>Properties\<close>

text \<open>C1: what the buttons on the phones did: whenever \<open>board_task\<close> is between two commands and the
  channel is empty, the answer to a status request and the pulses sent to the physical scoreboard
  both give the scores of a score keeper who took the commands in the order in which the channel
  accepted them, in either build and however the twelve workers and the other tasks interleave; and
  every command whose phone was told \<open>OK\<close> is among them.\<close>

theorem service_shows_commands:
  assumes "(svc_step b with_ota segments)\<^sup>*\<^sup>* svc_boot V" "prog (sys V) = Done l" "queue (sys V) = []"
  shows "replay (trace (sys V)) (0, 0) = fold score_spec (accepted V) (0, 0) \<and>
    (uint (st_home (snd (get_status b c (sb (sys V))))), uint (st_away (snd (get_status b c (sb (sys V)))))) =
      fold score_spec (accepted V) (0, 0) \<and>
    mset (answered V) \<subseteq># mset (accepted V)"
proof -
  have inv: "svc_inv b V" using assms(1) by (rule svc_reaches_inv)
  note scores = svc_scores [OF this assms(2,3)]
  have "replay (trace (sys V)) (0, 0) = (uint (home (sb (sys V))), uint (away (sb (sys V))))"
    using idle_scores_mirror [OF svc_sys.reaches [OF assms(1)] assms(2)] .
  moreover have "mset (answered V) \<subseteq># mset (accepted V)"
    using inv by (auto simp: svc_inv_def work_inv_def intro: subset_mset.order_trans [rotated])
  ultimately show ?thesis using scores by (simp add: get_status_def status_of_def Let_def)
qed

text \<open>A worker takes a control request, and its phone gets the answer.\<close>

lemma takes_request:
  assumes "jobs V = Waiting # ys" "route with_ota segments path = Some (Post, Send cmd)"
    "length (queue (sys V)) < CHANNEL_CAPACITY"
  shows "(svc_step b with_ota segments)\<^sup>*\<^sup>* V (V\<lparr>sys := (sys V)\<lparr>queue := queue (sys V) @ [cmd]\<rparr>,
    accepted := accepted V @ [cmd], answered := answered V @ [cmd]\<rparr>)"
proof -
  let ?V1 = "V\<lparr>jobs := Sending cmd # ys\<rparr>"
  let ?V2 = "?V1\<lparr>sys := (sys V)\<lparr>queue := queue (sys V) @ [cmd]\<rparr>, jobs := Replying cmd # ys,
    accepted := accepted V @ [cmd]\<rparr>"
  let ?V3 = "?V2\<lparr>jobs := Waiting # ys, answered := answered V @ [cmd]\<rparr>"
  have "svc_step b with_ota segments V ?V1"
    using request [of V "[]" ys with_ota segments path cmd] assms(1,2) by simp
  moreover have "svc_step b with_ota segments ?V1 ?V2"
    using sent [of ?V1 "[]" cmd ys] assms(3) by simp
  moreover have "svc_step b with_ota segments ?V2 ?V3"
    using replied [of ?V2 "[]" cmd ys] by simp
  moreover have "?V3 = V\<lparr>sys := (sys V)\<lparr>queue := queue (sys V) @ [cmd]\<rparr>,
    accepted := accepted V @ [cmd], answered := answered V @ [cmd]\<rparr>"
    using assms(1) by (cases V) simp
  ultimately show ?thesis by (metis (no_types, lifting) rtranclp.simps)
qed

lemma svc_boot_jobs: "jobs svc_boot = Waiting # replicate 11 Waiting"
  by (simp add: svc_boot_def numeral_eq_Suc)

theorem service_shows_commands_witness:
  "\<exists>V l. (svc_step Simulate True (\<lambda>_. None))\<^sup>*\<^sup>* svc_boot V \<and> prog (sys V) = Done l \<and>
     queue (sys V) = [] \<and> answered V = [HomeInc, AwayInc] \<and> replay (trace (sys V)) (0, 0) = (1, 1) \<and>
     uint (st_home (snd (get_status Simulate some_clock (sb (sys V))))) = 1"
proof -
  let ?step = "svc_step Simulate True (\<lambda>_. None)"
  have routes: "route True (\<lambda>_. None) ''/api/ctrl/home-inc'' = Some (Post, Send HomeInc)"
    "route True (\<lambda>_. None) ''/api/ctrl/away-inc'' = Some (Post, Send AwayInc)"
    by (simp_all add: route_def routes_def)
  define V where "V = svc_boot\<lparr>sys := boot\<lparr>queue := [HomeInc, AwayInc]\<rparr>,
    accepted := [HomeInc, AwayInc], answered := [HomeInc, AwayInc]\<rparr>"
  have "?step\<^sup>*\<^sup>* svc_boot (svc_boot\<lparr>sys := boot\<lparr>queue := [HomeInc]\<rparr>, accepted := [HomeInc], answered := [HomeInc]\<rparr>)"
    (is "?step\<^sup>*\<^sup>* _ ?W")
    using takes_request [OF svc_boot_jobs routes(1), of Simulate]
    by (simp add: svc_boot_def boot_def CHANNEL_CAPACITY_def)
  moreover have "?step\<^sup>*\<^sup>* ?W V"
    using takes_request [of ?W, OF _ routes(2), of "replicate 11 Waiting" Simulate] svc_boot_jobs
    by (simp add: V_def svc_boot_def boot_def CHANNEL_CAPACITY_def)
  ultimately have V: "?step\<^sup>*\<^sup>* svc_boot V" by (rule rtranclp_trans)
  obtain S l where S: "?step\<^sup>*\<^sup>* V (V\<lparr>sys := S\<rparr>)" "prog S = Done l" "queue S = []"
    using svc_host.rests [OF svc_reaches_inv [OF V], of True "\<lambda>_. None"] unfolding at_rest_def by metis
  have "?step\<^sup>*\<^sup>* svc_boot (V\<lparr>sys := S\<rparr>)" using V S(1) by (rule rtranclp_trans)
  with service_shows_commands [OF this, of l some_clock] S(2,3) show ?thesis
    by (intro exI [of _ "V\<lparr>sys := S\<rparr>"] exI [of _ l]) (simp add: V_def)
qed

text \<open>C9: every request under way is answered and nothing gets stuck.  From every reachable state, at a
  time not before the last change of the clock, with no further request and no broken connection:
  however time passes and the tasks interleave, only finitely many steps of \<open>board_task\<close>, of sending
  and of answering follow, as long as, while a set-timer train runs, only finitely many frames (\<open>f\<close>,
  any number) show a new time.  And when no such step is possible any more, every command held by a
  worker was accepted once, every control request answered once, \<open>board_task\<close> waits with no pulse
  owed, and the scores are what the accepted commands ask for.\<close>

theorem service_answers_all:
  assumes "(svc_step b with_ota segments)\<^sup>*\<^sup>* svc_boot V" "\<forall>u. last_change (sb (sys V)) = Some u \<longrightarrow> u \<le> t"
  shows "\<not> (\<exists>run. run 0 = (t, f, V) \<and> (\<forall>i. svc_go b (run i) (run (Suc i)))) \<and>
    (\<forall>t' f' V'. (svc_go b)\<^sup>*\<^sup>* (t, f, V) (t', f', V') \<and> \<not> (\<exists>y. svc_go b (t', f', V') y) \<longrightarrow>
      unsent V' = [] \<and> unanswered V' = [] \<and> mset (accepted V') = mset (accepted V) + mset (unsent V) \<and>
      mset (answered V') = mset (answered V) + mset (unanswered V) + mset (unsent V) \<and>
      (\<exists>l. prog (sys V') = Done l \<and> \<not> has_pending l) \<and> queue (sys V') = [] \<and>
      (uint (home (sb (sys V'))), uint (away (sb (sys V')))) = fold score_spec (accepted V') (0, 0))"
proof (intro conjI allI impI)
  have "svc_inv b V" using assms(1) by (rule svc_reaches_inv)
  then have good: "svc_in_time b (t, f, V)" using assms(2) by (simp add: svc_in_time_def in_time_def svc_inv_def)
  show "\<not> (\<exists>run. run 0 = (t, f, V) \<and> (\<forall>i. svc_go b (run i) (run (Suc i))))"
    using svc_ends [OF good] by (rule ends_no_run)
  fix t' f' V'
  assume V': "(svc_go b)\<^sup>*\<^sup>* (t, f, V) (t', f', V') \<and> \<not> (\<exists>y. svc_go b (t', f', V') y)"
  then have "same_requests V V'" "svc_inv b V'"
    using same_requests_run svc_in_time_run [OF _ good] by (auto simp: svc_in_time_def)
  with svc_stuck [of b t' f' V'] svc_scores [of b V'] V' show
    "unsent V' = []" "unanswered V' = []" "mset (accepted V') = mset (accepted V) + mset (unsent V)"
    "mset (answered V') = mset (answered V) + mset (unanswered V) + mset (unsent V)"
    "\<exists>l. prog (sys V') = Done l \<and> \<not> has_pending l" "queue (sys V') = []"
    "(uint (home (sb (sys V'))), uint (away (sb (sys V')))) = fold score_spec (accepted V') (0, 0)"
    by (auto simp: same_requests_def at_rest_def)
qed

lemma reaches_stuck: "ends r x \<Longrightarrow> \<exists>y. r\<^sup>*\<^sup>* x y \<and> \<not> (\<exists>z. r y z)"
proof (induction rule: ends_induct)
  case (ends x)
  show ?case
  proof (cases "\<exists>y. r x y")
    case True
    then obtain y where "r x y" by blast
    with ends(2) [OF this] show ?thesis by (blast intro: converse_rtranclp_into_rtranclp)
  qed blast
qed

text \<open>Eight quick requests fill the channel before \<open>board_task\<close> takes the first command.\<close>

lemma fills_channel:
  "n \<le> 8 \<Longrightarrow> (svc_step b True segments)\<^sup>*\<^sup>* svc_boot (svc_boot\<lparr>sys := boot\<lparr>queue := replicate n HomeInc\<rparr>,
     accepted := replicate n HomeInc, answered := replicate n HomeInc\<rparr>)"
proof (induction n)
  case 0
  have "svc_boot\<lparr>sys := boot\<lparr>queue := []\<rparr>, accepted := [], answered := []\<rparr> = svc_boot"
    by (simp add: svc_boot_def boot_def)
  then show ?case by simp
next
  case (Suc n)
  let ?V = "svc_boot\<lparr>sys := boot\<lparr>queue := replicate n HomeInc\<rparr>,
    accepted := replicate n HomeInc, answered := replicate n HomeInc\<rparr>"
  have "route True segments ''/api/ctrl/home-inc'' = Some (Post, Send HomeInc)"
    by (simp add: route_def routes_def)
  from takes_request [of ?V, OF _ this, of "replicate 11 Waiting" b] Suc.prems
  have "(svc_step b True segments)\<^sup>*\<^sup>* ?V (svc_boot\<lparr>sys := boot\<lparr>queue := replicate n HomeInc @ [HomeInc]\<rparr>,
    accepted := replicate n HomeInc @ [HomeInc], answered := replicate n HomeInc @ [HomeInc]\<rparr>)"
    by (simp add: svc_boot_jobs CHANNEL_CAPACITY_def)
  with Suc show ?case by (auto simp: replicate_append_same intro: rtranclp_trans)
qed

theorem service_answers_all_witness:
  "\<exists>V t' f' V'. (svc_step Hardware True (\<lambda>_. Some (20, 0)))\<^sup>*\<^sup>* svc_boot V \<and> length (queue (sys V)) = 8 \<and>
     unsent V = [SetTimer 20 0] \<and> \<not> (\<exists>run. run 0 = (0, 3, V) \<and> (\<forall>i. svc_go Hardware (run i) (run (Suc i)))) \<and>
     (svc_go Hardware)\<^sup>*\<^sup>* (0, 3, V) (t', f', V') \<and> queue (sys V') = [] \<and>
     mset (answered V') = mset (SetTimer 20 0 # replicate 8 HomeInc) \<and> uint (home (sb (sys V'))) = 8"
proof -
  let ?step = "svc_step Hardware True (\<lambda>_. Some (20, 0))" and ?set = "SetTimer 20 0"
  define W where "W = svc_boot\<lparr>sys := boot\<lparr>queue := replicate 8 HomeInc\<rparr>,
    accepted := replicate 8 HomeInc, answered := replicate 8 HomeInc\<rparr>"
  define V where "V = W\<lparr>jobs := Sending ?set # replicate 11 Waiting\<rparr>"
  have "?step W V"
    using request [of W "[]" "replicate 11 Waiting" True "\<lambda>_. Some (20, 0)" "''/api/timer/set/20/0''" ?set Hardware]
    by (simp add: W_def V_def svc_boot_jobs route_def routes_def)
  moreover have "?step\<^sup>*\<^sup>* svc_boot W" using fills_channel [of 8 Hardware "\<lambda>_. Some (20, 0)"] by (simp add: W_def)
  ultimately have V: "?step\<^sup>*\<^sup>* svc_boot V" by (rule rtranclp.rtrancl_into_rtrancl [rotated])
  have q: "length (queue (sys V)) = 8" "unsent V = [?set]" "unanswered V = []" "last_change (sb (sys V)) = None"
      "accepted V = replicate 8 HomeInc" "answered V = replicate 8 HomeInc"
    by (simp_all add: V_def W_def job_lists numeral_eq_Suc boot_def default_scoreboard_def)
  have "svc_in_time Hardware (0, 3, V)"
    using svc_reaches_inv [OF V] q(4) by (simp add: svc_in_time_def in_time_def svc_inv_def)
  from reaches_stuck [OF svc_ends [OF this]] obtain t' f' V' where
    stuck: "(svc_go Hardware)\<^sup>*\<^sup>* (0, 3, V) (t', f', V')" "\<not> (\<exists>y. svc_go Hardware (t', f', V') y)" by auto
  have "\<forall>u. last_change (sb (sys V)) = Some u \<longrightarrow> u \<le> 0" using q(4) by simp
  note * = service_answers_all [OF V this, of 3]
  from * stuck have fin: "mset (accepted V') = mset (accepted V) + mset (unsent V)"
    "mset (answered V') = mset (answered V) + mset (unanswered V) + mset (unsent V)" "queue (sys V') = []"
    "(uint (home (sb (sys V'))), uint (away (sb (sys V')))) = fold score_spec (accepted V') (0, 0)"
    by blast+
  have home: "fst (fold score_spec cs (h, a)) = min 99 (h + int (count_list cs HomeInc))"
    if "set cs \<subseteq> {HomeInc, ?set}" "h \<le> 99" for cs h a
    using that by (induction cs arbitrary: h) auto
  have acc: "mset (accepted V') = mset (?set # replicate 8 HomeInc)" using fin(1) q by simp
  then have "set (accepted V') \<subseteq> {HomeInc, ?set}" by (metis acc set_mset_mset subsetI set_ConsD in_set_replicate insertI1 insertI2)
  moreover have "count_list (accepted V') HomeInc = 8"
    using arg_cong [OF acc, of "\<lambda>m. count m HomeInc"] by (simp add: count_mset)
  ultimately have "uint (home (sb (sys V'))) = 8"
    using home [of "accepted V'" 0 0] by (simp flip: fin(4))
  with V q stuck * fin show ?thesis by (intro exI [of _ V] exI [of _ t'] exI [of _ f'] exI [of _ V']) simp
qed

lemma count_others: "length (filter (\<lambda>x. x \<noteq> a) xs) + count_list xs a = length xs"
  by (induction xs) auto

text \<open>C38: phones that watch do not lock out phones that press: at most four of the twelve workers
  hold an event stream, so eight are always left for every other request, and a further stream is
  refused exactly when four are open.\<close>

theorem workers_left:
  assumes "(svc_step b with_ota segments)\<^sup>*\<^sup>* svc_boot V"
  shows "length (filter (\<lambda>j. j \<noteq> Streaming) (jobs V)) \<ge> 8 \<and>
    (open_stream (length (streams (sys V))) (sb (sys V)) = None \<longleftrightarrow>
      length (filter (\<lambda>j. j \<noteq> Streaming) (jobs V)) = 8)"
proof -
  have "svc_inv b V" using assms by (rule svc_reaches_inv)
  then have work: "length (jobs V) = 12" "count_list (jobs V) Streaming = length (streams (sys V))"
    by (simp_all add: svc_inv_def work_inv_def)
  have "length (streams (sys V)) \<le> 4"
    using reachable_inv [OF svc_sys.reaches [OF assms]] by (simp add: sys_inv_def MAX_EVENT_STREAMS_def)
  with work count_others [of Streaming "jobs V"] show ?thesis by (auto simp: open_stream_def MAX_EVENT_STREAMS_def)
qed

theorem workers_left_witness:
  "\<exists>V. (svc_step Hardware True (\<lambda>_. None))\<^sup>*\<^sup>* svc_boot V \<and> jobs V = Streaming # replicate 11 Waiting \<and>
     length (filter (\<lambda>j. j \<noteq> Streaming) (jobs V)) \<ge> 8"
proof -
  obtain st where st: "open_stream (length (streams (sys svc_boot))) (sb (sys svc_boot)) = Some st"
    by (simp add: open_stream_def MAX_EVENT_STREAMS_def svc_boot_def boot_def)
  have "svc_step Hardware True (\<lambda>_. None) svc_boot (svc_boot\<lparr>sys := (sys svc_boot)\<lparr>streams := streams (sys svc_boot) @ [st]\<rparr>,
    jobs := Streaming # replicate 11 Waiting\<rparr>)" (is "svc_step _ _ _ _ ?V")
    using events [of svc_boot "[]" "replicate 11 Waiting" True "\<lambda>_. None" "''/api/events''" st Hardware] st
    by (simp add: svc_boot_jobs route_def routes_def)
  then have "(svc_step Hardware True (\<lambda>_. None))\<^sup>*\<^sup>* svc_boot ?V" by blast
  with workers_left [OF this] show ?thesis by (intro exI [of _ ?V]) simp
qed

end
