(* ===== verification/Dhcp_Proto.thy ===== *)
theory Dhcp_Proto
  imports Prelude
begin

text \<open>
  The DHCP half of \<open>src/net_proto.rs\<close> except the lease table: reading options of a
  request, writing the fixed reply, and the round trip between the two.
\<close>

section \<open>Constants\<close>

definition SERVER_IP :: bytes where "SERVER_IP = [192, 168, 0, 1]"
definition POOL_START :: u8 where "POOL_START = 10"
definition POOL_SIZE :: u8 where "POOL_SIZE = 8"
definition DHCP_MAGIC :: bytes where "DHCP_MAGIC = [99, 130, 83, 99]"
definition DHCP_DISCOVER :: u8 where "DHCP_DISCOVER = 1"
definition DHCP_OFFER :: u8 where "DHCP_OFFER = 2"
definition DHCP_REQUEST :: u8 where "DHCP_REQUEST = 3"
definition DHCP_ACK :: u8 where "DHCP_ACK = 5"
definition DHCP_NAK :: u8 where "DHCP_NAK = 6"

lemmas dhcp_consts =
  SERVER_IP_def POOL_START_def POOL_SIZE_def DHCP_MAGIC_def DHCP_DISCOVER_def DHCP_OFFER_def
  DHCP_REQUEST_def DHCP_ACK_def DHCP_NAK_def

definition offered_ip :: "u8 \<Rightarrow> bytes" where
  "offered_ip slot = [192, 168, 0, POOL_START + slot]"

section \<open>Reading options\<close>

function find_option_loop :: "bytes \<Rightarrow> u8 \<Rightarrow> nat \<Rightarrow> bytes option rs" where
  "find_option_loop packet code i =
     (if i < length packet then do {
        c \<leftarrow> idx packet i;
        if c = 0 then find_option_loop packet code (i + 1)
        else if c = 255 then ret None
        else if i + 1 \<ge> length packet then ret None
        else do {
          b \<leftarrow> idx packet (i + 1);
          let len = unat b;
          let start = i + 2;
          let stop = start + len;
          if stop > length packet then ret None
          else if c = code then do { v \<leftarrow> slice_of packet start stop; ret (Some v) }
          else find_option_loop packet code stop
        }
      } else ret None)"
  by pat_completeness auto
termination
  by (relation "measure (\<lambda>(packet, code, i). length packet - i)") auto

declare find_option_loop.simps [simp del]

definition find_option :: "bytes \<Rightarrow> u8 \<Rightarrow> bytes option rs" where
  "find_option packet code =
     (if length packet < 240 then ret None
      else do {
        magic \<leftarrow> slice_of packet 236 240;
        if magic \<noteq> DHCP_MAGIC then ret None
        else find_option_loop packet code 240
      })"

definition dhcp_msg_type :: "bytes \<Rightarrow> u8 option rs" where
  "dhcp_msg_type packet = do {
     v \<leftarrow> find_option packet 53;
     ret (case v of None \<Rightarrow> None | Some [] \<Rightarrow> None | Some (x # _) \<Rightarrow> Some x)
   }"

text \<open>\<open>try_into().ok()\<close> of a slice to \<open>[u8; 4]\<close>.\<close>

definition requested_ip :: "bytes \<Rightarrow> bytes option rs" where
  "requested_ip packet = do {
     v \<leftarrow> find_option packet 50;
     ret (case v of None \<Rightarrow> None | Some v \<Rightarrow> if length v = 4 then Some v else None)
   }"

section \<open>Writing the reply\<close>

definition CAPTIVE_URI :: bytes where "CAPTIVE_URI = ascii ''http://192.168.0.1/''"

text \<open>The closure \<open>push\<close>: one option, unless it would reach the end of the buffer.\<close>

definition push_option :: "u8 \<Rightarrow> bytes \<Rightarrow> nat \<times> bytes \<Rightarrow> (nat \<times> bytes) rs" where
  "push_option code data = (\<lambda>(i, out).
     if i + 2 + length data \<ge> length out then ret (i, out)
     else do {
       out \<leftarrow> put out i code;
       out \<leftarrow> put out (i + 1) (of_nat (length data));
       out \<leftarrow> copy_into out (i + 2) (i + 2 + length data) data;
       ret (i + 2 + length data, out)
     })"

text \<open>The result and the buffer as the call leaves it.\<close>

definition write_offer_or_ack :: "bytes \<Rightarrow> bytes \<Rightarrow> bytes \<Rightarrow> u8 \<Rightarrow> (nat option \<times> bytes) rs" where
  "write_offer_or_ack req out yiaddr msg_type =
     (if length req < 240 \<or> length out < 360 then ret (None, out)
      else do {
        out \<leftarrow> fill_range out 0 240 0;
        out \<leftarrow> put out 0 2;
        out \<leftarrow> put out 1 1;
        out \<leftarrow> put out 2 6;
        xid \<leftarrow> slice_of req 4 8;
        out \<leftarrow> copy_into out 4 8 xid;
        out \<leftarrow> (if msg_type \<noteq> DHCP_NAK then copy_into out 16 20 yiaddr else ret out);
        out \<leftarrow> copy_into out 20 24 SERVER_IP;
        chaddr \<leftarrow> slice_of req 28 44;
        out \<leftarrow> copy_into out 28 44 chaddr;
        out \<leftarrow> copy_into out 236 240 DHCP_MAGIC;
        p \<leftarrow> push_option 53 [msg_type] (240, out);
        p \<leftarrow> push_option 54 SERVER_IP p;
        (i, out) \<leftarrow> (if msg_type \<noteq> DHCP_NAK then do {
             p \<leftarrow> push_option 1 [255, 255, 255, 0] p;
             p \<leftarrow> push_option 3 SERVER_IP p;
             p \<leftarrow> push_option 6 SERVER_IP p;
             p \<leftarrow> push_option 51 [0, 1, 81, 128] p;
             p \<leftarrow> push_option 28 [192, 168, 0, 255] p;
             p \<leftarrow> push_option 15 (ascii ''lan'') p;
             p \<leftarrow> push_option 114 CAPTIVE_URI p;
             push_option 160 CAPTIVE_URI p
           } else ret p);
        out \<leftarrow> put out i 255;
        let i = i + 1;
        ret (Some (max i 300), out)
      })"

section \<open>The option format\<close>

text \<open>The reference encoding: padding bytes and code/length/value triples.\<close>

datatype opt_item = Pad | Opt u8 bytes

fun opt_bytes :: "opt_item \<Rightarrow> bytes" where
  "opt_bytes Pad = [0]"
| "opt_bytes (Opt c v) = c # of_nat (length v) # v"

fun opt_ok :: "opt_item \<Rightarrow> bool" where
  "opt_ok Pad \<longleftrightarrow> True"
| "opt_ok (Opt c v) \<longleftrightarrow> c \<noteq> 0 \<and> c \<noteq> 255 \<and> length v < 256"

fun opt_lookup :: "u8 \<Rightarrow> opt_item list \<Rightarrow> bytes option" where
  "opt_lookup code [] = None"
| "opt_lookup code (Pad # os) = opt_lookup code os"
| "opt_lookup code (Opt c v # os) = (if c = code then Some v else opt_lookup code os)"

definition opts_bytes :: "opt_item list \<Rightarrow> bytes" where
  "opts_bytes os = concat (map opt_bytes os)"

lemma opts_bytes_simps [simp]:
  "opts_bytes [] = []" "opts_bytes (x # os) = opt_bytes x @ opts_bytes os"
  "opts_bytes (os @ ps) = opts_bytes os @ opts_bytes ps"
  by (simp_all add: opts_bytes_def)

lemma unat_of_nat_u8: "n < 256 \<Longrightarrow> unat (of_nat n :: u8) = n"
  by (simp add: unat_of_nat)

lemma find_option_loop_pad:
  "find_option_loop (pre @ 0 # rest) code (length pre) =
   find_option_loop ((pre @ [0]) @ rest) code (length (pre @ [0]))"
  by (subst find_option_loop.simps) (simp add: idx_ok)

lemma find_option_loop_end:
  "find_option_loop (pre @ 255 # rest) code (length pre) = ret None"
  by (subst find_option_loop.simps) (simp add: idx_ok)

lemma find_option_loop_opt:
  assumes "c \<noteq> 0" "c \<noteq> 255" "length v < 256"
  shows "find_option_loop (pre @ c # of_nat (length v) # v @ rest) code (length pre) =
    (if c = code then ret (Some v)
     else find_option_loop ((pre @ opt_bytes (Opt c v)) @ rest) code
            (length (pre @ opt_bytes (Opt c v))))"
  using assms
  by (subst find_option_loop.simps)
    (simp add: idx_ok slice_of_ok unat_of_nat_u8 nth_append Let_def)

lemma find_option_loop_items:
  "list_all opt_ok os \<Longrightarrow>
   find_option_loop (pre @ opts_bytes os @ 255 # rest) code (length pre) = ret (opt_lookup code os)"
proof (induction os arbitrary: pre)
  case Nil
  then show ?case by (simp add: find_option_loop_end)
next
  case (Cons x os)
  show ?case
  proof (cases x)
    case Pad
    with Cons.prems Cons.IH [of "pre @ [0]"] find_option_loop_pad [of pre "opts_bytes os @ 255 # rest"]
    show ?thesis by simp
  next
    case (Opt c v)
    with Cons.prems Cons.IH [of "pre @ opt_bytes (Opt c v)"]
      find_option_loop_opt [of c v pre "opts_bytes os @ 255 # rest"]
    show ?thesis by simp
  qed
qed

lemma find_option_items:
  assumes "length hdr = 240" "drop 236 hdr = DHCP_MAGIC" "list_all opt_ok os"
  shows "find_option (hdr @ opts_bytes os @ 255 # rest) code = ret (opt_lookup code os)"
  using assms find_option_loop_items [OF assms(3), of hdr rest code]
  by (simp add: find_option_def slice_of_ok DHCP_MAGIC_def)

lemma find_option_loop_value:
  assumes "i + 1 < length packet" "packet ! i \<noteq> 0" "packet ! i \<noteq> 255"
  shows "find_option_loop packet code i =
    (let stop = i + 2 + unat (packet ! (i + 1)) in
     if stop > length packet then ret None
     else if packet ! i = code then ret (Some (take (unat (packet ! (i + 1))) (drop (i + 2) packet)))
     else find_option_loop packet code stop)"
  using assms by (subst find_option_loop.simps) (simp add: idx_ok slice_of_ok Let_def)

lemma sublist_split: "xs = take i xs @ take n (drop i xs) @ drop (i + n) xs"
  by (metis append_take_drop_id drop_drop add.commute)

lemma find_option_loop_total:
  "\<exists>r. find_option_loop packet code i = ret r \<and>
     (\<forall>v. r = Some v \<longrightarrow> (\<exists>a b. packet = a @ v @ b \<and> i + 2 \<le> length a))"
proof (induction packet code i rule: find_option_loop.induct)
  case (1 packet code i)
  consider "i \<ge> length packet"
    | "i < length packet" "packet ! i = 0"
    | "i < length packet" "packet ! i \<noteq> 0" "packet ! i = 255 \<or> i + 1 \<ge> length packet"
    | "packet ! i \<noteq> 0" "packet ! i \<noteq> 255" "i + 1 < length packet" by linarith
  then show ?case
  proof cases
    case 1
    then show ?thesis by (subst find_option_loop.simps) simp
  next
    case 2
    then have "find_option_loop packet code i = find_option_loop packet code (i + 1)"
      by (subst find_option_loop.simps) (simp add: idx_ok)
    with "1.IH"(1) [OF 2(1)] 2 show ?thesis by (fastforce simp: idx_ok)
  next
    case 3
    then have "find_option_loop packet code i = ret None"
      by (subst find_option_loop.simps) (auto simp: idx_ok)
    then show ?thesis by simp
  next
    case 4
    let ?n = "unat (packet ! (i + 1))"
    note eq = find_option_loop_value [OF 4(3,1,2), of code]
    consider "i + 2 + ?n > length packet" | "i + 2 + ?n \<le> length packet" "packet ! i = code"
      | "i + 2 + ?n \<le> length packet" "packet ! i \<noteq> code" by linarith
    then show ?thesis
    proof cases
      case 1
      with eq show ?thesis by (simp add: Let_def)
    next
      case 2
      have "i + 2 \<le> length (take (i + 2) packet)" using 4 by simp
      with sublist_split [of packet "i + 2" ?n] eq 2 show ?thesis
        by (fastforce simp: Let_def)
    next
      case 3
      with 4 have "\<exists>r. find_option_loop packet code (i + 2 + ?n) = ret r \<and>
          (\<forall>v. r = Some v \<longrightarrow> (\<exists>a b. packet = a @ v @ b \<and> i + 2 + ?n + 2 \<le> length a))"
        by (intro "1.IH"(2)) (auto simp: idx_ok)
      then obtain r where r: "find_option_loop packet code (i + 2 + ?n) = ret r"
        "\<And>v. r = Some v \<Longrightarrow> \<exists>a b. packet = a @ v @ b \<and> i + 2 + ?n + 2 \<le> length a" by blast
      have "\<exists>a b. packet = a @ v @ b \<and> i + 2 \<le> length a" if "r = Some v" for v
        using r(2) [OF that] by (metis add_leE trans_le_add1 add.assoc)
      with eq 3 r(1) show ?thesis by (simp add: Let_def)
    qed
  qed
qed

section \<open>The reply, as a whole\<close>

definition reply_header :: "bytes \<Rightarrow> bytes \<Rightarrow> u8 \<Rightarrow> bytes" where
  "reply_header req yiaddr msg_type =
     [2, 1, 6, 0] @ take 4 (drop 4 req) @ replicate 8 0 @
     (if msg_type = DHCP_NAK then replicate 4 0 else yiaddr) @ SERVER_IP @ replicate 4 0 @
     take 16 (drop 28 req) @ replicate 192 0 @ DHCP_MAGIC"

definition reply_opts :: "u8 \<Rightarrow> opt_item list" where
  "reply_opts msg_type =
     [Opt 53 [msg_type], Opt 54 SERVER_IP] @
     (if msg_type = DHCP_NAK then []
      else [Opt 1 [255, 255, 255, 0], Opt 3 SERVER_IP, Opt 6 SERVER_IP, Opt 51 [0, 1, 81, 128],
            Opt 28 [192, 168, 0, 255], Opt 15 (ascii ''lan''), Opt 114 CAPTIVE_URI,
            Opt 160 CAPTIVE_URI])"

definition reply_body :: "bytes \<Rightarrow> bytes \<Rightarrow> u8 \<Rightarrow> bytes" where
  "reply_body req yiaddr msg_type =
     reply_header req yiaddr msg_type @ opts_bytes (reply_opts msg_type) @ [255]"

lemma length_reply_header [simp]:
  "length req \<ge> 240 \<Longrightarrow> length yiaddr = 4 \<Longrightarrow> length (reply_header req yiaddr t) = 240"
  by (simp add: reply_header_def dhcp_consts)

lemma length_CAPTIVE_URI [simp]: "length CAPTIVE_URI = 19"
  by (simp add: CAPTIVE_URI_def ascii_def)

lemma length_reply_opts:
  "length (opts_bytes (reply_opts t)) = (if t = DHCP_NAK then 9 else 86)"
  by (simp add: reply_opts_def SERVER_IP_def ascii_def)

lemma length_reply_body:
  "length req \<ge> 240 \<Longrightarrow> length yiaddr = 4 \<Longrightarrow>
   length (reply_body req yiaddr t) = (if t = DHCP_NAK then 250 else 327)"
  by (simp add: reply_body_def length_reply_opts)

lemma push_option_append:
  assumes "length r > 2 + length data" "length data < 256"
  shows "push_option code data (length p, p @ r) =
    ret (length (p @ opt_bytes (Opt code data)),
         (p @ opt_bytes (Opt code data)) @ drop (length (opt_bytes (Opt code data))) r)"
proof -
  obtain x y r' where r: "r = x # y # r'" "length data < length r'"
    using assms(1) by (cases r; cases "tl r") auto
  then show ?thesis
    using assms(2)
    by (simp add: push_option_def put_ok copy_into_ok list_update_append nth_append)
qed

lemma copy_into_append:
  "length a = i \<Longrightarrow> length b = j - i \<Longrightarrow> i \<le> j \<Longrightarrow> length d = length b \<Longrightarrow>
   copy_into (a @ b @ c) i j d = ret (a @ d @ c)"
  by (simp add: copy_into_def)

text \<open>The fixed part, field by field.\<close>

lemma write_header:
  assumes "length req \<ge> 240" "length out \<ge> 360" "length yiaddr = 4"
  shows "(do {
        out \<leftarrow> fill_range out 0 240 0;
        out \<leftarrow> put out 0 2;
        out \<leftarrow> put out 1 1;
        out \<leftarrow> put out 2 6;
        xid \<leftarrow> slice_of req 4 8;
        out \<leftarrow> copy_into out 4 8 xid;
        out \<leftarrow> (if msg_type \<noteq> DHCP_NAK then copy_into out 16 20 yiaddr else ret out);
        out \<leftarrow> copy_into out 20 24 SERVER_IP;
        chaddr \<leftarrow> slice_of req 28 44;
        out \<leftarrow> copy_into out 28 44 chaddr;
        out \<leftarrow> copy_into out 236 240 DHCP_MAGIC;
        f out }) =
     f (reply_header req yiaddr msg_type @ drop 240 out)"
proof -
  define r where "r = drop 240 out"
  define xid where "xid = take 4 (drop 4 req)"
  define ch where "ch = take 16 (drop 28 req)"
  define z4 :: bytes where "z4 = replicate 4 0"
  define z8 :: bytes where "z8 = replicate 8 0"
  define z16 :: bytes where "z16 = replicate 16 0"
  define z192 :: bytes where "z192 = replicate 192 0"
  define yi where "yi = (if msg_type = DHCP_NAK then z4 else yiaddr)"
  have len: "length xid = 4" "length ch = 16" "length z4 = 4" "length z8 = 8" "length z16 = 16"
    "length z192 = 192" "length SERVER_IP = 4" "length DHCP_MAGIC = 4"
    using assms by (simp_all add: xid_def ch_def z4_def z8_def z16_def z192_def dhcp_consts
       )
  have "(240 :: nat) = 4 + (4 + (8 + (4 + (4 + (4 + (16 + (192 + 4)))))))" by simp
  then have "replicate 240 (0 :: u8) @ r =
      replicate 4 0 @ z4 @ z8 @ z4 @ z4 @ z4 @ z16 @ z192 @ z4 @ r"
    by (simp only: replicate_add append_assoc z4_def z8_def z16_def z192_def)
  moreover have "replicate 4 (0 :: u8) = [0, 0, 0, 0]" by (simp add: numeral_eq_Suc)
  ultimately have fill: "fill_range out 0 240 0 =
      ret ([0, 0, 0, 0] @ z4 @ z8 @ z4 @ z4 @ z4 @ z16 @ z192 @ z4 @ r)"
    using assms by (simp add: fill_range_ok r_def)
  have puts: "put (0 # 0 # 0 # t) 0 2 \<bind> (\<lambda>out. put out 1 1 \<bind> (\<lambda>out. put out 2 6 \<bind> g)) =
      g ([2, 1, 6] @ t)" for t :: bytes and g :: "bytes \<Rightarrow> 'a rs"
    by (simp add: put_ok)
  have c1: "copy_into (2 # 1 # 6 # 0 # z4 @ t) 4 8 xid = ret (2 # 1 # 6 # 0 # xid @ t)" for t
    using copy_into_append [of "[2, 1, 6, 0]" 4 z4 8 xid t] by (simp add: len)
  have c2: "copy_into (2 # 1 # 6 # 0 # xid @ z8 @ z4 @ t) 16 20 yiaddr =
      ret (2 # 1 # 6 # 0 # xid @ z8 @ yiaddr @ t)" for t
    using copy_into_append [of "[2, 1, 6, 0] @ xid @ z8" 16 z4 20 yiaddr t] by (simp add: len assms(3))
  have c3: "copy_into (2 # 1 # 6 # 0 # xid @ z8 @ yi @ z4 @ t) 20 24 SERVER_IP =
      ret (2 # 1 # 6 # 0 # xid @ z8 @ yi @ SERVER_IP @ t)" for t
    using copy_into_append [of "[2, 1, 6, 0] @ xid @ z8 @ yi" 20 z4 24 SERVER_IP t]
    by (simp add: len assms(3) yi_def)
  have c4: "copy_into (2 # 1 # 6 # 0 # xid @ z8 @ yi @ SERVER_IP @ z4 @ z16 @ t) 28 44 ch =
      ret (2 # 1 # 6 # 0 # xid @ z8 @ yi @ SERVER_IP @ z4 @ ch @ t)" for t
    using copy_into_append [of "[2, 1, 6, 0] @ xid @ z8 @ yi @ SERVER_IP @ z4" 28 z16 44 ch t]
    by (simp add: len assms(3) yi_def)
  have c5: "copy_into (2 # 1 # 6 # 0 # xid @ z8 @ yi @ SERVER_IP @ z4 @ ch @ z192 @ z4 @ t) 236 240
        DHCP_MAGIC = ret (2 # 1 # 6 # 0 # xid @ z8 @ yi @ SERVER_IP @ z4 @ ch @ z192 @ DHCP_MAGIC @ t)" for t
    using copy_into_append [of "[2, 1, 6, 0] @ xid @ z8 @ yi @ SERVER_IP @ z4 @ ch @ z192" 236 z4 240
        DHCP_MAGIC t]
    by (simp add: len assms(3) yi_def)
  have yi: "(if msg_type \<noteq> DHCP_NAK then copy_into (2 # 1 # 6 # 0 # xid @ z8 @ z4 @ t) 16 20 yiaddr
        else ret (2 # 1 # 6 # 0 # xid @ z8 @ z4 @ t)) = ret (2 # 1 # 6 # 0 # xid @ z8 @ yi @ t)" for t
    by (simp add: c2 yi_def)
  have s: "slice_of req 4 8 = ret xid" "slice_of req 28 44 = ret ch"
    using assms by (simp_all add: slice_of_ok xid_def ch_def)
  have hdr: "reply_header req yiaddr msg_type =
      2 # 1 # 6 # 0 # xid @ z8 @ yi @ SERVER_IP @ z4 @ ch @ z192 @ DHCP_MAGIC"
    by (simp only: reply_header_def xid_def z8_def yi_def z4_def ch_def z192_def append_Cons append_Nil)
  show ?thesis
    by (simp only: fill bind.bind_lunit append_Cons append_Nil puts s c1 yi c3 c4 c5 hdr
        append_assoc r_def [symmetric])
qed

text \<open>The options, as one list of pushes.\<close>

fun push_all :: "opt_item list \<Rightarrow> nat \<times> bytes \<Rightarrow> (nat \<times> bytes) rs" where
  "push_all [] p = ret p"
| "push_all (Pad # os) p = push_all os p"
| "push_all (Opt c v # os) p = do { p \<leftarrow> push_option c v p; push_all os p }"

lemma push_all_append:
  "list_all (\<lambda>x. opt_ok x \<and> x \<noteq> Pad) os \<Longrightarrow> length (opts_bytes os) < length r \<Longrightarrow>
   push_all os (length h, h @ r) =
     ret (length (h @ opts_bytes os), (h @ opts_bytes os) @ drop (length (opts_bytes os)) r)"
proof (induction os arbitrary: h r)
  case Nil
  then show ?case by simp
next
  case (Cons x os)
  then obtain c v where x: "x = Opt c v" by (cases x) auto
  with Cons.prems have "2 + length v < length r" "length v < 256" by auto
  note push = push_option_append [OF this, of c h]
  have "length (opts_bytes os) < length (drop (length (opt_bytes (Opt c v))) r)"
    using Cons.prems x by simp
  from Cons.IH [OF _ this, of "h @ opt_bytes (Opt c v)"] Cons.prems x push show ?case
    by (simp add: add.commute)
qed

lemma reply_opts_ok: "list_all (\<lambda>x. opt_ok x \<and> x \<noteq> Pad) (reply_opts t)"
  by (simp add: reply_opts_def SERVER_IP_def ascii_def)

lemma write_offer_or_ack_pushes:
  "write_offer_or_ack req out yiaddr msg_type =
     (if length req < 240 \<or> length out < 360 then ret (None, out)
      else do {
        (i, out) \<leftarrow> push_all (reply_opts msg_type)
          (240, reply_header req yiaddr msg_type @ drop 240 out);
        out \<leftarrow> put out i 255;
        ret (Some (max (i + 1) 300), out)
      })"
  if "length yiaddr = 4"
proof (cases "length req < 240 \<or> length out < 360")
  case True
  then show ?thesis by (simp add: write_offer_or_ack_def)
next
  case False
  then have "240 \<le> length req" "360 \<le> length out" by simp_all
  note hdr = write_header [OF this that]
  from False show ?thesis
    by (simp only: write_offer_or_ack_def hdr if_False)
      (simp add: reply_opts_def)
qed

lemma write_offer_or_ack_eq:
  assumes "length req \<ge> 240" "length out \<ge> 360" "length yiaddr = 4"
  shows "write_offer_or_ack req out yiaddr t =
    (let b = reply_body req yiaddr t
     in ret (Some (max (length b) 300), b @ drop (length b) out))"
proof -
  let ?h = "reply_header req yiaddr t" and ?o = "opts_bytes (reply_opts t)"
  have len: "length ?h = 240" "length ?o \<le> 86"
    using assms by (simp_all add: length_reply_opts)
  then have small: "length ?o < length (drop 240 out)" using assms(2) by simp
  have "push_all (reply_opts t) (240, ?h @ drop 240 out) =
      ret (length (?h @ ?o), (?h @ ?o) @ drop (length ?o) (drop 240 out))"
    using push_all_append [OF reply_opts_ok small, of ?h] len(1) by simp
  moreover obtain z r where r: "drop (length ?o + 240) out = z # r"
    using small by (metis Cons_nth_drop_Suc drop_drop length_drop add.commute length_greater_0_conv
        gr_implies_not0 list.exhaust list.size(3))
  moreover have "drop (length ?o + 241) out = r"
    using r by (metis drop_Suc list.sel(3) tl_drop add_Suc_right numeral_plus_one plus_1_eq_Suc
        semiring_norm(5) add.commute Suc_eq_plus1 drop_Suc_Cons drop0 drop_drop)
  moreover have "Suc (max 299 (length ?o + 240)) = max 300 (length ?o + 241)" by simp
  ultimately show ?thesis
    using assms len(1) put_append [of "?h @ ?o" z r 255]
    by (simp add: write_offer_or_ack_pushes reply_body_def Let_def ac_simps)
qed

section \<open>Properties\<close>

lemma find_option_total:
  "\<exists>r. find_option packet code = ret r \<and>
     (\<forall>v. r = Some v \<longrightarrow> (\<exists>a b. packet = a @ v @ b \<and> 242 \<le> length a))"
  using find_option_loop_total [of packet code 240] by (auto simp: find_option_def slice_of_ok)

text \<open>Reading an option never indexes out of the packet, whatever its bytes, and a value
  found is a contiguous part of the packet behind the fixed header.\<close>

lemma find_option_safe:
  "find_option packet code = ret None \<or>
   (\<exists>a v b. find_option packet code = ret (Some v) \<and> packet = a @ v @ b \<and> 242 \<le> length a)"
  using find_option_total [of packet code] by (metis not_None_eq)

text \<open>C20: on a well-formed option list the loop returns the first option with the code asked
  for, skipping padding, up to the end marker.\<close>

theorem find_option_reference:
  assumes "length hdr = 240" "drop 236 hdr = DHCP_MAGIC" "list_all opt_ok os"
  shows "find_option (hdr @ opts_bytes os @ 255 # rest) code = ret (opt_lookup code os)"
  by (rule find_option_items [OF assms])

theorem find_option_reference_witness:
  "find_option ((replicate 236 0 @ DHCP_MAGIC) @ opts_bytes [Pad, Opt 53 [3], Opt 50 [192, 168, 0, 10]] @
     255 # [9, 9]) 50 = ret (Some [192, 168, 0, 10])"
  using find_option_reference [of "replicate 236 0 @ DHCP_MAGIC"
      "[Pad, Opt 53 [3], Opt 50 [192, 168, 0, 10]]" "[9, 9]" 50]
  by (simp add: DHCP_MAGIC_def)

lemma reply_find_option:
  assumes "length req \<ge> 240" "length yiaddr = 4"
  shows "find_option (reply_body req yiaddr t @ rest) code = ret (opt_lookup code (reply_opts t))"
proof -
  have "drop 236 (reply_header req yiaddr t) = DHCP_MAGIC"
    using assms by (simp add: reply_header_def dhcp_consts)
  moreover have "list_all opt_ok (reply_opts t)"
    using reply_opts_ok [of t] by (simp add: list_all_iff)
  ultimately show ?thesis
    using assms by (simp add: reply_body_def find_option_items)
qed

lemma reply_body_fields:
  assumes "length req \<ge> 240" "length yiaddr = 4"
  shows "reply_body req yiaddr t ! 0 = 2"
    and "take 4 (drop 4 (reply_body req yiaddr t @ rest)) = take 4 (drop 4 req)"
    and "take 4 (drop 16 (reply_body req yiaddr t @ rest)) =
      (if t = DHCP_NAK then [0, 0, 0, 0] else yiaddr)"
    and "take 16 (drop 28 (reply_body req yiaddr t @ rest)) = take 16 (drop 28 req)"
  using assms
  by (simp_all add: reply_body_def reply_header_def dhcp_consts numeral_eq_Suc)

lemma reply_readback:
  assumes "length req \<ge> 240" "length out \<ge> 360" "length yiaddr = 4"
  shows "\<exists>n out'. write_offer_or_ack req out yiaddr t = ret (Some n, out') \<and>
    300 \<le> n \<and> n \<le> length out' \<and> length out' = length out \<and>
    dhcp_msg_type (take n out') = ret (Some t) \<and>
    (\<forall>code. find_option (take n out') code = ret (opt_lookup code (reply_opts t))) \<and>
    take 4 (drop 4 out') = take 4 (drop 4 req) \<and>
    take 4 (drop 16 out') = (if t = DHCP_NAK then [0, 0, 0, 0] else yiaddr) \<and>
    take 16 (drop 28 out') = take 16 (drop 28 req)"
proof -
  let ?b = "reply_body req yiaddr t"
  let ?n = "max (length ?b) 300" and ?out = "?b @ drop (length ?b) out"
  have len: "length ?b \<le> 327" using assms by (simp add: length_reply_body)
  have take: "take ?n ?out = ?b @ take (?n - length ?b) (drop (length ?b) out)" by simp
  have find: "\<forall>code. find_option (take ?n ?out) code = ret (opt_lookup code (reply_opts t))"
    unfolding take using assms by (simp add: reply_find_option)
  moreover from this have "dhcp_msg_type (take ?n ?out) = ret (Some t)"
    by (simp add: dhcp_msg_type_def reply_opts_def)
  moreover have "write_offer_or_ack req out yiaddr t = ret (Some ?n, ?out)"
    using assms by (simp add: write_offer_or_ack_eq Let_def)
  ultimately show ?thesis
    using assms len reply_body_fields(2-4) [OF assms(1,3), where t = t and rest = "drop (length ?b) out"]
    by (intro exI [of _ ?n] exI [of _ ?out]) auto
qed

text \<open>C21: a reply read back with the code's own parser carries the message type, the server
  and, unless it is a NAK, mask, router, DNS, lease time and portal; transaction id, client
  hardware address and offered address are in their fields.\<close>

theorem dhcp_reply_roundtrip:
  assumes "length req \<ge> 240" "length out \<ge> 360" "length yiaddr = 4"
  shows "\<exists>n out'. write_offer_or_ack req out yiaddr t = ret (Some n, out') \<and>
    300 \<le> n \<and> n \<le> length out' \<and> length out' = length out \<and>
    dhcp_msg_type (take n out') = ret (Some t) \<and>
    (\<forall>code. find_option (take n out') code = ret (opt_lookup code (reply_opts t))) \<and>
    take 4 (drop 4 out') = take 4 (drop 4 req) \<and>
    take 4 (drop 16 out') = (if t = DHCP_NAK then [0, 0, 0, 0] else yiaddr) \<and>
    take 16 (drop 28 out') = take 16 (drop 28 req)"
  by (rule reply_readback [OF assms])

theorem dhcp_reply_roundtrip_witness:
  "\<exists>n out'. write_offer_or_ack (replicate 240 0) (replicate 400 0) [192, 168, 0, 10] DHCP_OFFER =
      ret (Some n, out') \<and> dhcp_msg_type (take n out') = ret (Some DHCP_OFFER)"
  using dhcp_reply_roundtrip [of "replicate 240 0" "replicate 400 0" "[192, 168, 0, 10]" DHCP_OFFER]
  by auto

end
