(* ===== verification/Leases.thy ===== *)
theory Leases
  imports Dhcp_Proto "HOL-Library.Multiset" "HOL-Library.Sublist"
begin

text \<open>
  The lease table of \<open>src/net_proto.rs\<close>: \<open>slot_for_mac\<close>, its refinement of a
  least-recently-used list, and the contract its client relies on.
\<close>

section \<open>Model\<close>

record lease =
  mac :: bytes
  seq :: u32

definition NO_MAC :: bytes where "NO_MAC = [0, 0, 0, 0, 0, 0]"

definition EMPTY :: lease where "EMPTY = \<lparr>mac = NO_MAC, seq = 0\<rparr>"

text \<open>\<open>Iterator::position\<close>.\<close>

fun position :: "('a \<Rightarrow> bool) \<Rightarrow> 'a list \<Rightarrow> nat option" where
  "position P [] = None"
| "position P (x # xs) = (if P x then Some 0 else map_option Suc (position P xs))"

text \<open>The scan for the oldest lease: \<open>best\<close> and \<open>i\<close> as the loop carries them.\<close>

fun oldest_scan :: "lease list \<Rightarrow> nat \<Rightarrow> u32 \<Rightarrow> nat \<Rightarrow> nat" where
  "oldest_scan [] k best i = i"
| "oldest_scan (l # ls) k best i =
     (if seq l \<le> best then oldest_scan ls (k + 1) (seq l) k else oldest_scan ls (k + 1) best i)"

definition slot_for_mac :: "lease list \<Rightarrow> u32 \<Rightarrow> bytes \<Rightarrow> (u8 \<times> lease list \<times> u32) rs" where
  "slot_for_mac leases sq m =
     (case position (\<lambda>l. mac l = m) leases of
        Some i \<Rightarrow> do {
          let sq = sq + 1;
          l \<leftarrow> idx leases i;
          leases \<leftarrow> put leases i (l\<lparr>seq := sq\<rparr>);
          ret (of_nat i, leases, sq)
        }
      | None \<Rightarrow>
          (case position (\<lambda>l. mac l = NO_MAC) leases of
             Some i \<Rightarrow> do {
               let sq = sq + 1;
               leases \<leftarrow> put leases i \<lparr>mac = m, seq = sq\<rparr>;
               ret (of_nat i, leases, sq)
             }
           | None \<Rightarrow> do {
               let best = (case leases of [] \<Rightarrow> 0 | l # _ \<Rightarrow> seq l);
               let i = oldest_scan leases 0 best 0;
               let sq = sq + 1;
               leases \<leftarrow> put leases i \<lparr>mac = m, seq = sq\<rparr>;
               ret (of_nat i, leases, sq)
             }))"

section \<open>Search\<close>

lemma position_Some:
  "position P xs = Some i \<Longrightarrow> i < length xs \<and> P (xs ! i) \<and> (\<forall>j < i. \<not> P (xs ! j))"
proof (induction xs arbitrary: i)
  case (Cons x xs)
  then show ?case
    by (auto split: if_splits simp: less_Suc_eq_0_disj)
qed simp

lemma position_None: "position P xs = None \<longleftrightarrow> (\<forall>x \<in> set xs. \<not> P x)"
  by (induction xs) auto

lemma position_first:
  "i < length xs \<Longrightarrow> P (xs ! i) \<Longrightarrow> \<forall>j < i. \<not> P (xs ! j) \<Longrightarrow> position P xs = Some i"
proof (induction xs arbitrary: i)
  case (Cons x xs)
  show ?case
  proof (cases i)
    case (Suc k)
    with Cons.prems have "\<not> P x" "\<forall>j < k. \<not> P (xs ! j)" by force+
    with Suc Cons show ?thesis by simp
  qed (use Cons in simp)
qed simp

text \<open>The scan ends at an index whose sequence number no later one undercuts.\<close>

lemma oldest_scan_result:
  "oldest_scan ls k best i = r \<Longrightarrow>
   (r = i \<and> (\<forall>l \<in> set ls. best < seq l)) \<or>
   (k \<le> r \<and> r < k + length ls \<and> seq (ls ! (r - k)) \<le> best \<and>
     (\<forall>l \<in> set ls. seq (ls ! (r - k)) \<le> seq l))"
proof (induction ls arbitrary: k best i)
  case (Cons l ls)
  show ?case
  proof (cases "seq l \<le> best")
    case True
    with Cons.prems have "oldest_scan ls (k + 1) (seq l) k = r" by simp
    from Cons.IH [OF this] show ?thesis
    proof
      assume "r = k \<and> (\<forall>l' \<in> set ls. seq l < seq l')"
      with True show ?thesis by (auto simp: less_imp_le)
    next
      assume "k + 1 \<le> r \<and> r < k + 1 + length ls \<and> seq (ls ! (r - (k + 1))) \<le> seq l \<and>
        (\<forall>l' \<in> set ls. seq (ls ! (r - (k + 1))) \<le> seq l')"
      moreover from this have "r - k = Suc (r - (k + 1))" by (auto simp: Suc_diff_Suc)
      ultimately show ?thesis using True by auto
    qed
  next
    case False
    with Cons.prems have "oldest_scan ls (k + 1) best i = r" by simp
    from Cons.IH [OF this] show ?thesis
    proof
      assume "r = i \<and> (\<forall>l' \<in> set ls. best < seq l')"
      with False show ?thesis by auto
    next
      assume *: "k + 1 \<le> r \<and> r < k + 1 + length ls \<and> seq (ls ! (r - (k + 1))) \<le> best \<and>
        (\<forall>l' \<in> set ls. seq (ls ! (r - (k + 1))) \<le> seq l')"
      moreover from this have "r - k = Suc (r - (k + 1))" by (auto simp: Suc_diff_Suc)
      ultimately show ?thesis using False by (auto simp: not_le intro: order_trans)
    qed
  qed
qed simp

definition oldest :: "lease list \<Rightarrow> nat" where
  "oldest ls = oldest_scan ls 0 (case ls of [] \<Rightarrow> 0 | l # _ \<Rightarrow> seq l) 0"

lemma oldest_least:
  assumes "ls \<noteq> []"
  shows "oldest ls < length ls \<and> (\<forall>l \<in> set ls. seq (ls ! oldest ls) \<le> seq l)"
proof -
  obtain l ls' where ls: "ls = l # ls'" using assms by (cases ls) auto
  have "oldest_scan ls 0 (seq l) 0 = oldest ls" by (simp add: oldest_def ls)
  from oldest_scan_result [OF this] show ?thesis by (auto simp: ls)
qed

text \<open>The call in one equation: which slot, and that it now holds the client's address.\<close>

definition chosen_slot :: "lease list \<Rightarrow> bytes \<Rightarrow> nat" where
  "chosen_slot leases m =
     (case position (\<lambda>l. mac l = m) leases of Some i \<Rightarrow> i
      | None \<Rightarrow> (case position (\<lambda>l. mac l = NO_MAC) leases of Some i \<Rightarrow> i | None \<Rightarrow> oldest leases))"

lemma chosen_slot_less: "leases \<noteq> [] \<Longrightarrow> chosen_slot leases m < length leases"
  using oldest_least [of leases] by (auto simp: chosen_slot_def dest: position_Some split: option.split)

lemma lease_eta: "mac l = m \<Longrightarrow> l\<lparr>seq := q\<rparr> = \<lparr>mac = m, seq = q\<rparr>" for l :: lease
  by (cases l) simp

lemma slot_for_mac_eq:
  assumes "leases \<noteq> []"
  shows "slot_for_mac leases sq m =
    ret (of_nat (chosen_slot leases m),
         leases[chosen_slot leases m := \<lparr>mac = m, seq = sq + 1\<rparr>], sq + 1)"
proof (cases "position (\<lambda>l. mac l = m) leases")
  case (Some i)
  with position_Some [OF Some] show ?thesis
    by (simp add: slot_for_mac_def chosen_slot_def idx_ok put_ok lease_eta Let_def)
next
  case None
  show ?thesis
  proof (cases "position (\<lambda>l. mac l = NO_MAC) leases")
    case (Some i)
    with None position_Some [OF Some] show ?thesis
      by (simp add: slot_for_mac_def chosen_slot_def put_ok Let_def)
  next
    case n2: None
    with None oldest_least [OF assms] show ?thesis
      by (simp add: slot_for_mac_def chosen_slot_def put_ok Let_def flip: oldest_def)
  qed
qed

section \<open>The table as a recency list\<close>

text \<open>The clients that hold a lease, the most recent one first.\<close>

definition held :: "lease list \<Rightarrow> lease list" where
  "held ls = [l \<leftarrow> ls. mac l \<noteq> NO_MAC]"

definition recent :: "lease list \<Rightarrow> bytes list" where
  "recent ls = rev (map mac (sort_key seq (held ls)))"

definition lease_inv :: "u32 \<Rightarrow> lease list \<Rightarrow> bool" where
  "lease_inv sq ls \<longleftrightarrow> distinct (map mac (held ls)) \<and> distinct (map seq (held ls)) \<and>
     (\<forall>l \<in> set (held ls). seq l \<le> sq)"

lemma set_recent: "set (recent ls) = mac ` set (held ls)"
  by (simp add: recent_def)

lemma held_append_order:
  assumes "mset (held ls') = mset (l # T)" "sorted (map seq T)" "\<forall>t \<in> set T. seq t < seq l"
    and "distinct (map seq T)"
  shows "recent ls' = mac l # rev (map mac T)"
proof -
  have "sort_key seq (held ls') = T @ [l]"
  proof (rule sort_key_inj_key_eq)
    show "mset (held ls') = mset (T @ [l])" using assms(1) by simp
    have "set (held ls') = insert l (set T)" using mset_eq_setD [OF assms(1)] by simp
    then show "inj_on seq (set (held ls'))"
      using assms(3,4) by (auto simp: distinct_map inj_on_def)
    show "sorted (map seq (T @ [l]))" using assms(2,3) by (auto simp: sorted_append less_imp_le)
  qed
  then show ?thesis by (simp add: recent_def)
qed

lemma lease_inv_step:
  assumes "lease_inv sq ls" "mset (held ls') = mset (l # T)" "set T \<subseteq> set (held ls)"
    and "distinct (map mac T)" "distinct (map seq T)" "mac l \<notin> mac ` set T" "seq l = sq + 1" "sq < - 1"
  shows "lease_inv (sq + 1) ls'"
proof -
  have lt: "sq < sq + 1" using assms(8) by (rule less_Suc_word)
  have old: "seq t \<le> sq" if "t \<in> set T" for t using that assms(1,3) by (auto simp: lease_inv_def)
  have ms: "mset (map f (held ls')) = mset (map f (l # T))" for f :: "lease \<Rightarrow> 'a"
    using assms(2) by (simp only: mset_map)
  have d: "distinct (map f (held ls')) = distinct (map f (l # T))" for f :: "lease \<Rightarrow> 'a"
    by (rule mset_eq_imp_distinct_iff [OF ms])
  have "set (held ls') = insert l (set T)" using mset_eq_setD [OF assms(2)] by simp
  moreover have "seq t \<noteq> sq + 1" if "t \<in> set T" for t using old [OF that] lt by auto
  ultimately show ?thesis
    using assms(4-7) old lt by (force simp: lease_inv_def d dest: order_trans)
qed

lemma held_update:
  assumes "i < length ls" "mac v \<noteq> NO_MAC"
  shows "mset (held (ls[i := v])) = add_mset v
    (if mac (ls ! i) = NO_MAC then mset (held ls) else mset (held ls) - {#ls ! i#})"
  using assms by (simp add: held_def mset_filter mset_update filter_diff_mset)

lemma filter_key_remove1:
  "distinct (map f xs) \<Longrightarrow> x \<in> set xs \<Longrightarrow> filter (\<lambda>y. f y \<noteq> f x) xs = remove1 x xs"
proof (induction xs)
  case (Cons a xs)
  show ?case
  proof (cases "a = x")
    case True
    with Cons.prems(1) have "\<forall>y \<in> set xs. f y \<noteq> f x" by (auto simp: image_iff)
    with True show ?thesis by simp
  next
    case False
    with Cons show ?thesis by (auto simp: image_iff)
  qed
qed simp

lemma length_held: "length (held ls) \<le> length ls"
  by (simp add: held_def)

lemma length_recent: "length (recent ls) \<le> length ls"
  by (simp add: recent_def length_held)

lemma distinct_recent: "lease_inv sq ls \<Longrightarrow> distinct (recent ls)"
proof -
  assume "lease_inv sq ls"
  moreover have "mset (map mac (sort_key seq (held ls))) = mset (map mac (held ls))" by simp
  from mset_eq_imp_distinct_iff [OF this] have
    "distinct (map mac (sort_key seq (held ls))) = distinct (map mac (held ls))" .
  ultimately show "distinct (recent ls)" by (simp add: recent_def lease_inv_def)
qed

text \<open>The lease with the least sequence number is the least recent client's.\<close>

lemma oldest_is_last:
  assumes "lease_inv sq ls" "held ls = ls" "ls \<noteq> []"
  shows "sort_key seq ls = ls ! oldest ls # tl (sort_key seq ls)"
proof -
  let ?o = "ls ! oldest ls"
  obtain a S where S: "sort_key seq ls = a # S"
    by (cases "sort_key seq ls") (use assms(3) in \<open>auto dest: arg_cong [of _ _ length]\<close>)
  have o: "?o \<in> set ls" "\<forall>l \<in> set ls. seq ?o \<le> seq l"
    using oldest_least [OF assms(3)] by auto
  have a: "a \<in> set ls" by (metis S list.set_intros(1) set_sort)
  have "sorted (map seq (a # S))" unfolding S [symmetric] by (rule sorted_sort_key)
  moreover have "?o \<in> set (a # S)" using o(1) by (simp flip: S)
  ultimately have "seq a \<le> seq ?o" by auto
  with a o have "seq a = seq ?o" by (simp add: order_antisym)
  moreover have "inj_on seq (set ls)" using assms(1,2) by (simp add: lease_inv_def distinct_map)
  ultimately show ?thesis using a o(1) S by (simp add: inj_on_eq_iff)
qed

text \<open>One request, given what it leaves of the old leases (\<open>T\<close>, oldest first).\<close>

lemma touch_step:
  assumes inv: "lease_inv sq ls" "sq < - 1" and i: "i < length ls" and m: "m \<noteq> NO_MAC"
    and ms: "mset (held (ls[i := \<lparr>mac = m, seq = sq + 1\<rparr>])) = add_mset \<lparr>mac = m, seq = sq + 1\<rparr> (mset T)"
    and sub: "subseq T (sort_key seq (held ls))" and fresh: "m \<notin> mac ` set T"
  shows "lease_inv (sq + 1) (ls[i := \<lparr>mac = m, seq = sq + 1\<rparr>]) \<and>
    recent (ls[i := \<lparr>mac = m, seq = sq + 1\<rparr>]) = m # rev (map mac T)"
proof -
  let ?S = "sort_key seq (held ls)" and ?l = "\<lparr>mac = m, seq = sq + 1\<rparr>"
  have "distinct (map f (held ls)) = distinct (map f ?S)" for f :: "lease \<Rightarrow> 'a"
    by (rule mset_eq_imp_distinct_iff) simp
  then have "distinct (map mac ?S)" "distinct (map seq ?S)" using inv(1) by (auto simp: lease_inv_def)
  moreover obtain N where N: "T = nths ?S N" using sub by (auto simp: subseq_conv_nths)
  ultimately have d: "distinct (map mac T)" "distinct (map seq T)"
    by (simp_all add: nths_map [symmetric])
  have T: "set T \<subseteq> set (held ls)" using set_nths_subset [of ?S N] by (simp add: N)
  have "sorted (map seq T)"
    using sorted_nths [of "map seq ?S" N] by (simp add: N nths_map)
  moreover have "\<forall>t \<in> set T. seq t < seq ?l"
    using T inv less_Suc_word [OF inv(2)] by (auto simp: lease_inv_def intro: le_less_trans)
  ultimately show ?thesis
    using lease_inv_step [OF inv(1) _ T d _ _ inv(2), of _ ?l] held_append_order [of _ ?l T] ms fresh d
    by simp
qed

lemma held_all: "position (\<lambda>l. mac l = NO_MAC) ls = None \<Longrightarrow> held ls = ls"
  by (simp add: held_def position_None)

lemma chosen_step:
  assumes inv: "lease_inv sq ls" "sq < - 1" and ls: "ls \<noteq> []" and m: "m \<noteq> NO_MAC"
  defines "i \<equiv> chosen_slot ls m" and "l \<equiv> \<lparr>mac = m, seq = sq + 1\<rparr>"
  shows "lease_inv (sq + 1) (ls[i := l]) \<and>
    recent (ls[i := l]) = take (length ls) (m # removeAll m (recent ls))"
proof -
  let ?S = "sort_key seq (held ls)"
  note i = chosen_slot_less [OF ls, of m, folded i_def]
  note step = touch_step [OF inv i m, folded l_def]
  note upd = held_update [OF i, of l]
  have dm: "distinct (map mac (held ls))" using inv(1) by (simp add: lease_inv_def)
  show ?thesis
  proof (cases "position (\<lambda>l. mac l = m) ls")
    case (Some k)
    then have k: "i = k" "mac (ls ! k) = m"
      using position_Some [OF Some] by (simp_all add: i_def chosen_slot_def)
    with m i have old: "ls ! k \<in> set (held ls)" by (simp add: held_def)
    let ?T = "filter (\<lambda>l. mac l \<noteq> m) ?S"
    have "mset ?T = mset (held ls) - {#ls ! k#}"
      using arg_cong [OF filter_key_remove1 [OF dm old], of mset] k by (simp add: mset_filter)
    then have "lease_inv (sq + 1) (ls[i := l]) \<and> recent (ls[i := l]) = m # rev (map mac ?T)"
      using upd k m by (intro step) (auto simp: l_def)
    moreover have T: "rev (map mac ?T) = removeAll m (recent ls)"
      by (simp add: recent_def rev_filter removeAll_filter_not_eq filter_map comp_def rev_map eq_commute)
    moreover have "m \<in> set (recent ls)" using old k by (auto simp: set_recent)
    then have "length (removeAll m (recent ls)) < length ls"
      using length_recent [of ls] by (metis length_removeAll_less less_le_trans)
    ultimately show ?thesis by simp
  next
    case None
    then have nm: "\<forall>l \<in> set ls. mac l \<noteq> m" by (simp add: position_None)
    then have "m \<notin> set (recent ls)" by (auto simp: set_recent held_def)
    then have rem: "removeAll m (recent ls) = recent ls" by simp
    show ?thesis
    proof (cases "position (\<lambda>l. mac l = NO_MAC) ls")
      case (Some k)
      with None have k: "i = k" "mac (ls ! k) = NO_MAC"
        using position_Some [OF Some] by (simp_all add: i_def chosen_slot_def)
      with nm have "lease_inv (sq + 1) (ls[i := l]) \<and> recent (ls[i := l]) = m # recent ls"
        unfolding recent_def [of ls] using upd m by (intro step) (auto simp: l_def held_def)
      moreover from k i have "length (held ls) < length ls"
        by (auto simp: held_def intro!: length_filter_less [of "ls ! k"])
      then have "length (recent ls) < length ls" by (simp add: recent_def)
      ultimately show ?thesis using rem by simp
    next
      case n2: None
      with None have k: "i = oldest ls" by (simp add: i_def chosen_slot_def)
      note all = held_all [OF n2]
      from oldest_is_last [OF inv(1) all ls] obtain T where S: "?S = ls ! i # T" by (auto simp: k all)
      have "mset (ls ! i # T) = mset ls" by (simp flip: S add: all)
      then have "mset T = mset ls - {#ls ! i#}" by (metis add_mset_remove_trivial mset.simps(2))
      moreover have "mac (ls ! i) \<noteq> NO_MAC" using n2 i by (auto simp: position_None)
      moreover have "set T \<subseteq> set ls" using S by (metis all set_sort set_subset_Cons)
      moreover have "subseq T ?S" unfolding S by (rule list_emb_Cons) simp
      ultimately have "lease_inv (sq + 1) (ls[i := l]) \<and> recent (ls[i := l]) = m # rev (map mac T)"
        using upd m nm all by (intro step) (auto simp: l_def)
      moreover have "recent ls = rev (map mac T) @ [mac (ls ! i)]" by (simp add: recent_def S)
      moreover have "length ls = Suc (length T)" by (metis S all length_Cons length_sort)
      ultimately show ?thesis using rem by simp
    qed
  qed
qed

section \<open>Recency lists\<close>

definition before :: "'k \<Rightarrow> 'k list \<Rightarrow> 'k set" where
  "before k R = set (takeWhile (\<lambda>x. x \<noteq> k) R)"

lemma takeWhile_removeAll:
  "m \<noteq> k \<Longrightarrow> takeWhile (\<lambda>x. x \<noteq> k) (removeAll m R) = removeAll m (takeWhile (\<lambda>x. x \<noteq> k) R)"
  by (induction R) auto

lemma before_split: "k \<notin> set t \<Longrightarrow> before k (t @ k # u) = set t"
  by (induction t) (auto simp: before_def)

lemma recency_touch:
  assumes "k \<in> set R" "distinct R" "m \<in> A" "finite A" "card (before k R \<union> A - {k}) < n"
  shows "k \<in> set (take n (m # removeAll m R)) \<and>
    before k (take n (m # removeAll m R)) \<subseteq> before k R \<union> {m} - {k}"
proof (cases "m = k")
  case True
  with assms(5) show ?thesis by (cases n) (auto simp: before_def)
next
  case False
  let ?l = "m # removeAll m R"
  have "k \<in> set ?l" using assms(1) False by simp
  then obtain t u where l: "?l = t @ k # u" "k \<notin> set t" by (meson split_list_first)
  have "set t = before k ?l" using l by (simp add: before_split)
  also have "\<dots> \<subseteq> before k R \<union> {m} - {k}"
    using False by (auto simp: before_def takeWhile_removeAll dest: set_takeWhileD)
  finally have t: "set t \<subseteq> before k R \<union> {m} - {k}" .
  have "distinct ?l" using assms(2) by (simp add: distinct_removeAll)
  then have "length t = card (set t)" unfolding l by (simp add: distinct_card)
  also have "\<dots> \<le> card (before k R \<union> A - {k})"
    using t assms(3,4) by (intro card_mono) (auto simp: before_def)
  finally have "length t < n" using assms(5) by simp
  then have "take n ?l = t @ k # take (n - Suc (length t)) u"
    unfolding l by (simp add: take_Cons')
  then show ?thesis using t l(2) by (simp add: before_split)
qed

section \<open>The contract of an address pool\<close>

text \<open>
  What the DHCP server relies on.  The pool holds the \<open>n\<close> most recent clients, one slot
  each, and a client keeps its slot while it stays in.  \<open>ok j s\<close>: the state is sound and can
  take \<open>j\<close> more requests before the sequence counter wraps.
\<close>

locale slot_pool =
  fixes alloc :: "'s \<Rightarrow> 'k \<Rightarrow> nat \<times> 's"
    and clients :: "'s \<Rightarrow> 'k list"
    and slot :: "'s \<Rightarrow> 'k \<Rightarrow> nat"
    and ok :: "nat \<Rightarrow> 's \<Rightarrow> bool"
    and good :: "'k \<Rightarrow> bool"
    and n :: nat
  assumes alloc_ok: "ok (Suc j) s \<Longrightarrow> good m \<Longrightarrow> ok j (snd (alloc s m))"
    and alloc_clients: "ok (Suc j) s \<Longrightarrow> good m \<Longrightarrow>
      clients (snd (alloc s m)) = take n (m # removeAll m (clients s))"
    and alloc_slot: "ok (Suc j) s \<Longrightarrow> good m \<Longrightarrow> fst (alloc s m) = slot (snd (alloc s m)) m"
    and slot_stays: "ok (Suc j) s \<Longrightarrow> good m \<Longrightarrow> k \<in> set (clients s) \<Longrightarrow>
      k \<in> set (clients (snd (alloc s m))) \<Longrightarrow> slot (snd (alloc s m)) k = slot s k"
    and slot_less: "ok j s \<Longrightarrow> k \<in> set (clients s) \<Longrightarrow> slot s k < n"
    and slot_inj: "ok j s \<Longrightarrow> k \<in> set (clients s) \<Longrightarrow> k' \<in> set (clients s) \<Longrightarrow>
      slot s k = slot s k' \<Longrightarrow> k = k'"
    and clients_distinct: "ok j s \<Longrightarrow> distinct (clients s)"
    and pos: "0 < n"
begin

primrec serve :: "'k list \<Rightarrow> 's \<Rightarrow> 's" where
  "serve [] s = s"
| "serve (m # ms) s = serve ms (snd (alloc s m))"

lemma serve_ok: "ok (length ms + j) s \<Longrightarrow> list_all good ms \<Longrightarrow> ok j (serve ms s)"
  by (induction ms arbitrary: s) (auto intro: alloc_ok)

text \<open>A client outlives fewer than \<open>n\<close> others.\<close>

lemma client_stays:
  assumes "k \<in> set (clients s)" "distinct (clients s)"
    and "card (before k (clients s) \<union> set ms - {k}) < n"
    and "ok (length ms + j) s" "list_all good ms"
  shows "k \<in> set (clients (serve ms s)) \<and> slot (serve ms s) k = slot s k"
  using assms
proof (induction ms arbitrary: s)
  case Nil
  then show ?case by simp
next
  case (Cons m ms)
  let ?s = "snd (alloc s m)"
  have ok: "ok (Suc (length ms + j)) s" "good m" "list_all good ms" using Cons.prems(4,5) by simp_all
  have "k \<in> set (clients ?s)" and sub: "before k (clients ?s) \<subseteq> before k (clients s) \<union> {m} - {k}"
    using recency_touch [OF Cons.prems(1,2) _ _ Cons.prems(3), of m]
    by (simp_all add: alloc_clients [OF ok(1,2)])
  moreover have "ok (length ms + j) ?s" by (rule alloc_ok [OF ok(1,2)])
  moreover have "card (before k (clients ?s) \<union> set ms - {k}) \<le> card (before k (clients s) \<union> set (m # ms) - {k})"
    using sub by (intro card_mono) (auto simp: before_def)
  with Cons.prems(3) have "card (before k (clients ?s) \<union> set ms - {k}) < n" by linarith
  ultimately show ?case
    using Cons.IH [of ?s] clients_distinct ok slot_stays [OF ok(1,2) Cons.prems(1)] by auto
qed

text \<open>Asking again after fewer than \<open>n\<close> others gives the same slot.\<close>

theorem slot_stable:
  assumes "ok (length ms + 2 + j) s" "good m" "list_all good ms" "card (set ms - {m}) < n"
  shows "fst (alloc (serve ms (snd (alloc s m))) m) = fst (alloc s m)"
proof -
  let ?s = "snd (alloc s m)" and ?t = "serve ms (snd (alloc s m))"
  have ok: "ok (Suc (length ms + 1 + j)) s" using assms(1) by simp
  have c: "clients ?s = take n (m # removeAll m (clients s))" by (rule alloc_clients [OF ok assms(2)])
  with pos have m: "m \<in> set (clients ?s)" "before m (clients ?s) = {}"
    by (cases n; simp add: before_def)+
  have "ok (length ms + Suc j) ?s" using alloc_ok [OF ok assms(2)] by simp
  from client_stays [OF m(1) clients_distinct [OF this] _ this] assms(3,4) m(2)
  have stay: "m \<in> set (clients ?t)" "slot ?t m = slot ?s m" by simp_all
  have t: "ok (Suc j) ?t" using serve_ok [OF \<open>ok (length ms + Suc j) ?s\<close>] assms(3) by simp
  have "m \<in> set (clients (snd (alloc ?t m)))"
    using alloc_clients [OF t assms(2)] pos by (cases n) simp_all
  then have "fst (alloc ?t m) = slot ?t m"
    using alloc_slot [OF t assms(2)] slot_stays [OF t assms(2) stay(1)] by simp
  with stay(2) alloc_slot [OF ok assms(2)] show ?thesis by simp
qed

text \<open>Two clients in the pool never share a slot.\<close>

lemma slots_differ:
  "ok j s \<Longrightarrow> k \<in> set (clients s) \<Longrightarrow> k' \<in> set (clients s) \<Longrightarrow> k \<noteq> k' \<Longrightarrow> slot s k \<noteq> slot s k'"
  using slot_inj by blast

end

section \<open>The lease table is such a pool\<close>

definition alloc_slot :: "lease list \<times> u32 \<Rightarrow> bytes \<Rightarrow> nat \<times> lease list \<times> u32" where
  "alloc_slot p m = (case slot_for_mac (fst p) (snd p) m of
     Some (i, ls, sq) \<Rightarrow> (unat i, ls, sq) | None \<Rightarrow> (0, p))"

definition slot_of_mac :: "lease list \<Rightarrow> bytes \<Rightarrow> nat" where
  "slot_of_mac ls m = (case position (\<lambda>l. mac l = m) ls of Some i \<Rightarrow> i | None \<Rightarrow> 0)"

definition pool_ok :: "nat \<Rightarrow> lease list \<times> u32 \<Rightarrow> bool" where
  "pool_ok j p \<longleftrightarrow> length (fst p) = unat POOL_SIZE \<and> lease_inv (snd p) (fst p) \<and>
     unat (snd p) + j < 2 ^ 32"

definition empty_pool :: "lease list \<times> u32" where
  "empty_pool = (replicate (unat POOL_SIZE) EMPTY, 0)"

lemma pool_size: "unat POOL_SIZE = 8"
  by (simp add: POOL_SIZE_def)

lemma empty_pool_ok: "j < 2 ^ 32 \<Longrightarrow> pool_ok j empty_pool"
  by (simp add: pool_ok_def empty_pool_def pool_size lease_inv_def held_def EMPTY_def)

lemma recent_empty_pool: "recent (fst empty_pool) = []"
  by (simp add: empty_pool_def pool_size recent_def held_def EMPTY_def)

lemma pool_ok_fields:
  assumes "pool_ok j p"
  shows "length (fst p) = 8" "fst p \<noteq> []" "lease_inv (snd p) (fst p)"
  using assms by (auto simp: pool_ok_def pool_size)

lemma pool_ok_room: "pool_ok (Suc j) p \<Longrightarrow> snd p < - 1"
  by (auto simp: pool_ok_def word_less_nat_alt unsigned_minus_1_eq_mask mask_eq_exp_minus_1)

lemma alloc_slot_eq:
  assumes "pool_ok j p"
  shows "alloc_slot p m = (chosen_slot (fst p) m,
    (fst p)[chosen_slot (fst p) m := \<lparr>mac = m, seq = snd p + 1\<rparr>], snd p + 1)"
proof -
  note p = pool_ok_fields [OF assms]
  have "chosen_slot (fst p) m < 8" using chosen_slot_less [OF p(2)] p(1) by metis
  then show ?thesis
    by (simp add: alloc_slot_def slot_for_mac_eq [OF p(2)] unat_of_nat)
qed

lemma position_update_other:
  assumes "position P ls = Some k" "k \<noteq> i" "\<not> P v" "i < length ls"
  shows "position P (ls[i := v]) = Some k"
  using assms position_Some [OF assms(1)]
  by (intro position_first) (auto simp: nth_list_update)

lemma slot_of_mac_holds:
  assumes "m \<in> set (recent ls)"
  shows "position (\<lambda>l. mac l = m) ls = Some (slot_of_mac ls m)" "mac (ls ! slot_of_mac ls m) = m"
proof -
  have "position (\<lambda>l. mac l = m) ls \<noteq> None"
    using assms position_None [of "\<lambda>l. mac l = m" ls] by (auto simp: set_recent held_def)
  then show "position (\<lambda>l. mac l = m) ls = Some (slot_of_mac ls m)"
    by (auto simp: slot_of_mac_def)
  from position_Some [OF this] show "mac (ls ! slot_of_mac ls m) = m" by simp
qed

lemma slot_of_mac_less:
  assumes "ls \<noteq> []" shows "slot_of_mac ls m < length ls"
  using assms by (auto simp: slot_of_mac_def dest: position_Some split: option.split)

lemma mac_unique:
  "distinct (map mac (held ls)) \<Longrightarrow> i < length ls \<Longrightarrow> j < length ls \<Longrightarrow>
   mac (ls ! i) = mac (ls ! j) \<Longrightarrow> mac (ls ! i) \<noteq> NO_MAC \<Longrightarrow> i = j"
proof (induction ls arbitrary: i j)
  case (Cons l ls)
  have held: "held (l # ls) = (if mac l \<noteq> NO_MAC then l # held ls else held ls)"
    by (simp add: held_def)
  have "mac (ls ! k) \<noteq> mac l" if "k < length ls" "mac l \<noteq> NO_MAC" for k
  proof
    assume eq: "mac (ls ! k) = mac l"
    with that have "ls ! k \<in> set (held ls)" by (simp add: held_def)
    with eq have "mac l \<in> mac ` set (held ls)" by (metis image_eqI)
    with that(2) Cons.prems(1) show False by (simp add: held)
  qed
  then show ?case
    using Cons by (cases i; cases j) (auto simp: held dest: sym split: if_splits)
qed simp

lemma recent_not_NO_MAC: "m \<in> set (recent ls) \<Longrightarrow> m \<noteq> NO_MAC"
  by (auto simp: set_recent held_def)

lemma slot_of_mac_eqI:
  assumes "lease_inv sq ls" "i < length ls" "mac (ls ! i) = m" "m \<noteq> NO_MAC"
  shows "slot_of_mac ls m = i"
proof -
  have "m \<in> set (recent ls)" using assms(2-4) by (auto simp: set_recent held_def)
  moreover have "slot_of_mac ls m < length ls" by (rule slot_of_mac_less) (use assms(2) in auto)
  ultimately show ?thesis
    using assms mac_unique [of ls "slot_of_mac ls m" i] slot_of_mac_holds(2)
    by (simp add: lease_inv_def)
qed

text \<open>Updating slot \<open>i\<close> for \<open>m\<close> leaves the others where they are.\<close>

lemma slot_stays_update:
  assumes "lease_inv sq ls" "lease_inv sq' (ls[i := l])" "i < length ls" "i = chosen_slot ls (mac l)"
    and k: "k \<in> set (recent ls)" "k \<in> set (recent (ls[i := l]))"
  shows "slot_of_mac (ls[i := l]) k = slot_of_mac ls k"
proof (cases "k = mac l")
  case True
  with k(1) assms(4) have "slot_of_mac ls k = i"
    using slot_of_mac_holds [OF k(1)] by (simp add: chosen_slot_def)
  with True assms(2,3) recent_not_NO_MAC [OF k(1)] show ?thesis
    by (auto intro: slot_of_mac_eqI)
next
  case False
  let ?y = "slot_of_mac (ls[i := l]) k"
  have "ls[i := l] \<noteq> []" using assms(3) by auto
  with slot_of_mac_holds(2) [OF k(2)] slot_of_mac_less [of "ls[i := l]" k]
  have y: "mac (ls[i := l] ! ?y) = k" "?y < length ls" by auto
  with False assms(3) have "?y \<noteq> i" by auto
  with y have "mac (ls ! ?y) = k" by simp
  with assms(1) y(2) recent_not_NO_MAC [OF k(1)] show ?thesis
    by (simp add: slot_of_mac_eqI)
qed

interpretation pool: slot_pool alloc_slot "\<lambda>p. recent (fst p)" "\<lambda>p. slot_of_mac (fst p)"
  pool_ok "\<lambda>m. m \<noteq> NO_MAC" "unat POOL_SIZE"
proof
  fix j p k and m :: bytes
  show "0 < unat POOL_SIZE" by (simp add: pool_size)
  show "pool_ok j p \<Longrightarrow> k \<in> set (recent (fst p)) \<Longrightarrow> slot_of_mac (fst p) k < unat POOL_SIZE"
    using slot_of_mac_less pool_ok_fields pool_size by metis
  show "pool_ok j p \<Longrightarrow> distinct (recent (fst p))"
    by (rule distinct_recent [OF pool_ok_fields(3)])
  show "pool_ok j p \<Longrightarrow> k \<in> set (recent (fst p)) \<Longrightarrow> k' \<in> set (recent (fst p)) \<Longrightarrow>
    slot_of_mac (fst p) k = slot_of_mac (fst p) k' \<Longrightarrow> k = k'" for k'
    by (metis slot_of_mac_holds(2))
  assume ok: "pool_ok (Suc j) p" and m: "m \<noteq> NO_MAC"
  let ?i = "chosen_slot (fst p) m" and ?l = "\<lparr>mac = m, seq = snd p + 1\<rparr>"
  note p = pool_ok_fields [OF ok]
  note step = chosen_step [OF p(3) pool_ok_room [OF ok] p(2) m]
  note i = chosen_slot_less [OF p(2), of m]
  have a: "alloc_slot p m = (?i, (fst p)[?i := ?l], snd p + 1)" by (rule alloc_slot_eq [OF ok])
  have "unat (snd p + 1) = Suc (unat (snd p))" by (rule unat_Suc_word [OF pool_ok_room [OF ok]])
  with step p(1) a ok show "pool_ok j (snd (alloc_slot p m))"
    by (simp add: pool_ok_def pool_size)
  show "recent (fst (snd (alloc_slot p m))) = take (unat POOL_SIZE) (m # removeAll m (recent (fst p)))"
    using step p(1) by (simp add: a pool_size)
  have inv': "lease_inv (snd p + 1) ((fst p)[?i := ?l])" using step by blast
  have "m = mac ?l" by simp
  show "fst (alloc_slot p m) = slot_of_mac (fst (snd (alloc_slot p m))) m"
    using slot_of_mac_eqI [OF inv', of ?i m] i m by (simp add: a)
  show "k \<in> set (recent (fst p)) \<Longrightarrow> k \<in> set (recent (fst (snd (alloc_slot p m)))) \<Longrightarrow>
    slot_of_mac (fst (snd (alloc_slot p m))) k = slot_of_mac (fst p) k"
    using slot_stays_update [OF p(3) inv' i] by (simp add: a)
qed

section \<open>Properties\<close>

text \<open>C13: the lease table is a least-recently-used cache.  For a client address other than
  all zeros, in a table within its invariant and with the counter below its maximum, the
  call returns a slot of the table, makes the client the most recent one and drops only the
  least recent client of a full table, and every client that stays keeps its slot.\<close>

theorem slot_for_mac_lru:
  assumes "lease_inv sq ls" "length ls = 8" "unat sq + 1 < 2 ^ 32" "m \<noteq> NO_MAC"
  shows "\<exists>i ls'. slot_for_mac ls sq m = ret (i, ls', sq + 1) \<and> unat i < 8 \<and> length ls' = 8 \<and>
    lease_inv (sq + 1) ls' \<and> recent ls' = take 8 (m # removeAll m (recent ls)) \<and>
    unat i = slot_of_mac ls' m \<and>
    (\<forall>k \<in> set (recent ls) \<inter> set (recent ls'). slot_of_mac ls' k = slot_of_mac ls k)"
proof -
  have ok: "pool_ok (Suc 0) (ls, sq)" using assms by (simp add: pool_ok_def pool_size)
  obtain i ls' where s: "slot_for_mac ls sq m = ret (i, ls', sq + 1)"
    using slot_for_mac_eq [of ls sq m] assms(2) by force
  then have a: "alloc_slot (ls, sq) m = (unat i, ls', sq + 1)" by (simp add: alloc_slot_def)
  from pool.alloc_ok [OF ok assms(4)] have "length ls' = 8" "lease_inv (sq + 1) ls'"
    by (simp_all add: a pool_ok_def pool_size)
  moreover from this(1) have "slot_of_mac ls' m < 8" using slot_of_mac_less [of ls' m] by force
  ultimately show ?thesis
    using s pool.alloc_clients [OF ok assms(4)] pool.alloc_slot [OF ok assms(4)]
      pool.slot_stays [OF ok assms(4)]
    by (auto simp: a pool_size)
qed

theorem slot_for_mac_lru_witness:
  "\<exists>i ls'. slot_for_mac (replicate 8 EMPTY) 0 [2, 0, 0, 0, 0, 1] = ret (i, ls', 1) \<and>
     recent ls' = [[2, 0, 0, 0, 0, 1]] \<and> unat i = slot_of_mac ls' [2, 0, 0, 0, 0, 1]"
proof -
  have "lease_inv 0 (replicate 8 EMPTY)" "recent (replicate 8 EMPTY) = []"
    by (simp_all add: lease_inv_def held_def EMPTY_def recent_def)
  then show ?thesis
    using slot_for_mac_lru [of 0 "replicate 8 EMPTY" "[2, 0, 0, 0, 0, 1]"]
    by (auto simp: NO_MAC_def)
qed

end
