(* ===== verification/Dns_Proto.thy ===== *)
theory Dns_Proto
  imports Dhcp_Proto
begin

text \<open>
  The DNS half of \<open>src/net_proto.rs\<close>: \<open>skip_name\<close>, \<open>build_dns_reply\<close> and \<open>dns_qtype\<close>,
  against a reference encoding of names and queries.
\<close>

unbundle bit_operations_syntax

section \<open>Model\<close>

text \<open>
  \<open>i.checked_add(1 + len)\<close> cannot overflow: \<open>i\<close> is below the packet's length and \<open>len\<close> is a
  byte.
\<close>

function skip_name :: "bytes \<Rightarrow> nat \<Rightarrow> nat option rs" where
  "skip_name q i =
     (if i \<ge> length q then ret None
      else do {
        b \<leftarrow> idx q i;
        let len = unat b;
        if len = 0 then ret (Some (i + 1))
        else if len AND 0xC0 = 0xC0 then ret (if i + 1 < length q then Some (i + 2) else None)
        else (let i = i + (1 + len) in
          if i > length q then ret None else skip_name q i)
      })"
  by pat_completeness auto
termination
  by (relation "measure (\<lambda>(q, i). length q - i)") auto

declare skip_name.simps [simp del]

definition write_answer :: "bytes \<Rightarrow> nat \<Rightarrow> bytes rs" where
  "write_answer out len = do {
     out \<leftarrow> put out 7 1;
     out \<leftarrow> put out len 0xC0;
     out \<leftarrow> put out (len + 1) 12;
     out \<leftarrow> put out (len + 2) 0;
     out \<leftarrow> put out (len + 3) 1;
     out \<leftarrow> put out (len + 4) 0;
     out \<leftarrow> put out (len + 5) 1;
     out \<leftarrow> put out (len + 6) 0;
     out \<leftarrow> put out (len + 7) 0;
     out \<leftarrow> put out (len + 8) 0;
     out \<leftarrow> put out (len + 9) 30;
     out \<leftarrow> put out (len + 10) 0;
     out \<leftarrow> put out (len + 11) 4;
     copy_into out (len + 12) (len + 16) SERVER_IP
   }"

definition write_dns_reply :: "bytes \<Rightarrow> nat \<Rightarrow> u16 \<Rightarrow> bytes \<Rightarrow> (nat option \<times> bytes) rs" where
  "write_dns_reply q qend qtype out = do {
     src \<leftarrow> slice_of q 0 qend;
     out \<leftarrow> copy_into out 0 qend src;
     out \<leftarrow> put out 2 0x81;
     out \<leftarrow> put out 3 0x80;
     out \<leftarrow> put out 6 0;
     out \<leftarrow> put out 8 0;
     out \<leftarrow> put out 9 0;
     out \<leftarrow> put out 10 0;
     out \<leftarrow> put out 11 0;
     if qtype = 1 \<and> qend + 16 \<le> length out then do {
       out \<leftarrow> write_answer out qend;
       ret (Some (qend + 16), out)
     } else do {
       out \<leftarrow> put out 7 0;
       ret (Some qend, out)
     }
   }"

definition build_dns_reply :: "bytes \<Rightarrow> nat \<Rightarrow> bytes \<Rightarrow> (nat option \<times> bytes) rs" where
  "build_dns_reply query n out =
     (if n < 12 \<or> n > length query then ret (None, out)
      else do {
        q \<leftarrow> slice_of query 0 n;
        e \<leftarrow> skip_name q 12;
        case e of
          None \<Rightarrow> ret (None, out)
        | Some name_end \<Rightarrow>
            if name_end + 4 > n then ret (None, out)
            else do {
              h \<leftarrow> idx q name_end;
              l \<leftarrow> idx q (name_end + 1);
              let qtype = be16 h l;
              let qend = name_end + 4;
              if length out < qend then ret (None, out)
              else write_dns_reply q qend qtype out
            }
      })"

definition dns_qtype :: "bytes \<Rightarrow> nat \<Rightarrow> u16 option rs" where
  "dns_qtype query n =
     (if n < 12 \<or> n > length query then ret None
      else do {
        q \<leftarrow> slice_of query 0 n;
        e \<leftarrow> skip_name q 12;
        case e of
          None \<Rightarrow> ret None
        | Some name_end \<Rightarrow>
            if name_end + 4 > n then ret None
            else do {
              h \<leftarrow> idx query name_end;
              l \<leftarrow> idx query (name_end + 1);
              ret (Some (be16 h l))
            }
      })"

section \<open>Names\<close>

text \<open>
  What \<open>skip_name\<close> walks over: labels of 1 to 191 bytes (any length byte without both top
  bits), ended by the root label or by a compression pointer.
\<close>

datatype name_end = Root | Pointer u8 u8

definition label_ok :: "bytes \<Rightarrow> bool" where
  "label_ok l \<longleftrightarrow> 0 < length l \<and> length l < 192"

fun end_ok :: "name_end \<Rightarrow> bool" where
  "end_ok Root \<longleftrightarrow> True"
| "end_ok (Pointer h l) \<longleftrightarrow> 192 \<le> unat h"

fun end_bytes :: "name_end \<Rightarrow> bytes" where
  "end_bytes Root = [0]"
| "end_bytes (Pointer h l) = [h, l]"

definition label_bytes :: "bytes \<Rightarrow> bytes" where
  "label_bytes l = of_nat (length l) # l"

definition name_bytes :: "bytes list \<Rightarrow> name_end \<Rightarrow> bytes" where
  "name_bytes ls e = concat (map label_bytes ls) @ end_bytes e"

lemma and_C0: "n AND 0xC0 = 64 * (n div 64 mod 4)" for n :: nat
proof -
  have "(0xC0 :: nat) = push_bit 6 (mask 2)" by (simp add: push_bit_eq_mult mask_eq_exp_minus_1)
  then have "n AND 0xC0 = push_bit 6 (take_bit 2 (drop_bit 6 n))"
    by (auto simp: bit_eq_iff bit_simps)
  then show ?thesis by (simp add: push_bit_eq_mult take_bit_eq_mod drop_bit_eq_div)
qed

lemma pointer_test: "n < 256 \<Longrightarrow> n AND 0xC0 = 0xC0 \<longleftrightarrow> 192 \<le> n" for n :: nat
proof -
  assume "n < 256"
  then have "n div 64 < 4" by (simp add: less_mult_imp_div_less)
  then have "n AND 0xC0 = 0xC0 \<longleftrightarrow> n div 64 = 3" by (simp add: and_C0)
  also have "\<dots> \<longleftrightarrow> 192 \<le> n" using \<open>n < 256\<close> by linarith
  finally show ?thesis .
qed

lemma skip_name_step:
  "skip_name q i =
     (if i \<ge> length q then ret None
      else if unat (q ! i) = 0 then ret (Some (i + 1))
      else if 192 \<le> unat (q ! i) then ret (if i + 1 < length q then Some (i + 2) else None)
      else if i + (1 + unat (q ! i)) > length q then ret None
      else skip_name q (i + (1 + unat (q ! i))))"
  by (subst skip_name.simps)
    (simp add: idx_ok pointer_test [OF u8_less] Let_def del: unat_eq_zero)

lemma skip_name_total: "\<exists>r. skip_name q i = ret r \<and> (\<forall>e. r = Some e \<longrightarrow> i < e \<and> e \<le> length q)"
proof (induction i rule: measure_induct_rule [where f = "\<lambda>i. length q - i"])
  case (less i)
  show ?case
  proof (cases "i < length q \<and> unat (q ! i) \<noteq> 0 \<and> unat (q ! i) < 192 \<and>
      i + (1 + unat (q ! i)) \<le> length q")
    case True
    then have "length q - (i + (1 + unat (q ! i))) < length q - i" by linarith
    from less [OF this] True show ?thesis by (subst skip_name_step) auto
  next
    case False
    then show ?thesis by (subst skip_name_step) auto
  qed
qed

lemma length_name_bytes: "0 < length (name_bytes ls e)"
  by (cases e) (simp_all add: name_bytes_def)

lemma name_bytes_simps [simp]:
  "name_bytes [] e = end_bytes e"
  "name_bytes (l # ls) e = of_nat (length l) # l @ name_bytes ls e"
  by (simp_all add: name_bytes_def label_bytes_def)

lemma label_len: "label_ok l \<Longrightarrow> unat (of_nat (length l) :: u8) = length l"
  by (simp add: label_ok_def unat_of_nat)

lemma skip_name_encoded:
  "list_all label_ok ls \<Longrightarrow> end_ok e \<Longrightarrow>
   skip_name (pre @ name_bytes ls e @ rest) (length pre) =
   ret (Some (length pre + length (name_bytes ls e)))"
proof (induction ls arbitrary: pre)
  case Nil
  then show ?case by (cases e) (subst skip_name_step; simp)+
next
  case (Cons l ls)
  let ?b = "of_nat (length l) :: u8"
  have l: "label_ok l" "0 < length l" "length l < 192" using Cons.prems by (simp_all add: label_ok_def)
  have "skip_name (pre @ name_bytes (l # ls) e @ rest) (length pre) =
      skip_name (pre @ name_bytes (l # ls) e @ rest) (length pre + (1 + length l))"
    using l by (subst skip_name_step) (simp add: label_len)
  also have "\<dots> = ret (Some (length pre + length (name_bytes (l # ls) e)))"
    using Cons.IH [of "pre @ ?b # l"] Cons.prems by (simp add: ac_simps)
  finally show ?case .
qed

lemma skip_name_decodes:
  "skip_name q i = ret (Some e) \<Longrightarrow>
   \<exists>ls en. list_all label_ok ls \<and> end_ok en \<and> drop i q = name_bytes ls en @ drop e q"
proof (induction i rule: measure_induct_rule [where f = "\<lambda>i. length q - i"])
  case (less i)
  let ?n = "unat (q ! i)"
  from less.prems consider
    (root) "i < length q" "?n = 0" "e = i + 1" |
    (ptr) "i + 1 < length q" "192 \<le> ?n" "e = i + 2" |
    (label) "i + (1 + ?n) \<le> length q" "0 < ?n" "?n < 192" "skip_name q (i + (1 + ?n)) = ret (Some e)"
    by (subst (asm) skip_name_step) (auto split: if_splits)
  then show ?case
  proof cases
    case root
    then have "drop i q = name_bytes [] Root @ drop e q" by (simp add: drop_nth_Cons word_unat_eq_iff)
    then show ?thesis by (intro exI [of _ "[]"] exI [of _ Root]) simp
  next
    case ptr
    then have "drop i q = name_bytes [] (Pointer (q ! i) (q ! (i + 1))) @ drop e q"
      by (simp add: drop_nth_Cons)
    with ptr(2) show ?thesis
      by (intro exI [of _ "[]"] exI [of _ "Pointer (q ! i) (q ! (i + 1))"]) simp
  next
    case label
    then have "length q - (i + (1 + ?n)) < length q - i" by linarith
    from less.IH [OF this label(4)] obtain ls en where
      IH: "list_all label_ok ls" "end_ok en" "drop (i + (1 + ?n)) q = name_bytes ls en @ drop e q"
      by blast
    let ?l = "take ?n (drop (i + 1) q)"
    have len: "length ?l = ?n" using label(1) by simp
    have "drop i q = q ! i # drop (i + 1) q" using label(1) by (simp add: drop_nth_Cons)
    also have "drop (i + 1) q = ?l @ drop ?n (drop (i + 1) q)" by (rule append_take_drop_id [symmetric])
    also have "drop ?n (drop (i + 1) q) = drop (i + (1 + ?n)) q" by (simp add: ac_simps)
    finally have "drop i q = q ! i # ?l @ name_bytes ls en @ drop e q" by (simp only: IH(3))
    moreover have "of_nat (length ?l) = q ! i" unfolding len by simp
    ultimately have "drop i q = name_bytes (?l # ls) en @ drop e q"
      by (simp only: name_bytes_simps append.simps append_assoc)
    moreover have "label_ok ?l" using label len by (simp add: label_ok_def)
    ultimately show ?thesis using IH by (intro exI [of _ "?l # ls"] exI [of _ en]) simp
  qed
qed

section \<open>Replies\<close>

definition dns_header :: "bytes \<Rightarrow> u8 \<Rightarrow> bytes" where
  "dns_header q an = [q ! 0, q ! 1, 0x81, 0x80, q ! 4, q ! 5, 0, an, 0, 0, 0, 0]"

definition a_record :: bytes where
  "a_record = [0xC0, 12, 0, 1, 0, 1, 0, 0, 0, 30, 0, 4] @ SERVER_IP"

definition dns_reply :: "bytes \<Rightarrow> nat \<Rightarrow> bool \<Rightarrow> bytes" where
  "dns_reply q qend answer =
     dns_header q (if answer then 1 else 0) @ take (qend - 12) (drop 12 q) @
     (if answer then a_record else [])"

lemma put_Cons: "put (x # xs) i v = (case i of 0 \<Rightarrow> ret (v # xs) | Suc j \<Rightarrow> map_option ((#) x) (put xs j v))"
  by (auto simp: put_def split: nat.split)

lemma length_ge_12:
  assumes "12 \<le> length xs"
  obtains a b c d e f g h i j k l r where "xs = a # b # c # d # e # f # g # h # i # j # k # l # r"
  using assms by (auto simp: Suc_le_length_iff eval_nat_numeral)

lemma header_puts:
  "12 \<le> length out \<Longrightarrow>
   (do {
     out \<leftarrow> put out 2 0x81;
     out \<leftarrow> put out 3 0x80;
     out \<leftarrow> put out 6 0;
     out \<leftarrow> put out 8 0;
     out \<leftarrow> put out 9 0;
     out \<leftarrow> put out 10 0;
     out \<leftarrow> put out 11 0;
     f out
   }) = f (dns_header out (out ! 7) @ drop 12 out)"
  by (erule length_ge_12) (simp add: put_def dns_header_def eval_nat_numeral)

lemma put_7_header: "put (dns_header q v @ r) 7 w = ret (dns_header q w @ r)"
  by (simp add: put_def dns_header_def eval_nat_numeral)

lemma put_append_right: "put (P @ Q) (length P + k) v = map_option ((@) P) (put Q k v)"
  by (simp add: put_def list_update_append)

lemma length_ge_16:
  assumes "16 \<le> length xs"
  obtains a b c d e f g h i j k l m n p q r where
    "xs = a # b # c # d # e # f # g # h # i # j # k # l # m # n # p # q # r"
  using assms by (auto simp: Suc_le_length_iff eval_nat_numeral)

lemma write_answer_eq:
  assumes "12 \<le> len" "len + 16 \<le> length (dns_header q v @ r)"
  shows "write_answer (dns_header q v @ r) len =
    ret (dns_header q 1 @ take (len - 12) r @ a_record @ drop (len + 4) r)"
proof -
  have h: "length (dns_header q v) = 12" for v by (simp add: dns_header_def)
  define P where "P = dns_header q 1 @ take (len - 12) r"
  have P: "length P = len" using assms h by (simp add: P_def)
  have "16 \<le> length (drop (len - 12) r)" using assms h by simp
  then obtain a b c d e f g h i j k l m n p' q' r' where
    Q: "drop (len - 12) r = a # b # c # d # e # f # g # h # i # j # k # l # m # n # p' # q' # r'"
    by (rule length_ge_16)
  have PQ: "dns_header q 1 @ r = P @ drop (len - 12) r" by (simp add: P_def)
  have "drop (len + 4) r = drop 16 (drop (len - 12) r)" using assms(1) by (simp add: add.commute)
  also have "\<dots> = r'" unfolding Q by (simp add: eval_nat_numeral)
  finally have r': "drop (len + 4) r = r'" .
  note put0 = put_append_right [of P _ 0, unfolded P, simplified]
  note put1 = put_append_right [of P _ 1, unfolded P, simplified]
  note put2 = put_append_right [of P _ 2, unfolded P, simplified]
  note putk = put_append_right [of P, unfolded P]
  show ?thesis
    by (simp add: write_answer_def put_7_header PQ Q put0 put1 put2 putk put_Cons r' a_record_def SERVER_IP_def
        copy_into_def P P_def [symmetric])
qed

lemma nth_12: "12 \<le> qend \<Longrightarrow> i < 12 \<Longrightarrow> qend \<le> length q \<Longrightarrow> (take qend q @ r) ! i = q ! i"
  by (simp add: nth_append)

lemma length_dns_header [simp]: "length (dns_header q v) = 12"
  by (simp add: dns_header_def)

lemma length_dns_reply:
  "12 \<le> qend \<Longrightarrow> qend \<le> length q \<Longrightarrow>
   length (dns_reply q qend ans) = qend + (if ans then 16 else 0)"
  by (simp add: dns_reply_def a_record_def SERVER_IP_def)

lemma write_dns_reply_eq:
  assumes "12 \<le> qend" "qend \<le> length q" "qend \<le> length out"
  shows "write_dns_reply q qend qtype out =
    (let r = dns_reply q qend (qtype = 1 \<and> qend + 16 \<le> length out)
     in ret (Some (length r), r @ drop (length r) out))"
proof -
  let ?o = "take qend q @ drop qend out"
  have h: "dns_header ?o v = dns_header q v" for v
    using assms by (simp add: dns_header_def nth_12)
  have d: "drop 12 ?o = take (qend - 12) (drop 12 q) @ drop qend out"
    using assms by (simp add: drop_take)
  have "write_dns_reply q qend qtype out =
    (let out' = dns_header q (?o ! 7) @ take (qend - 12) (drop 12 q) @ drop qend out in
     if qtype = 1 \<and> qend + 16 \<le> length out then do {
       out \<leftarrow> write_answer out' qend;
       ret (Some (qend + 16), out)
     } else do {
       out \<leftarrow> put out' 7 0;
       ret (Some qend, out)
     })"
    using assms by (simp add: write_dns_reply_def slice_of_ok copy_into_ok header_puts h d
        Let_def del: drop_append)
  also have "\<dots> = (let r = dns_reply q qend (qtype = 1 \<and> qend + 16 \<le> length out)
     in ret (Some (length r), r @ drop (length r) out))"
    using assms
    by (auto simp: write_answer_eq put_7_header length_dns_reply Let_def)
      (auto simp: dns_reply_def add.commute)
  finally show ?thesis .
qed

text \<open>Where the question ends, when the packet holds a whole one.\<close>

definition question_end :: "bytes \<Rightarrow> nat option" where
  "question_end q = (if length q < 12 then None else
     case skip_name q 12 of
       Some (Some e) \<Rightarrow> if e + 4 \<le> length q then Some (e + 4) else None
     | _ \<Rightarrow> None)"

lemma question_end_bounds: "question_end q = Some e \<Longrightarrow> 17 \<le> e \<and> e \<le> length q"
  using skip_name_total [of q 12] by (auto simp: question_end_def split: if_splits option.splits)

lemma build_dns_reply_eq:
  "build_dns_reply query n out =
     (case (if n \<le> length query then question_end (take n query) else None) of
        Some e \<Rightarrow>
          (if length out < e then ret (None, out)
           else let r = dns_reply query e (be16 (query ! (e - 4)) (query ! (e - 3)) = 1 \<and>
                          e + 16 \<le> length out)
             in ret (Some (length r), r @ drop (length r) out))
      | None \<Rightarrow> ret (None, out))"
proof (cases "n < 12 \<or> length query < n")
  case True
  then show ?thesis by (auto simp: build_dns_reply_def question_end_def)
next
  case False
  let ?q = "take n query"
  obtain r where r: "skip_name ?q 12 = ret r" "\<And>e. r = Some e \<Longrightarrow> 12 < e \<and> e \<le> n"
    using skip_name_total [of ?q 12] False by auto
  have same: "dns_reply ?q e ans = dns_reply query e ans" if "e \<le> n" "12 \<le> e" for e ans
    using that by (simp add: dns_reply_def dns_header_def drop_take min_def)
  show ?thesis
  proof (cases "\<exists>e. r = Some e \<and> e + 4 \<le> n")
    case True
    then obtain e where e: "r = Some e" "e + 4 \<le> n" "12 < e" using r(2) by blast
    with r(1) False show ?thesis
      by (simp add: build_dns_reply_def question_end_def slice_of_ok idx_ok write_dns_reply_eq same
          add.commute numeral_3_eq_3)
  next
    case n: False
    with r False show ?thesis
      by (auto simp: build_dns_reply_def question_end_def slice_of_ok split: option.split)
  qed
qed

lemma dns_qtype_eq:
  "dns_qtype query n =
     ret (case (if n \<le> length query then question_end (take n query) else None) of
        Some e \<Rightarrow> Some (be16 (query ! (e - 4)) (query ! (e - 3))) | None \<Rightarrow> None)"
proof (cases "n < 12 \<or> length query < n")
  case True
  then show ?thesis by (auto simp: dns_qtype_def question_end_def)
next
  case False
  obtain r where r: "skip_name (take n query) 12 = ret r" "\<And>e. r = Some e \<Longrightarrow> 12 < e \<and> e \<le> n"
    using skip_name_total [of "take n query" 12] False by auto
  with False show ?thesis
    by (auto simp: dns_qtype_def question_end_def slice_of_ok idx_ok split: option.split)
qed

text \<open>A question in a packet: header, name, type and class, and whatever follows.\<close>

lemma question_end_encoded:
  assumes "length hdr = 12" "list_all label_ok ls" "end_ok en" "length tail = 4"
  shows "question_end (hdr @ name_bytes ls en @ tail @ rest) =
    Some (12 + length (name_bytes ls en) + 4)"
  using skip_name_encoded [OF assms(2,3), of hdr "tail @ rest"] assms(1,4)
  by (simp add: question_end_def)

lemma question_end_decodes:
  assumes "question_end q = Some e"
  shows "\<exists>ls en. list_all label_ok ls \<and> end_ok en \<and>
    take e q = take 12 q @ name_bytes ls en @ take 4 (drop (e - 4) q)"
proof -
  obtain k where k: "skip_name q 12 = ret (Some k)" "e = k + 4" "k + 4 \<le> length q"
    using assms by (auto simp: question_end_def split: if_splits option.splits)
  have "12 < k" using k(1) skip_name_total [of q 12] by auto
  obtain ls en where d: "list_all label_ok ls" "end_ok en" "drop 12 q = name_bytes ls en @ drop k q"
    using skip_name_decodes [OF k(1)] by blast
  have "length (drop 12 q) = length (name_bytes ls en) + length (drop k q)"
    by (simp only: d(3) length_append)
  with \<open>12 < k\<close> k(3) have len: "length (name_bytes ls en) = k - 12" by simp
  have "take e q = take 12 q @ take (e - 12) (drop 12 q)"
    using \<open>12 < k\<close> k(2) by (metis add_diff_inverse_nat less_imp_le not_less take_add trans_less_add1)
  also have "take (e - 12) (drop 12 q) = name_bytes ls en @ take 4 (drop (e - 4) q)"
    using len k(2) \<open>12 < k\<close> by (simp add: d(3))
  finally show ?thesis using d(1,2) by blast
qed

section \<open>Properties\<close>

text \<open>The DNS responder never panics: on any datagram it answers or keeps silent, leaving
  the output buffer its length, and untouched when it is silent.\<close>

lemma dns_reply_total:
  "\<exists>r out'. build_dns_reply query n out = ret (r, out') \<and> length out' = length out \<and>
     (case r of None \<Rightarrow> out' = out | Some len \<Rightarrow> 17 \<le> len \<and> len \<le> length out)"
proof (cases "if n \<le> length query then question_end (take n query) else None")
  case None
  then show ?thesis by (simp add: build_dns_reply_eq)
next
  case (Some e)
  then have "17 \<le> e" "e \<le> length query"
    using question_end_bounds [of "take n query" e] by (auto split: if_splits)
  with Some show ?thesis by (simp add: build_dns_reply_eq length_dns_reply Let_def)
qed

text \<open>C22: which datagrams are answered: exactly those that hold a 12-byte header, a name in
  wire format, and type and class after it, where these fit the output buffer.\<close>

theorem dns_answers_iff:
  "(\<exists>len out'. build_dns_reply query n out = ret (Some len, out')) \<longleftrightarrow>
   n \<le> length query \<and> (\<exists>hdr ls en tail rest. take n query = hdr @ name_bytes ls en @ tail @ rest \<and>
     length hdr = 12 \<and> list_all label_ok ls \<and> end_ok en \<and> length tail = 4 \<and>
     12 + length (name_bytes ls en) + 4 \<le> length out)"
  (is "?L \<longleftrightarrow> ?R")
proof
  assume ?L
  then obtain e where e: "n \<le> length query" "question_end (take n query) = Some e" "e \<le> length out"
    by (auto simp: build_dns_reply_eq split: if_splits option.splits)
  from question_end_decodes [OF e(2)] obtain ls en where d: "list_all label_ok ls" "end_ok en"
    "take e (take n query) = take 12 (take n query) @ name_bytes ls en @ take 4 (drop (e - 4) (take n query))"
    by blast
  let ?hdr = "take 12 (take n query)" and ?tail = "take 4 (drop (e - 4) (take n query))"
  note b = question_end_bounds [OF e(2)]
  then have len: "length ?hdr = 12" "length ?tail = 4" using e(1) by auto
  have "length (take e (take n query)) = 12 + length (name_bytes ls en) + 4"
    unfolding d(3) using len by simp
  with b e(1) have "12 + length (name_bytes ls en) + 4 = e" by simp
  moreover have "take n query = ?hdr @ name_bytes ls en @ ?tail @ drop e (take n query)"
    by (metis d(3) append_take_drop_id append_assoc)
  ultimately show ?R using e len d(1,2) by metis
next
  assume ?R
  then obtain hdr ls en tail rest where r: "n \<le> length query"
    "take n query = hdr @ name_bytes ls en @ tail @ rest" "length hdr = 12" "list_all label_ok ls"
    "end_ok en" "length tail = 4" "12 + length (name_bytes ls en) + 4 \<le> length out"
    by blast
  then show ?L by (simp add: build_dns_reply_eq question_end_encoded Let_def)
qed

text \<open>The bytes of the answer to an encoded question.\<close>

lemma dns_reply_bytes:
  assumes "length hdr = 12" "list_all label_ok ls" "end_ok en"
    and "query = hdr @ name_bytes ls en @ [t1, t2, c1, c2] @ rest" "n \<le> length query"
    and "12 + length (name_bytes ls en) + 4 \<le> n" "n + 16 \<le> length out"
  shows "\<exists>len out'. build_dns_reply query n out = ret (Some len, out') \<and>
    take len out' =
      [hdr ! 0, hdr ! 1, 0x81, 0x80, hdr ! 4, hdr ! 5, 0, if be16 t1 t2 = 1 then 1 else 0, 0, 0, 0, 0] @
      name_bytes ls en @ [t1, t2, c1, c2] @
      (if be16 t1 t2 = 1 then [0xC0, 12, 0, 1, 0, 1, 0, 0, 0, 30, 0, 4, 192, 168, 0, 1] else []) \<and>
    dns_qtype (take len out') len = ret (Some (be16 t1 t2))"
proof -
  let ?k = "length (name_bytes ls en)" and ?a = "be16 t1 t2 = 1"
  have q: "question_end (take n query) = Some (12 + ?k + 4)"
    using question_end_encoded [OF assms(1-3), of "[t1, t2, c1, c2]" "take (n - (12 + ?k + 4)) rest"]
      assms by (simp add: eval_nat_numeral take_Cons')
  have t: "query ! (12 + ?k) = t1" "query ! (13 + ?k) = t2"
    using assms(1) by (simp_all add: assms(4) nth_append)
  let ?r = "dns_reply query (12 + ?k + 4) ?a"
  have b: "build_dns_reply query n out = ret (Some (length ?r), ?r @ drop (length ?r) out)"
    using assms(5-7) q t by (simp add: build_dns_reply_eq Let_def)
  have r: "?r = dns_header hdr (if ?a then 1 else 0) @ name_bytes ls en @ [t1, t2, c1, c2] @
      (if ?a then a_record else [])"
    using assms(1) by (simp add: dns_reply_def assms(4) dns_header_def nth_append)
  have "question_end ?r = Some (12 + ?k + 4)"
    unfolding r using question_end_encoded [OF length_dns_header assms(2,3), of "[t1, t2, c1, c2]"]
    by simp
  moreover have "?r ! (12 + ?k) = t1" "?r ! (13 + ?k) = t2"
    unfolding r by (simp_all add: nth_append)
  ultimately have "dns_qtype ?r (length ?r) = ret (Some (be16 t1 t2))"
    by (simp add: dns_qtype_eq)
  with b r show ?thesis by (auto simp: dns_header_def a_record_def SERVER_IP_def)
qed

text \<open>C23: what the answer is: the query's id and question, the response flags, and for type A
  exactly one record that points every name at the scoreboard; the reply's own question reads
  back with the same type.\<close>

theorem dns_reply_content:
  assumes "length hdr = 12" "list_all label_ok ls" "end_ok en"
    and "query = hdr @ name_bytes ls en @ [t1, t2, c1, c2] @ rest" "n \<le> length query"
    and "12 + length (name_bytes ls en) + 4 \<le> n" "n + 16 \<le> length out"
  shows "\<exists>len out'. build_dns_reply query n out = ret (Some len, out') \<and>
    take len out' =
      [hdr ! 0, hdr ! 1, 0x81, 0x80, hdr ! 4, hdr ! 5, 0, if be16 t1 t2 = 1 then 1 else 0, 0, 0, 0, 0] @
      name_bytes ls en @ [t1, t2, c1, c2] @
      (if be16 t1 t2 = 1 then [0xC0, 12, 0, 1, 0, 1, 0, 0, 0, 30, 0, 4, 192, 168, 0, 1] else []) \<and>
    dns_qtype (take len out') len = ret (Some (be16 t1 t2))"
  by (rule dns_reply_bytes [OF assms])

text \<open>A query for \<open>a.b\<close>, type A, with trailing bytes.\<close>

theorem dns_reply_content_witness:
  "\<exists>len out'. build_dns_reply ([7, 9, 1, 0, 0, 1, 0, 0, 0, 0, 0, 1] @ [1, 97, 1, 98, 0] @ [0, 1, 0, 1] @ [42])
       22 (replicate 512 0) = ret (Some len, out') \<and>
     dns_qtype (take len out') len = ret (Some (be16 0 1))"
  using dns_reply_content [of "[7, 9, 1, 0, 0, 1, 0, 0, 0, 0, 0, 1]" "[[97], [98]]" Root
      "[7, 9, 1, 0, 0, 1, 0, 0, 0, 0, 0, 1] @ [1, 97, 1, 98, 0] @ [0, 1, 0, 1] @ [42]" 0 1 0 1 "[42]" 22
      "replicate 512 0"]
  by (auto simp: label_ok_def)

end
