(* ===== verification/Ap_Log.thy ===== *)
theory Ap_Log
  imports Dns_Proto
begin

text \<open>
  \<open>src/ap_log.rs\<close>: the decoder that prints the name of a query, and the names of the query
  types.  It follows compression pointers, so what ends its loop is the hop counter.
\<close>

unbundle bit_operations_syntax

section \<open>Model\<close>

text \<open>\<open>((len & 0x3F) << 8) | low\<close>: the offset a compression pointer names.\<close>

definition pointer_target :: "nat \<Rightarrow> u8 \<Rightarrow> nat" where
  "pointer_target len low = push_bit 8 (len AND 0x3F) OR unat low"

text \<open>The dot before a label, and the label: as much of it as the buffer has room for.\<close>

definition put_dot :: "bytes \<Rightarrow> nat \<Rightarrow> (nat \<times> bytes \<times> bool) rs" where
  "put_dot out k =
     (if k > 0 then do {
        out \<leftarrow> put out k 46;
        let k = k + 1;
        ret (k, out, k \<ge> length out)
      } else ret (k, out, False))"

definition put_label :: "bytes \<Rightarrow> nat \<Rightarrow> nat \<Rightarrow> bytes \<Rightarrow> nat \<Rightarrow> (nat \<times> bytes) rs" where
  "put_label pkt i len out k = do {
     let n = min len (length out - k);
     part \<leftarrow> slice_of pkt (i + 1) (i + 1 + n);
     out \<leftarrow> copy_into out k (k + n) part;
     ret (k + n, out)
   }"

function format_qname_loop :: "bytes \<Rightarrow> bytes \<Rightarrow> nat \<Rightarrow> nat \<Rightarrow> u8 \<Rightarrow> (nat \<times> bytes) rs" where
  "format_qname_loop pkt out i k hops =
     (let hops = sat_add hops 1 in
      if hops > 10 \<or> i \<ge> length pkt \<or> k \<ge> length out then ret (k, out)
      else do {
        b \<leftarrow> idx pkt i;
        let len = unat b;
        if len = 0 then ret (k, out)
        else if len AND 0xC0 = 0xC0 then
          if i + 1 \<ge> length pkt then ret (k, out)
          else do {
            low \<leftarrow> idx pkt (i + 1);
            format_qname_loop pkt out (pointer_target len low) k hops
          }
        else if i + 1 + len > length pkt then ret (k, out)
        else do {
          (k, out, full) \<leftarrow> put_dot out k;
          if full then ret (k, out)
          else do {
            (k, out) \<leftarrow> put_label pkt i len out k;
            format_qname_loop pkt out (i + (1 + len)) k hops
          }
        }
      })"
  by pat_completeness auto
termination
  by (relation "measure (\<lambda>(pkt, out, i, k, hops). 11 - unat hops)")
    (auto simp: not_less dest!: hop_step)

declare format_qname_loop.simps [simp del]

definition format_qname :: "bytes \<Rightarrow> bytes \<Rightarrow> (nat \<times> bytes) rs" where
  "format_qname pkt out = format_qname_loop pkt out 12 0 0"

definition qtype_name :: "u16 \<Rightarrow> string" where
  "qtype_name qtype =
     (if qtype = 1 then ''A'' else if qtype = 12 then ''PTR'' else if qtype = 28 then ''AAAA''
      else if qtype = 255 then ''ANY'' else ''?'')"

section \<open>The decoder stays inside its buffers\<close>

lemma put_dot_total:
  "k < length out \<Longrightarrow> \<exists>k1 o1 f. put_dot out k = ret (k1, o1, f) \<and> length o1 = length out \<and>
     k1 \<le> length out"
  by (cases "k = 0") (auto simp: put_dot_def put_ok Let_def intro: exI [of _ False])

lemma put_label_total:
  assumes "k \<le> length out" "i + 1 + len \<le> length pkt"
  shows "\<exists>k1 o1. put_label pkt i len out k = ret (k1, o1) \<and> length o1 = length out \<and> k1 \<le> length out"
proof -
  define n where "n = min len (length out - k)"
  have "k + n \<le> length out" "i + 1 + n \<le> length pkt" using assms by (auto simp: n_def min_def)
  then show ?thesis by (simp add: put_label_def Let_def slice_of_ok copy_into_ok flip: n_def)
qed

lemma format_qname_loop_total:
  "k \<le> length out \<Longrightarrow>
   \<exists>k' out'. format_qname_loop pkt out i k hops = ret (k', out') \<and> length out' = length out \<and>
     k' \<le> length out"
proof (induction hops arbitrary: out i k rule: measure_induct_rule [where f = "\<lambda>h. 11 - unat h"])
  case (less hops)
  let ?h = "sat_add hops 1" and ?len = "unat (pkt ! i)"
  show ?case
  proof (cases "?h > 10 \<or> i \<ge> length pkt \<or> k \<ge> length out \<or> ?len = 0")
    case True
    with less.prems show ?thesis
      by (subst format_qname_loop.simps) (auto simp: Let_def idx_ok not_le)
  next
    case False
    then have IH: "\<exists>k' out'. format_qname_loop pkt o2 i2 k2 ?h = ret (k', out') \<and>
        length out' = length o2 \<and> k' \<le> length o2" if "k2 \<le> length o2" for o2 i2 k2
      using less.IH [of ?h k2 o2 i2] that hop_step [of hops 10] by (auto simp: not_less)
    show ?thesis
    proof (cases "?len AND 0xC0 = 0xC0 \<or> length pkt < i + 1 + ?len")
      case True
      with False IH [of k out] less.prems show ?thesis
        by (subst format_qname_loop.simps) (auto simp: Let_def idx_ok not_le)
    next
      case long: False
      obtain k1 o1 f where 1: "put_dot out k = ret (k1, o1, f)" "length o1 = length out"
        "k1 \<le> length out" using False put_dot_total [of k out] by auto
      obtain k2 o2 where 2: "put_label pkt i ?len o1 k1 = ret (k2, o2)" "length o2 = length out"
        "k2 \<le> length out" using 1 long put_label_total [of k1 o1 i ?len pkt] by auto
      from IH [of k2 o2] 1 2 False long show ?thesis
        by (subst format_qname_loop.simps) (simp add: Let_def idx_ok not_le not_less)
    qed
  qed
qed

text \<open>The decoder ends and stays inside the packet and the output buffer on any bytes, a
  loop of compression pointers included.\<close>

lemma format_qname_total:
  "\<exists>k out'. format_qname pkt out = ret (k, out') \<and> length out' = length out \<and> k \<le> length out"
  unfolding format_qname_def by (rule format_qname_loop_total) simp

section \<open>What it prints\<close>

text \<open>The labels of an uncompressed name, dotted, when they fit and are at most ten hops away.\<close>

fun dotted_from :: "bool \<Rightarrow> bytes list \<Rightarrow> bytes" where
  "dotted_from first [] = []"
| "dotted_from first (l # ls) = (if first then [] else [46]) @ l @ dotted_from False ls"

lemma hop_10: "h < 10 \<Longrightarrow> sat_add h 1 \<le> 10" "h < 10 \<Longrightarrow> unat (sat_add h 1) = Suc (unat h)" for h :: u8
proof -
  assume h: "h < 10"
  then have lt: "h < - 1" by (rule less_trans) simp
  have "sat_add h 1 = h + 1" using less_Suc_word [OF lt] by (auto simp: sat_add_def)
  then show "unat (sat_add h 1) = Suc (unat h)" using unat_Suc_word [OF lt] by simp
  with h show "sat_add h 1 \<le> 10" by (simp add: word_less_nat_alt word_le_nat_alt)
qed

lemma put_dot_append:
  assumes "2 \<le> length out"
  shows "put_dot (pre @ out) (length pre) =
    (if pre = [] then ret (0, out, False) else ret (length pre + 1, pre @ 46 # tl out, False))"
  using assms by (cases out) (auto simp: put_dot_def put_append Let_def)

lemma put_label_append:
  assumes "length l \<le> length out"
  shows "put_label (hd_part @ b # l @ rest) (length hd_part) (length l) (pre @ out) (length pre) =
    ret (length pre + length l, pre @ l @ drop (length l) out)"
  using assms by (simp add: put_label_def Let_def slice_of_ok copy_into_ok min_absorb1)

lemma format_qname_loop_labels:
  assumes "list_all label_ok ls" "unat hops + length ls \<le> 10"
    and "length pre + length (dotted_from (pre = []) ls) \<le> length (pre @ out)"
  shows "format_qname_loop (hd_part @ name_bytes ls Root @ rest) (pre @ out) (length hd_part)
      (length pre) hops =
    ret (length pre + length (dotted_from (pre = []) ls),
      pre @ dotted_from (pre = []) ls @ drop (length (dotted_from (pre = []) ls)) out)"
  using assms
proof (induction ls arbitrary: hd_part pre out hops)
  case Nil
  then show ?case by (subst format_qname_loop.simps) (simp add: Let_def idx_def nth_append)
next
  case (Cons l ls)
  let ?sep = "if pre = [] then [] else [46 :: u8]" and ?b = "of_nat (length l) :: u8"
  let ?pkt = "hd_part @ name_bytes (l # ls) Root @ rest"
  have "label_ok l" "list_all label_ok ls" using Cons.prems(1) by simp_all
  then have l: "label_ok l" "0 < length l" "length l < 192" "list_all label_ok ls"
    by (simp_all add: label_ok_def)
  have "hops < 10" using Cons.prems(2) by (simp add: word_less_nat_alt)
  then have "sat_add hops 1 \<le> 10" "unat (sat_add hops 1) = Suc (unat hops)"
    by (rule hop_10)+
  note hop = this
  have len: "length ?sep + length l + length (dotted_from False ls) \<le> length out"
    using Cons.prems(3) by (auto split: if_splits)
  let ?out = "drop (length ?sep + length l) out"
  have step: "format_qname_loop ?pkt (pre @ out) (length hd_part) (length pre) hops = do {
      (k, out, full) \<leftarrow> put_dot (pre @ out) (length pre);
      if full then ret (k, out)
      else do {
        (k, out) \<leftarrow> put_label ?pkt (length hd_part) (length l) out k;
        format_qname_loop ?pkt out (length hd_part + (1 + length l)) k (sat_add hops 1)
      }}"
    using l(2,3) hop len
    by (subst format_qname_loop.simps)
      (auto simp: Let_def idx_ok label_len [OF l(1)] pointer_test nth_append cong: if_cong)
  have "\<dots> = format_qname_loop ?pkt ((pre @ ?sep @ l) @ ?out) (length hd_part + (1 + length l))
      (length (pre @ ?sep @ l)) (sat_add hops 1)"
  proof (cases "pre = []")
    case True
    with l len show ?thesis
      using put_label_append [of l out hd_part ?b "name_bytes ls Root @ rest" "[]"]
      by (simp add: put_dot_def)
  next
    case False
    with l len have "2 \<le> length out" by (cases l) auto
    with False l len show ?thesis
      using put_label_append [of l "tl out" hd_part ?b "name_bytes ls Root @ rest" "pre @ [46]"]
      by (simp add: put_dot_append drop_Suc)
  qed
  note step = trans [OF step this]
  note step
  also have "format_qname_loop ?pkt ((pre @ ?sep @ l) @ ?out) (length hd_part + (1 + length l))
      (length (pre @ ?sep @ l)) (sat_add hops 1) = ret (length (pre @ ?sep @ l) + length (dotted_from False ls),
      (pre @ ?sep @ l) @ dotted_from False ls @ drop (length (dotted_from False ls)) ?out)"
    using Cons.IH [of "sat_add hops 1" "pre @ ?sep @ l" ?out "hd_part @ ?b # l"] l hop len Cons.prems(2)
    by (simp split: if_splits)
  finally show ?case by (simp add: ac_simps)
qed

text \<open>An uncompressed name of at most ten labels that fits the buffer is printed as its
  labels with dots between them.\<close>

lemma format_qname_dotted:
  assumes "length hdr = 12" "list_all label_ok ls" "length ls \<le> 10"
    and "length (dotted_from True ls) \<le> length out"
  shows "format_qname (hdr @ name_bytes ls Root @ rest) out =
    ret (length (dotted_from True ls), dotted_from True ls @ drop (length (dotted_from True ls)) out)"
  using format_qname_loop_labels [OF assms(2), of 0 "[]" out hdr rest] assms
  by (simp add: format_qname_def)

text \<open>\<open>sb.local\<close> into the 80 bytes \<open>dns_task\<close> has for it.\<close>

lemma format_qname_dotted_witness:
  "\<exists>out'. format_qname (replicate 12 0 @ name_bytes [ascii ''sb'', ascii ''local''] Root @ [0, 1, 0, 1])
     (replicate 80 0) = ret (8, ascii ''sb.local'' @ out')"
  using format_qname_dotted [of "replicate 12 0" "[ascii ''sb'', ascii ''local'']" "replicate 80 0"
      "[0, 1, 0, 1]"]
  by (auto simp: label_ok_def ascii_def)

end
