(* ===== verification/Net_Services.thy ===== *)
theory Net_Services
  imports Leases Ap_Log
begin

text \<open>
  The task loops of \<open>src/net_services.rs\<close>: what \<open>dhcp_task\<close>, \<open>dns_task\<close> and \<open>mdns_task\<close> do
  with one received datagram.  \<open>recv_from\<close> of the network stack copies the datagram to the
  front of the task's packet buffer; what earlier datagrams left behind it stays.  A step
  returns the task's new state and the datagrams it sends.
\<close>

unbundle bit_operations_syntax

datatype dest = Broadcast_68 | Sender | Mdns_group

definition recv_into :: "bytes \<Rightarrow> bytes \<Rightarrow> bytes" where
  "recv_into pkt d = d @ drop (length d) pkt"

section \<open>DHCP\<close>

record dhcp =
  leases :: "lease list"
  lease_seq :: u32
  reply :: bytes

definition init_dhcp :: dhcp where
  "init_dhcp = \<lparr>leases = replicate (unat POOL_SIZE) EMPTY, lease_seq = 0, reply = replicate 400 0\<rparr>"

definition reply_kind :: "bytes \<Rightarrow> u8 \<Rightarrow> bytes \<Rightarrow> u8 option rs" where
  "reply_kind req msg yi =
     (if msg = DHCP_DISCOVER then ret (Some DHCP_OFFER)
      else if msg = DHCP_REQUEST then do {
        w \<leftarrow> requested_ip req;
        ret (case w of
               Some want \<Rightarrow> if want \<noteq> yi then Some DHCP_NAK else Some DHCP_ACK
             | None \<Rightarrow> Some DHCP_ACK)
      } else ret None)"

definition dhcp_step :: "bytes \<Rightarrow> dhcp \<Rightarrow> (dhcp \<times> (dest \<times> bytes) list) rs" where
  "dhcp_step req st =
     (if length req < 240 then ret (st, [])
      else do {
        m \<leftarrow> slice_of req 28 34;
        t \<leftarrow> dhcp_msg_type req;
        case t of
          None \<Rightarrow> ret (st, [])
        | Some msg \<Rightarrow> do {
            (i, ls, sq) \<leftarrow> slot_for_mac (leases st) (lease_seq st) m;
            let st = st\<lparr>leases := ls, lease_seq := sq\<rparr>;
            let yi = offered_ip i;
            kind \<leftarrow> reply_kind req msg yi;
            case kind of
              None \<Rightarrow> ret (st, [])
            | Some reply_type \<Rightarrow> do {
                let yiaddr = (if reply_type = DHCP_NAK then [0, 0, 0, 0] else yi);
                (len, out) \<leftarrow> write_offer_or_ack req (reply st) yiaddr reply_type;
                let st = st\<lparr>reply := out\<rparr>;
                case len of
                  None \<Rightarrow> ret (st, [])
                | Some n \<Rightarrow> do {
                    p \<leftarrow> slice_of (reply st) 0 n;
                    ret (st, [(Broadcast_68, p)])
                  }
              }
          }
      })"

fun dhcp_run :: "bytes list \<Rightarrow> dhcp \<Rightarrow> (dhcp \<times> (dest \<times> bytes) list) rs" where
  "dhcp_run [] st = ret (st, [])"
| "dhcp_run (d # ds) st = do {
     (st, out) \<leftarrow> dhcp_step d st;
     (st, outs) \<leftarrow> dhcp_run ds st;
     ret (st, out @ outs)
   }"

section \<open>DNS\<close>

text \<open>
  One datagram: the buffer after it, what is sent, and the type, name and answer count of the log
  line.
\<close>

definition dns_step :: "bytes \<Rightarrow> bytes \<Rightarrow> (bytes \<times> (dest \<times> bytes) list \<times> (string \<times> bytes \<times> u8) list) rs" where
  "dns_step d pkt = do {
     let n = length d;
     let pkt = recv_into pkt d;
     (r, out) \<leftarrow> build_dns_reply pkt n (replicate 512 0);
     case r of
       None \<Rightarrow> ret (pkt, [], [])
     | Some len \<Rightarrow> do {
         q \<leftarrow> dns_qtype pkt n;
         let qtype = (case q of Some t \<Rightarrow> t | None \<Rightarrow> 0);
         (nlen, name) \<leftarrow> format_qname pkt (replicate 80 0);
         txt \<leftarrow> slice_of name 0 nlen;
         an \<leftarrow> idx out 7;
         p \<leftarrow> slice_of out 0 len;
         ret (pkt, [(Sender, p)], [(qtype_name qtype, utf8_or txt ''?'', an)])
       }
   }"

section \<open>mDNS\<close>

definition eq_label :: "bytes \<Rightarrow> bytes \<Rightarrow> bool" where
  "eq_label a b \<longleftrightarrow> length a = length b \<and> list_all (\<lambda>(x, y). ascii_lower x = ascii_lower y) (zip a b)"

text \<open>
  One label of the expected name: the inner loop.  \<open>None\<close> is \<open>return false\<close>, \<open>Some\<close> the
  offset and hop count behind the label.
\<close>

function match_label :: "bytes \<Rightarrow> bytes \<Rightarrow> nat \<Rightarrow> u8 \<Rightarrow> (nat \<times> u8) option rs" where
  "match_label q lab i hops =
     (let hops = sat_add hops 1 in
      if hops > 8 \<or> i \<ge> length q then ret None
      else do {
        b \<leftarrow> idx q i;
        let len = unat b;
        if len AND 0xC0 = 0xC0 then
          if i + 1 \<ge> length q then ret None
          else do {
            low \<leftarrow> idx q (i + 1);
            match_label q lab (pointer_target len low) hops
          }
        else if len = 0 \<or> len \<noteq> length lab \<or> i + 1 + len > length q then ret None
        else do {
          part \<leftarrow> slice_of q (i + 1) (i + 1 + len);
          if eq_label part lab then ret (Some (i + (1 + len), hops)) else ret None
        }
      })"
  by pat_completeness auto
termination
  by (relation "measure (\<lambda>(q, lab, i, hops). 9 - unat hops)")
    (auto simp: not_less dest!: hop_step)

declare match_label.simps [simp del]

fun match_labels :: "bytes \<Rightarrow> bytes list \<Rightarrow> nat \<Rightarrow> u8 \<Rightarrow> bool rs" where
  "match_labels q [] i hops =
     (if i < length q then do { b \<leftarrow> idx q i; ret (b = 0) } else ret False)"
| "match_labels q (lab # labs) i hops = do {
     r \<leftarrow> match_label q lab i hops;
     case r of None \<Rightarrow> ret False | Some (i, hops) \<Rightarrow> match_labels q labs i hops
   }"

definition qname_matches :: "bytes \<Rightarrow> nat \<Rightarrow> bytes list \<Rightarrow> bool rs" where
  "qname_matches q i labels = match_labels q labels i 0"

definition LONG_NAME :: "bytes list" where "LONG_NAME = [ascii ''scoreboard'', ascii ''local'']"
definition SHORT_NAME :: "bytes list" where "SHORT_NAME = [ascii ''sb'', ascii ''local'']"

definition mdns_name_is_ours :: "bytes \<Rightarrow> bool rs" where
  "mdns_name_is_ours q = do {
     a \<leftarrow> qname_matches q 12 LONG_NAME;
     if a then ret True else qname_matches q 12 SHORT_NAME
   }"

definition write_mdns_a :: "bytes \<Rightarrow> bytes \<Rightarrow> (nat option \<times> bytes) rs" where
  "write_mdns_a out name =
     (let need = 12 + length name + 16 in
      if length out < need then ret (None, out)
      else do {
        out \<leftarrow> fill_range out 0 12 0;
        out \<leftarrow> put out 2 0x84;
        out \<leftarrow> put out 3 0;
        out \<leftarrow> put out 7 1;
        let i = 12;
        out \<leftarrow> copy_into out i (i + length name) name;
        let i = i + length name;
        out \<leftarrow> put out i 0;
        out \<leftarrow> put out (i + 1) 1;
        out \<leftarrow> put out (i + 2) 0x80;
        out \<leftarrow> put out (i + 3) 1;
        out \<leftarrow> put out (i + 4) 0;
        out \<leftarrow> put out (i + 5) 0;
        out \<leftarrow> put out (i + 6) 0;
        out \<leftarrow> put out (i + 7) 120;
        out \<leftarrow> put out (i + 8) 0;
        out \<leftarrow> put out (i + 9) 4;
        out \<leftarrow> copy_into out (i + 10) (i + 14) SERVER_IP;
        ret (Some (i + 14), out)
      })"

definition long_name :: bytes where "long_name = 10 # ascii ''scoreboard'' @ 5 # ascii ''local'' @ [0]"
definition short_name :: bytes where "short_name = 2 # ascii ''sb'' @ 5 # ascii ''local'' @ [0]"

definition mdns_answer :: "bytes \<Rightarrow> u16 \<Rightarrow> ((dest \<times> bytes) list \<times> (string \<times> bytes) list) rs" where
  "mdns_answer pkt qtype = do {
     short \<leftarrow> qname_matches pkt 12 SHORT_NAME;
     (r, out) \<leftarrow> write_mdns_a (replicate 64 0) (if short then short_name else long_name);
     case r of
       None \<Rightarrow> ret ([], [])
     | Some len \<Rightarrow> do {
         (nlen, qn) \<leftarrow> format_qname pkt (replicate 40 0);
         txt \<leftarrow> slice_of qn 0 nlen;
         p \<leftarrow> slice_of out 0 len;
         ret ([(Sender, p), (Mdns_group, p)], [(qtype_name qtype, utf8_or txt ''?'')])
       }
   }"

definition mdns_step :: "bytes \<Rightarrow> bytes \<Rightarrow> (bytes \<times> (dest \<times> bytes) list \<times> (string \<times> bytes) list) rs" where
  "mdns_step d pkt = do {
     let n = length d;
     let pkt = recv_into pkt d;
     if n < 12 then ret (pkt, [], [])
     else do {
       flags \<leftarrow> idx pkt 2;
       if flags AND 0x80 \<noteq> 0 then ret (pkt, [], [])
       else do {
         e \<leftarrow> skip_name pkt 12;
         case e of
           None \<Rightarrow> ret (pkt, [], [])
         | Some name_end \<Rightarrow>
             if name_end + 4 > n then ret (pkt, [], [])
             else do {
               ours \<leftarrow> mdns_name_is_ours pkt;
               if \<not> ours then ret (pkt, [], [])
               else do {
                 h \<leftarrow> idx pkt name_end;
                 l \<leftarrow> idx pkt (name_end + 1);
                 let qtype = be16 h l;
                 if qtype \<noteq> 1 \<and> qtype \<noteq> 255 then ret (pkt, [], [])
                 else do {
                   (sends, logs) \<leftarrow> mdns_answer pkt qtype;
                   ret (pkt, sends, logs)
                 }
               }
             }
       }
     }
   }"

text \<open>The announcement sent three times when the task starts.\<close>

definition mdns_announce :: "(dest \<times> bytes) list rs" where
  "mdns_announce = do {
     (r, out) \<leftarrow> write_mdns_a (replicate 64 0) long_name;
     case r of
       None \<Rightarrow> ret []
     | Some len \<Rightarrow> do { p \<leftarrow> slice_of out 0 len; ret (replicate 3 (Mdns_group, p)) }
   }"

section \<open>The DHCP server\<close>

lemma dhcp_msg_type_total: "\<exists>t. dhcp_msg_type req = ret t"
  using find_option_total [of req 53] by (auto simp: dhcp_msg_type_def split: list.split)

lemma requested_ip_total: "\<exists>w. requested_ip req = ret w"
  using find_option_total [of req 50] by (auto simp: requested_ip_def)

lemma reply_kind_total: "\<exists>k. reply_kind req msg yi = ret k"
  using requested_ip_total [of req] by (auto simp: reply_kind_def)

text \<open>Who a datagram makes the server allocate for.\<close>

definition asker :: "bytes \<Rightarrow> bytes option" where
  "asker d = (if length d < 240 then None else
     (case dhcp_msg_type d of Some (Some t) \<Rightarrow> Some (take 6 (drop 28 d)) | _ \<Rightarrow> None))"

definition pool :: "dhcp \<Rightarrow> lease list \<times> u32" where
  "pool st = (leases st, lease_seq st)"

definition dhcp_ok :: "dhcp \<Rightarrow> bool" where
  "dhcp_ok st \<longleftrightarrow> length (leases st) = 8 \<and> length (reply st) = 400"

text \<open>A reply to \<open>d\<close> of the given type with the address offered.\<close>

definition is_reply :: "bytes \<Rightarrow> u8 \<Rightarrow> bytes \<Rightarrow> bytes \<Rightarrow> bool" where
  "is_reply d kind ip p \<longleftrightarrow> dhcp_msg_type p = ret (Some kind) \<and>
     take 4 (drop 4 p) = take 4 (drop 4 d) \<and>
     take 4 (drop 16 p) = (if kind = DHCP_NAK then [0, 0, 0, 0] else ip) \<and>
     take 16 (drop 28 p) = take 16 (drop 28 d)"

lemma length_offered_ip: "length (offered_ip i) = 4"
  by (simp add: offered_ip_def)

lemma write_is_reply:
  assumes "length req \<ge> 240" "length out = 400" "length ip = 4"
  shows "\<exists>n out'. write_offer_or_ack req out (if k = DHCP_NAK then [0, 0, 0, 0] else ip) k =
    ret (Some n, out') \<and> n \<le> length out' \<and> length out' = 400 \<and> is_reply req k ip (take n out')"
proof -
  let ?yi = "if k = DHCP_NAK then [0, 0, 0, 0] else ip"
  have "length out \<ge> 360" "length ?yi = 4" using assms by simp_all
  from reply_readback [OF assms(1) this, of k] obtain n out' where
    w: "write_offer_or_ack req out ?yi k = ret (Some n, out')" "300 \<le> n" "n \<le> length out'"
      "length out' = length out" "dhcp_msg_type (take n out') = ret (Some k)"
      "take 4 (drop 4 out') = take 4 (drop 4 req)"
      "take 4 (drop 16 out') = (if k = DHCP_NAK then [0, 0, 0, 0] else ?yi)"
      "take 16 (drop 28 out') = take 16 (drop 28 req)"
    by blast
  have "take m (drop j (take n out')) = take m (drop j out')" if "j + m \<le> 300" for j m
    using that w(2) by (simp add: drop_take min_absorb1)
  then show ?thesis using w assms(2) by (auto simp: is_reply_def)
qed

lemma alloc_slot_result:
  assumes "dhcp_ok st"
  shows "\<exists>i ls sq. slot_for_mac (leases st) (lease_seq st) m = ret (i, ls, sq) \<and> length ls = 8 \<and>
    alloc_slot (pool st) m = (unat i, ls, sq) \<and> of_nat (unat i) = i"
  using assms slot_for_mac_eq [of "leases st" "lease_seq st" m]
  by (force simp: dhcp_ok_def alloc_slot_def pool_def)

lemma dhcp_step_other:
  assumes "asker d = None"
  shows "dhcp_step d st = ret (st, [])"
proof (cases "length d < 240")
  case False
  with assms dhcp_msg_type_total [of d] show ?thesis
    by (auto simp: dhcp_step_def asker_def slice_of_ok split: option.splits)
qed (simp add: dhcp_step_def)

text \<open>The server is a client of the address pool: one allocation per message, and the answer
  decided from the slot it gave.\<close>

lemma dhcp_step_served:
  assumes ok: "dhcp_ok st" and m: "asker d = Some m" and t: "dhcp_msg_type d = ret (Some msg)"
    and a: "alloc_slot (pool st) m = (i, p)"
  shows "\<exists>st' outs. dhcp_step d st = ret (st', outs) \<and> dhcp_ok st' \<and> pool st' = p \<and>
    (case reply_kind d msg (offered_ip (of_nat i)) of
       Some (Some k) \<Rightarrow> \<exists>r. outs = [(Broadcast_68, r)] \<and> is_reply d k (offered_ip (of_nat i)) r
     | _ \<Rightarrow> outs = [])"
proof -
  have d: "240 \<le> length d" "m = take 6 (drop 28 d)"
    using m by (auto simp: asker_def split: if_splits option.splits)
  obtain w ls sq where s: "slot_for_mac (leases st) (lease_seq st) m = ret (w, ls, sq)"
    "length ls = 8" "p = (ls, sq)" "of_nat i = w"
    using alloc_slot_result [OF ok, of m] a by auto
  obtain k where k: "reply_kind d msg (offered_ip w) = ret k" using reply_kind_total by blast
  let ?st = "st\<lparr>leases := ls, lease_seq := sq\<rparr>"
  have sl: "slice_of d 28 34 = ret m" using d by (simp add: slice_of_ok)
  show ?thesis
  proof (cases k)
    case None
    then have "dhcp_step d st = ret (?st, [])"
      using d(1) sl t s k by (simp add: dhcp_step_def Let_def)
    with None ok s k show ?thesis by (simp add: dhcp_ok_def pool_def)
  next
    case (Some kind)
    have "length (reply st) = 400" using ok by (simp add: dhcp_ok_def)
    from write_is_reply [OF d(1) this length_offered_ip, of kind w] obtain n out' where
      o: "write_offer_or_ack d (reply st) (if kind = DHCP_NAK then [0, 0, 0, 0] else offered_ip w) kind =
        ret (Some n, out')" "n \<le> length out'" "length out' = 400"
        "is_reply d kind (offered_ip w) (take n out')"
      by blast
    have "dhcp_step d st = ret (?st\<lparr>reply := out'\<rparr>, [(Broadcast_68, take n out')])"
      using d(1) sl t s k Some o by (simp add: dhcp_step_def Let_def slice_of_ok)
    with Some ok s k o show ?thesis by (simp add: dhcp_ok_def pool_def)
  qed
qed

lemma dhcp_step_pool:
  assumes "dhcp_ok st"
  shows "\<exists>st' outs. dhcp_step d st = ret (st', outs) \<and> dhcp_ok st' \<and>
    pool st' = (case asker d of None \<Rightarrow> pool st | Some m \<Rightarrow> snd (alloc_slot (pool st) m))"
proof (cases "asker d")
  case None
  with assms show ?thesis by (simp add: dhcp_step_other)
next
  case (Some m)
  then obtain t where "dhcp_msg_type d = ret (Some t)"
    by (auto simp: asker_def split: if_splits option.splits)
  from dhcp_step_served [OF assms Some this surjective_pairing] Some show ?thesis by auto
qed

lemma dhcp_run_pool:
  "dhcp_ok st \<Longrightarrow> \<exists>st' outs. dhcp_run ds st = ret (st', outs) \<and> dhcp_ok st' \<and>
     pool st' = pool.serve (List.map_filter asker ds) (pool st)"
proof (induction ds arbitrary: st)
  case Nil
  then show ?case by (simp add: map_filter_simps)
next
  case (Cons d ds)
  obtain st1 o1 where 1: "dhcp_step d st = ret (st1, o1)" "dhcp_ok st1"
    "pool st1 = (case asker d of None \<Rightarrow> pool st | Some m \<Rightarrow> snd (alloc_slot (pool st) m))"
    using dhcp_step_pool [OF Cons.prems] by blast
  from Cons.IH [OF 1(2)] 1 show ?case
    by (auto simp: map_filter_simps split: option.splits)
qed

lemma dhcp_ok_init: "dhcp_ok init_dhcp"
  by (simp add: dhcp_ok_def init_dhcp_def pool_size)

lemma pool_init: "pool init_dhcp = empty_pool"
  by (simp add: pool_def init_dhcp_def empty_pool_def)

lemma pool_state: "fst (pool st) = leases st" "snd (pool st) = lease_seq st"
  by (simp_all add: pool_def)

lemma good_askers:
  "list_all (\<lambda>d. asker d \<noteq> Some NO_MAC) ds \<Longrightarrow> list_all (\<lambda>m. m \<noteq> NO_MAC) (List.map_filter asker ds)"
  by (induction ds) (auto simp: map_filter_simps split: option.splits)

lemma length_askers: "length (List.map_filter asker ds) \<le> length ds"
  by (simp add: List.map_filter_def)

lemma pool_ok_mono: "pool_ok j q \<Longrightarrow> j' \<le> j \<Longrightarrow> pool_ok j' q"
  by (simp add: pool_ok_def)

lemma reachable_pool:
  assumes "dhcp_run ds init_dhcp = ret (st, outs)" "length ds + j < 2 ^ 32"
    and "list_all (\<lambda>d. asker d \<noteq> Some NO_MAC) ds"
  shows "dhcp_ok st" "pool_ok j (pool st)"
proof -
  have st: "dhcp_ok st" "pool st = pool.serve (List.map_filter asker ds) empty_pool"
    using dhcp_run_pool [OF dhcp_ok_init, of ds] assms(1) by (auto simp: pool_init)
  have "pool_ok (length (List.map_filter asker ds) + j) empty_pool"
    using assms(2) length_askers [of ds] by (intro empty_pool_ok) simp
  from pool.serve_ok [OF this good_askers [OF assms(3)]] st show "dhcp_ok st" "pool_ok j (pool st)"
    by simp_all
qed

lemma offered_ip_inj:
  "i < 8 \<Longrightarrow> j < 8 \<Longrightarrow> offered_ip (of_nat i) = offered_ip (of_nat j) \<Longrightarrow> i = j"
  by (auto simp: offered_ip_def POOL_START_def unat_of_nat dest: arg_cong [of _ _ unat])

text \<open>A client's message, for the examples.\<close>

definition client_msg :: "bytes \<Rightarrow> u8 \<Rightarrow> opt_item list \<Rightarrow> bytes" where
  "client_msg m t os = (replicate 28 0 @ m @ replicate 202 0 @ DHCP_MAGIC) @
     opts_bytes (Opt 53 [t] # os) @ [255]"

lemma client_msg_fields:
  assumes "length m = 6" "list_all opt_ok os"
  shows "asker (client_msg m t os) = Some m"
    and "dhcp_msg_type (client_msg m t os) = ret (Some t)"
proof -
  have "find_option (client_msg m t os) 53 = ret (opt_lookup 53 (Opt 53 [t] # os))"
    unfolding client_msg_def using assms
    by (intro find_option_items) (simp_all add: DHCP_MAGIC_def)
  then show t: "dhcp_msg_type (client_msg m t os) = ret (Some t)" by (simp add: dhcp_msg_type_def)
  have "\<not> length (client_msg m t os) < 240"
    using assms(1) by (simp add: client_msg_def DHCP_MAGIC_def)
  moreover have "take 6 (drop 28 (client_msg m t os)) = m"
    using assms(1) by (simp add: client_msg_def)
  ultimately show "asker (client_msg m t os) = Some m" by (simp add: asker_def t)
qed

definition MAC_A :: bytes where "MAC_A = [2, 0, 0, 0, 0, 1]"
definition MAC_B :: bytes where "MAC_B = [2, 0, 0, 0, 0, 2]"

lemma example_macs [simp]:
  "length MAC_A = 6" "length MAC_B = 6" "MAC_A \<noteq> NO_MAC" "MAC_B \<noteq> NO_MAC" "MAC_A \<noteq> MAC_B" "MAC_B \<noteq> MAC_A"
  by (simp_all add: MAC_A_def MAC_B_def NO_MAC_def)

text \<open>A client with a hardware address of its own occupies one slot, whatever the others send and
  however often the sequence number wraps around; it keeps the slot until it is evicted.\<close>

definition sole :: "bytes \<Rightarrow> nat \<Rightarrow> lease list \<Rightarrow> bool" where
  "sole k i ls \<longleftrightarrow> (\<forall>j < length ls. mac (ls ! j) = k \<longrightarrow> j = i)"

lemma sole_absent: "k \<notin> mac ` set ls \<Longrightarrow> sole k i ls"
  by (auto simp: sole_def)

lemma sole_other: "sole k i ls \<Longrightarrow> mac l \<noteq> k \<Longrightarrow> sole k i (ls[j := l])"
  unfolding sole_def by (metis length_list_update nth_list_update_eq nth_list_update_neq)

lemma sole_take: "sole k i ls \<Longrightarrow> k \<notin> mac ` set ls \<or> j = i \<Longrightarrow> sole k j (ls[j := l])"
  unfolding sole_def by (metis image_eqI length_list_update nth_list_update_neq nth_mem)

lemma alloc_dhcp:
  assumes "dhcp_ok st"
  shows "alloc_slot (pool st) m = (chosen_slot (leases st) m,
    (leases st)[chosen_slot (leases st) m := \<lparr>mac = m, seq = lease_seq st + 1\<rparr>], lease_seq st + 1)"
    "chosen_slot (leases st) m < 8"
proof -
  have ls: "leases st \<noteq> []" "length (leases st) = 8" using assms by (auto simp: dhcp_ok_def)
  from chosen_slot_less [OF ls(1)] ls(2) show i: "chosen_slot (leases st) m < 8" by metis
  then show "alloc_slot (pool st) m = (chosen_slot (leases st) m,
    (leases st)[chosen_slot (leases st) m := \<lparr>mac = m, seq = lease_seq st + 1\<rparr>], lease_seq st + 1)"
    by (simp add: alloc_slot_def pool_def slot_for_mac_eq [OF ls(1)] unat_of_nat)
qed

lemma chosen_when_sole:
  assumes "sole k i ls" "k \<in> mac ` set ls"
  shows "chosen_slot ls k = i"
proof -
  obtain j where "position (\<lambda>l. mac l = k) ls = Some j"
    using assms(2) position_None [of "\<lambda>l. mac l = k" ls] by (cases "position (\<lambda>l. mac l = k) ls") auto
  with position_Some [OF this] assms(1) show ?thesis by (auto simp: chosen_slot_def sole_def)
qed

lemma sole_own:
  assumes "\<exists>i. sole k i ls"
  shows "sole k (chosen_slot ls k) (ls[chosen_slot ls k := l])"
  using assms chosen_when_sole sole_take by metis

lemma dhcp_step_leases:
  assumes "dhcp_ok st" "dhcp_step d st = ret (st', outs)"
  shows "dhcp_ok st'" "leases st' = (case asker d of None \<Rightarrow> leases st
    | Some m \<Rightarrow> (leases st)[chosen_slot (leases st) m := \<lparr>mac = m, seq = lease_seq st + 1\<rparr>])"
  using dhcp_step_pool [OF assms(1), of d] assms(2) alloc_dhcp [OF assms(1)]
  by (auto simp: pool_def split: option.splits)

lemma sole_exists_step:
  assumes "dhcp_ok st" "dhcp_step d st = ret (st', outs)" "\<exists>i. sole k i (leases st)"
  shows "\<exists>i. sole k i (leases st')"
proof (cases "asker d")
  case (Some m)
  note ls = dhcp_step_leases(2) [OF assms(1,2)]
  show ?thesis
  proof (cases "m = k")
    case True
    with Some ls sole_own [OF assms(3)] show ?thesis by auto
  next
    case False
    from assms(3) obtain i where "sole k i (leases st)" by blast
    with False have "sole k i (leases st')" by (simp add: ls Some sole_other)
    then show ?thesis by blast
  qed
qed (use assms dhcp_step_leases(2) [OF assms(1,2)] in simp)

lemma sole_exists_run:
  "dhcp_ok st \<Longrightarrow> dhcp_run ds st = ret (st', outs) \<Longrightarrow> \<exists>i. sole k i (leases st) \<Longrightarrow>
   dhcp_ok st' \<and> (\<exists>i. sole k i (leases st'))"
proof (induction ds arbitrary: st outs)
  case (Cons d ds)
  from Cons.prems(2) obtain st1 o1 o2 where "dhcp_step d st = ret (st1, o1)"
    "dhcp_run ds st1 = ret (st', o2)"
    by (auto split: option.splits prod.splits simp: bind_eq_Some_conv)
  with Cons dhcp_step_leases(1) sole_exists_step show ?case by metis
qed simp

lemma sole_others_step:
  assumes "dhcp_ok st" "dhcp_step d st = ret (st', outs)" "asker d \<noteq> Some k" "sole k i (leases st)"
  shows "sole k i (leases st')"
  using dhcp_step_leases(2) [OF assms(1,2)] assms(3,4)
  by (auto intro: sole_other split: option.splits)

lemma sole_others_run:
  "dhcp_ok st \<Longrightarrow> dhcp_run ds st = ret (st', outs) \<Longrightarrow> \<forall>d \<in> set ds. asker d \<noteq> Some k \<Longrightarrow>
   sole k i (leases st) \<Longrightarrow> dhcp_ok st' \<and> sole k i (leases st')"
proof (induction ds arbitrary: st outs)
  case (Cons d ds)
  from Cons.prems(2) obtain st1 o1 o2 where "dhcp_step d st = ret (st1, o1)"
    "dhcp_run ds st1 = ret (st', o2)"
    by (auto split: option.splits prod.splits simp: bind_eq_Some_conv)
  with Cons dhcp_step_leases(1) sole_others_step show ?case by (metis list.set_intros)
qed simp

text \<open>The address of an answer that is not a refusal is that of the slot now the asker's.\<close>

lemma answer_address:
  assumes "dhcp_ok st" "asker d = Some m" "dhcp_step d st = ret (st', [(Broadcast_68, r)])"
  shows "take 4 (drop 16 r) = [0, 0, 0, 0] \<or>
    take 4 (drop 16 r) = offered_ip (of_nat (chosen_slot (leases st) m))"
proof -
  from assms(2) obtain t where t: "dhcp_msg_type d = ret (Some t)"
    by (auto simp: asker_def split: if_splits option.splits)
  from dhcp_step_served [OF assms(1,2) t alloc_dhcp(1) [OF assms(1)]] assms(3) show ?thesis
    by (auto simp: is_reply_def split: option.splits if_splits)
qed

lemma answered_asker:
  "dhcp_step d st = ret (st', [x]) \<Longrightarrow> \<exists>m. asker d = Some m"
  using dhcp_step_other [of d st] by (cases "asker d") auto

lemma offered_ip_nonzero: "offered_ip i \<noteq> [0, 0, 0, 0]"
  by (simp add: offered_ip_def SERVER_IP_def)

text \<open>C19: while a client that was given an address is still in the lease table, no other client is
  offered or granted that address; the client's own hardware address is not all zero.  Any datagrams at all, from whatever hardware addresses, may have
  come before the client's answer, and any but its own between it and the other client's.  The
  addresses are 192.168.0.10 to 192.168.0.17.\<close>

theorem dhcp_addresses_distinct:
  assumes run: "dhcp_run ds init_dhcp = ret (st0, outs)"
    and first: "asker d = Some k" "k \<noteq> NO_MAC" "dhcp_step d st0 = ret (st1, [(Broadcast_68, r)])"
      "take 4 (drop 16 r) \<noteq> [0, 0, 0, 0]"
    and between: "dhcp_run ds' st1 = ret (st2, outs')" "\<forall>d \<in> set ds'. asker d \<noteq> Some k"
    and other: "asker d' \<noteq> Some k" "dhcp_step d' st2 = ret (st3, [(Broadcast_68, r')])"
    and holds: "k \<in> mac ` set (leases st3)"
  shows "take 4 (drop 16 r') \<noteq> take 4 (drop 16 r) \<and>
    (\<exists>i < 8. take 4 (drop 16 r) = [192, 168, 0, 10 + of_nat i])"
proof -
  let ?i = "chosen_slot (leases st0) k"
  have "sole k 0 (leases init_dhcp)"
    using first(2) by (simp add: sole_def init_dhcp_def EMPTY_def)
  then have ok0: "dhcp_ok st0" and "\<exists>i. sole k i (leases st0)"
    using sole_exists_run [OF dhcp_ok_init run] by auto
  note s1 = dhcp_step_leases [OF ok0 first(3)]
  from s1(2) first(1) sole_own [OF \<open>\<exists>i. sole k i (leases st0)\<close>] have "sole k ?i (leases st1)" by simp
  with sole_others_run [OF s1(1) between] have ok2: "dhcp_ok st2" and "sole k ?i (leases st2)" by auto
  with sole_others_step [OF ok2 other(2,1)] have k3: "sole k ?i (leases st3)" by simp
  obtain k' where k': "asker d' = Some k'" using answered_asker [OF other(2)] by blast
  let ?j = "chosen_slot (leases st2) k'"
  have j: "?j < 8" and i: "?i < 8" using alloc_dhcp(2) ok0 ok2 by simp_all
  have "?j \<noteq> ?i"
  proof
    assume eq: "?j = ?i"
    with j ok2 dhcp_step_leases(2) [OF ok2 other(2)] k' have "mac (leases st3 ! ?i) = k'"
      by (simp add: dhcp_ok_def)
    moreover have "mac (leases st3 ! ?i) = k"
      using holds k3 by (force simp: sole_def in_set_conv_nth)
    ultimately show False using other(1) k' by simp
  qed
  with i j have "offered_ip (of_nat ?j) \<noteq> offered_ip (of_nat ?i)" using offered_ip_inj by metis
  moreover have r: "take 4 (drop 16 r) = offered_ip (of_nat ?i)"
    using answer_address [OF ok0 first(1,3)] first(4) by simp
  ultimately have "take 4 (drop 16 r') \<noteq> take 4 (drop 16 r)"
    using answer_address [OF ok2 k' other(2)] first(4) by auto
  with r i show ?thesis by (auto simp: offered_ip_def POOL_START_def)
qed

theorem dhcp_addresses_distinct_witness:
  "\<exists>st1 r st2 r'. dhcp_step (client_msg MAC_A 1 []) init_dhcp = ret (st1, [(Broadcast_68, r)]) \<and>
     dhcp_step (client_msg MAC_B 1 []) st1 = ret (st2, [(Broadcast_68, r')]) \<and>
     take 4 (drop 16 r') \<noteq> take 4 (drop 16 r)"
proof -
  let ?A = "client_msg MAC_A 1 []" and ?B = "client_msg MAC_B 1 []"
  have offer: "\<exists>st' r. dhcp_step d st = ret (st', [(Broadcast_68, r)]) \<and>
      take 4 (drop 16 r) = offered_ip (of_nat (chosen_slot (leases st) m))"
    if "dhcp_ok st" "asker d = Some m" "dhcp_msg_type d = ret (Some 1)" for d st m
    using dhcp_step_served [OF that alloc_dhcp(1) [OF that(1)]]
    by (auto simp: reply_kind_def is_reply_def DHCP_DISCOVER_def DHCP_OFFER_def DHCP_NAK_def)
  note fields = client_msg_fields [of MAC_A "[]" 1] client_msg_fields [of MAC_B "[]" 1]
  obtain st1 r where 1: "dhcp_step ?A init_dhcp = ret (st1, [(Broadcast_68, r)])"
    "take 4 (drop 16 r) = offered_ip (of_nat (chosen_slot (leases init_dhcp) MAC_A))"
    using offer [OF dhcp_ok_init] fields by fastforce
  note s1 = dhcp_step_leases [OF dhcp_ok_init 1(1)]
  obtain st2 r' where 2: "dhcp_step ?B st1 = ret (st2, [(Broadcast_68, r')])"
    using offer [OF s1(1)] fields by fastforce
  have "leases init_dhcp = EMPTY # replicate 7 EMPTY" "lease_seq init_dhcp = 0"
    by (simp_all add: init_dhcp_def pool_size numeral_eq_Suc)
  then have "leases st1 = \<lparr>mac = MAC_A, seq = 1\<rparr> # replicate 7 EMPTY"
    using s1(2) fields by (simp add: chosen_slot_def EMPTY_def numeral_eq_Suc)
  then have "MAC_A \<in> mac ` set (leases st2)"
    using dhcp_step_leases(2) [OF s1(1) 2] fields
    by (simp add: chosen_slot_def EMPTY_def numeral_eq_Suc)
  with dhcp_addresses_distinct [of "[]" init_dhcp "[]" ?A MAC_A st1 r "[]" st1 "[]" ?B st2 r'] 1 2 fields
  show ?thesis by (auto simp: offered_ip_nonzero)
qed

text \<open>C14: the handshake.  A client that discovers and then requests the address it was offered
  gets it acknowledged, whatever fewer than eight other clients send in between.\<close>

theorem dhcp_handshake:
  assumes run: "dhcp_run ds0 init_dhcp = ret (st0, outs0)" "length ds0 + length ds + 2 < 2 ^ 32"
      "list_all (\<lambda>d. asker d \<noteq> Some NO_MAC) (ds0 @ ds)"
    and disc: "asker d1 = Some m" "dhcp_msg_type d1 = ret (Some DHCP_DISCOVER)" "m \<noteq> NO_MAC"
    and req: "asker d2 = Some m" "dhcp_msg_type d2 = ret (Some DHCP_REQUEST)"
    and others: "card (set (List.map_filter asker ds) - {m}) < 8"
  shows "\<exists>ip st1 p1 st2 outs st3 p2. length ip = 4 \<and>
    dhcp_step d1 st0 = ret (st1, [(Broadcast_68, p1)]) \<and> is_reply d1 DHCP_OFFER ip p1 \<and>
    dhcp_run ds st1 = ret (st2, outs) \<and>
    dhcp_step d2 st2 = ret (st3, [(Broadcast_68, p2)]) \<and>
    is_reply d2 (if requested_ip d2 = ret (Some ip) \<or> requested_ip d2 = ret None then DHCP_ACK else DHCP_NAK) ip p2"
proof -
  let ?ms = "List.map_filter asker ds"
  have ok0: "dhcp_ok st0" "pool_ok (length ds + 2) (pool st0)"
    using reachable_pool [OF run(1), of "length ds + 2"] run(2,3) by simp_all
  then have ok: "pool_ok (length ?ms + 2 + 0) (pool st0)"
    using length_askers [of ds] by (auto intro: pool_ok_mono)
  have good: "list_all (\<lambda>m. m \<noteq> NO_MAC) ?ms" using run(3) by (auto intro: good_askers)
  obtain i q where a1: "alloc_slot (pool st0) m = (i, q)" by (rule prod.exhaust)
  let ?ip = "offered_ip (of_nat i)"
  have "reply_kind d1 DHCP_DISCOVER ?ip = ret (Some DHCP_OFFER)" by (simp add: reply_kind_def)
  with dhcp_step_served [OF ok0(1) disc(1,2) a1] obtain st1 p1 where
    1: "dhcp_step d1 st0 = ret (st1, [(Broadcast_68, p1)])" "dhcp_ok st1" "pool st1 = q"
      "is_reply d1 DHCP_OFFER ?ip p1" by auto
  obtain st2 outs where 2: "dhcp_run ds st1 = ret (st2, outs)" "dhcp_ok st2"
    "pool st2 = pool.serve ?ms q"
    using dhcp_run_pool [OF 1(2), of ds] 1(3) by auto
  have "fst (alloc_slot (pool st2) m) = i"
    using pool.slot_stable [OF ok disc(3) good] others a1 2(3) by (simp add: pool_size)
  then obtain q2 where a2: "alloc_slot (pool st2) m = (i, q2)" by (metis prod.collapse)
  obtain w where w: "requested_ip d2 = ret w" using requested_ip_total by blast
  have "reply_kind d2 DHCP_REQUEST ?ip = ret (Some
    (if requested_ip d2 = ret (Some ?ip) \<or> requested_ip d2 = ret None then DHCP_ACK else DHCP_NAK))"
    by (auto simp: reply_kind_def w DHCP_REQUEST_def DHCP_DISCOVER_def split: option.split)
  with dhcp_step_served [OF 2(2) req a2] obtain st3 p2 where
    3: "dhcp_step d2 st2 = ret (st3, [(Broadcast_68, p2)])" "is_reply d2
      (if requested_ip d2 = ret (Some ?ip) \<or> requested_ip d2 = ret None then DHCP_ACK else DHCP_NAK) ?ip p2"
    by auto
  show ?thesis
    by (rule exI [of _ ?ip], rule exI [of _ st1], rule exI [of _ p1], rule exI [of _ st2],
        rule exI [of _ outs], rule exI [of _ st3], rule exI [of _ p2])
      (use 1 2 3 length_offered_ip in simp)
qed

theorem dhcp_handshake_witness:
  "\<exists>ip st1 p1 st2 outs st3 p2.
    dhcp_step (client_msg MAC_A 1 []) init_dhcp = ret (st1, [(Broadcast_68, p1)]) \<and>
    dhcp_run [client_msg MAC_B 1 []] st1 = ret (st2, outs) \<and>
    dhcp_step (client_msg MAC_A 3 []) st2 = ret (st3, [(Broadcast_68, p2)]) \<and>
    is_reply (client_msg MAC_A 3 []) DHCP_ACK ip p2"
proof -
  have "find_option (client_msg MAC_A 3 []) 50 = ret (opt_lookup 50 [Opt 53 [3]])"
    unfolding client_msg_def by (intro find_option_items) (simp_all add: DHCP_MAGIC_def)
  then have "requested_ip (client_msg MAC_A 3 []) = ret None" by (simp add: requested_ip_def)
  then show ?thesis
    using dhcp_handshake [of "[]" init_dhcp "[]" "[client_msg MAC_B 1 []]" "client_msg MAC_A 1 []" MAC_A
        "client_msg MAC_A 3 []"]
    by (auto simp: client_msg_fields map_filter_simps DHCP_DISCOVER_def DHCP_REQUEST_def
        simp del: dhcp_run.simps(2))
qed

text \<open>C32: the answer to one message: an offer to a discover, an acknowledgement to a request for
  the client's own address or without one, a refusal to a request for another address, and
  silence to anything else, each to the broadcast address.\<close>

theorem dhcp_answer:
  assumes "dhcp_run ds init_dhcp = ret (st, outs)" "asker d = Some m"
    and "dhcp_msg_type d = ret (Some t)" "alloc_slot (leases st, lease_seq st) m = (i, p)"
  shows "let ip = offered_ip (of_nat i) in \<exists>st' out. dhcp_step d st = ret (st', out) \<and>
    (if t = DHCP_DISCOVER then \<exists>r. out = [(Broadcast_68, r)] \<and> is_reply d DHCP_OFFER ip r
     else if t = DHCP_REQUEST then \<exists>r. out = [(Broadcast_68, r)] \<and>
       is_reply d (if requested_ip d \<in> {ret None, ret (Some ip)} then DHCP_ACK else DHCP_NAK) ip r
     else out = [])"
proof -
  have ok: "dhcp_ok st" using dhcp_run_pool [OF dhcp_ok_init, of ds] assms(1) by auto
  have a: "alloc_slot (pool st) m = (i, p)" using assms(4) by (simp add: pool_def)
  obtain w where w: "requested_ip d = ret w" using requested_ip_total by blast
  show ?thesis
    using dhcp_step_served [OF ok assms(2,3) a]
    by (auto simp: reply_kind_def w Let_def split: if_splits option.splits)
qed

theorem dhcp_answer_witness:
  "\<exists>i p st' r. alloc_slot (leases init_dhcp, lease_seq init_dhcp) MAC_A = (i, p) \<and>
     dhcp_step (client_msg MAC_A 1 []) init_dhcp = ret (st', [(Broadcast_68, r)]) \<and>
     is_reply (client_msg MAC_A 1 []) DHCP_OFFER (offered_ip (of_nat i)) r"
proof -
  obtain i p where a: "alloc_slot (leases init_dhcp, lease_seq init_dhcp) MAC_A = (i, p)"
    by (rule prod.exhaust)
  with dhcp_answer [of "[]" init_dhcp "[]" "client_msg MAC_A 1 []" MAC_A 1 i p] show ?thesis
    by (auto simp: client_msg_fields DHCP_DISCOVER_def Let_def)
qed

section \<open>The DNS task\<close>

lemma recv_into_prefix [simp]:
  "length d \<le> length pkt \<Longrightarrow> length (recv_into pkt d) = length pkt"
  "take (length d) (recv_into pkt d) = d"
  by (simp_all add: recv_into_def)

lemma dns_reply_prefix:
  "12 \<le> e \<Longrightarrow> e \<le> length d \<Longrightarrow> dns_reply (d @ r) e ans = dns_reply d e ans"
proof -
  assume e: "12 \<le> e" "e \<le> length d"
  then have "(d @ r) ! i = d ! i" if "i < 12" for i using that by (simp add: nth_append)
  with e show ?thesis by (simp add: dns_reply_def dns_header_def)
qed

text \<open>The reply depends on the datagram alone, not on what the buffer held before.\<close>

lemma build_dns_reply_recv:
  "build_dns_reply (recv_into pkt d) (length d) out = build_dns_reply d (length d) out"
proof (cases "question_end d")
  case None
  then show ?thesis by (simp add: build_dns_reply_eq recv_into_def)
next
  case (Some e)
  from question_end_bounds [OF Some] have e: "e - 4 < length d" "e - 3 < length d" "12 \<le> e" "e \<le> length d"
    by linarith+
  then have "(d @ r) ! (e - 4) = d ! (e - 4)" "(d @ r) ! (e - 3) = d ! (e - 3)" for r
    by (simp_all only: nth_append if_True)
  with Some e(3,4) show ?thesis
    by (simp add: build_dns_reply_eq recv_into_def dns_reply_prefix)
qed

lemma dns_step_sends:
  "\<exists>pkt' logs. dns_step d pkt = ret (pkt',
     (case build_dns_reply d (length d) (replicate 512 0) of
        Some (Some len, out) \<Rightarrow> [(Sender, take len out)] | _ \<Rightarrow> []), logs)"
proof (cases "if length d \<le> length d then question_end (take (length d) d) else None")
  case None
  then have "build_dns_reply d (length d) (replicate 512 0) = ret (None, replicate 512 0)"
    by (simp add: build_dns_reply_eq)
  then show ?thesis by (simp add: dns_step_def build_dns_reply_recv Let_def)
next
  case (Some e)
  then have e: "question_end d = Some e" by simp
  show ?thesis
  proof (cases "512 < e")
    case True
    then have "build_dns_reply d (length d) (replicate 512 0) = ret (None, replicate 512 0)"
      by (simp add: build_dns_reply_eq e)
    then show ?thesis by (simp add: dns_step_def build_dns_reply_recv Let_def)
  next
    case False
    let ?r = "dns_reply d e (be16 (d ! (e - 4)) (d ! (e - 3)) = 1 \<and> e + 16 \<le> 512)"
    have b: "build_dns_reply d (length d) (replicate 512 0) =
        ret (Some (length ?r), ?r @ drop (length ?r) (replicate 512 0))"
      using False by (simp add: build_dns_reply_eq e Let_def)
    obtain k n where f: "format_qname (recv_into pkt d) (replicate 80 0) = ret (k, n)" "k \<le> length n"
      using format_qname_loop_total [of 0 "replicate 80 0" "recv_into pkt d" 12 0]
      by (auto simp: format_qname_def)
    show ?thesis
      by (simp add: dns_step_def build_dns_reply_recv Let_def b dns_qtype_eq f slice_of_ok idx_ok)
  qed
qed

text \<open>One DNS datagram never stops the task, and what is sent back is a function of the
  datagram alone: nothing of an earlier query in the buffer reaches the network.\<close>

lemma dns_task_stateless:
  "\<exists>sends. \<forall>pkt. \<exists>pkt' logs. dns_step d pkt = ret (pkt', sends, logs)"
  using dns_step_sends by blast

section \<open>The mDNS task\<close>

lemma eq_label_iff: "eq_label a b \<longleftrightarrow> map ascii_lower a = map ascii_lower b"
proof -
  have "eq_label a b \<longleftrightarrow> list_all2 (\<lambda>x y. ascii_lower x = ascii_lower y) a b"
    by (simp add: eq_label_def list_all_iff list_all2_iff)
  also have "\<dots> \<longleftrightarrow> list_all2 (=) (map ascii_lower a) (map ascii_lower b)" by (simp add: list.rel_map)
  finally show ?thesis by (simp add: list.rel_eq)
qed

lemma match_label_encoded:
  assumes "label_ok l" "hops < 8"
  shows "match_label (pre @ of_nat (length l) # l @ rest) lab (length pre) hops =
    ret (if eq_label l lab then Some (length pre + (1 + length l), sat_add hops 1) else None)"
proof -
  have h: "hops < 10" using assms(2) by (rule less_trans) simp
  have "\<not> sat_add hops 1 > 8"
    using hop_10 [OF h] assms(2) by (simp add: word_less_nat_alt word_le_nat_alt not_less)
  moreover have l: "0 < length l" "length l < 192" using assms(1) by (simp_all add: label_ok_def)
  moreover have "eq_label l lab \<Longrightarrow> length l = length lab" by (simp add: eq_label_def)
  moreover have "slice_of (pre @ of_nat (length l) # l @ rest) (length pre + 1) (length pre + 1 + length l) = ret l"
    by (simp add: slice_of_ok)
  ultimately show ?thesis
    by (subst match_label.simps)
      (auto simp: Let_def idx_ok label_len [OF assms(1)] pointer_test simp del: One_nat_def add_Suc_right
        cong: if_cong)
qed

lemma match_label_root:
  "match_label (pre @ 0 # rest) lab (length pre) hops = ret None"
  by (subst match_label.simps) (simp add: Let_def idx_ok)

text \<open>Comparing an uncompressed name is comparing its labels, letters up to case.\<close>

lemma match_labels_encoded:
  "list_all label_ok ls \<Longrightarrow> unat hops + length labels \<le> 8 \<Longrightarrow>
   match_labels (pre @ name_bytes ls Root @ rest) labels (length pre) hops =
   ret (list_all2 eq_label ls labels)"
proof (induction labels arbitrary: ls pre hops)
  case Nil
  show ?case
  proof (cases ls)
    case (Cons l ls')
    with Nil.prems(1) have "label_ok l" by simp
    then have "(of_nat (length l) :: u8) \<noteq> 0"
      using label_len [of l] by (auto simp: label_ok_def)
    with Cons show ?thesis by (simp add: idx_ok)
  qed (simp add: idx_ok)
next
  case (Cons lab labels)
  have h: "hops < 8" using Cons.prems(2) by (simp add: word_less_nat_alt)
  then have h10: "hops < 10" by (rule less_trans) simp
  show ?case
  proof (cases ls)
    case Nil
    then show ?thesis by (simp add: match_label_root)
  next
    case l: (Cons l ls')
    with Cons.prems(1) have ok: "label_ok l" "list_all label_ok ls'" by simp_all
    let ?b = "of_nat (length l) :: u8"
    from Cons.IH [of ls' "sat_add hops 1" "pre @ ?b # l"] ok(2) Cons.prems(2) hop_10 [OF h10]
    have "match_labels (pre @ ?b # l @ name_bytes ls' Root @ rest) labels (length pre + (1 + length l))
        (sat_add hops 1) = ret (list_all2 eq_label ls' labels)"
      by (simp add: ac_simps)
    with match_label_encoded [OF ok(1) h, of pre "name_bytes ls' Root @ rest" lab] show ?thesis
      by (simp add: l split: if_splits)
  qed
qed

lemma qname_matches_encoded:
  assumes "list_all label_ok ls" "length labels \<le> 8"
  shows "qname_matches (pre @ name_bytes ls Root @ rest) (length pre) labels =
    ret (list_all2 eq_label ls labels)"
  using match_labels_encoded [OF assms(1), of 0 labels pre rest] assms(2)
  by (simp add: qname_matches_def)

definition mdns_header :: bytes where "mdns_header = [0, 0, 0x84, 0, 0, 0, 0, 1, 0, 0, 0, 0]"
definition mdns_record :: bytes where "mdns_record = [0, 1, 0x80, 1, 0, 0, 0, 120, 0, 4] @ SERVER_IP"

lemma length_ge_14:
  assumes "14 \<le> length xs"
  obtains a b c d e f g h i j k l m n r where
    "xs = a # b # c # d # e # f # g # h # i # j # k # l # m # n # r"
  using assms by (auto simp: Suc_le_length_iff eval_nat_numeral)

text \<open>The writes behind the name, \<open>i\<close> its end.\<close>

definition mdns_tail :: "nat \<Rightarrow> bytes \<Rightarrow> (nat option \<times> bytes) rs" where
  "mdns_tail i out = do {
     out \<leftarrow> put out i 0;
     out \<leftarrow> put out (i + 1) 1;
     out \<leftarrow> put out (i + 2) 0x80;
     out \<leftarrow> put out (i + 3) 1;
     out \<leftarrow> put out (i + 4) 0;
     out \<leftarrow> put out (i + 5) 0;
     out \<leftarrow> put out (i + 6) 0;
     out \<leftarrow> put out (i + 7) 120;
     out \<leftarrow> put out (i + 8) 0;
     out \<leftarrow> put out (i + 9) 4;
     out \<leftarrow> copy_into out (i + 10) (i + 14) SERVER_IP;
     ret (Some (i + 14), out)
   }"

lemma mdns_tail_eq:
  assumes "14 \<le> length Q"
  shows "mdns_tail (length P) (P @ Q) =
    ret (Some (length P + 14), P @ mdns_record @ drop 14 Q)"
proof -
  obtain a b c d e f g h i j k l m n r where
    Q: "Q = a # b # c # d # e # f # g # h # i # j # k # l # m # n # r"
    using assms by (rule length_ge_14)
  note put0 = put_append_right [of P _ 0, simplified]
  note put1 = put_append_right [of P _ 1, simplified]
  note put2 = put_append_right [of P _ 2, simplified]
  show ?thesis
    by (simp add: mdns_tail_def Q put0 put1 put2 put_append_right put_Cons mdns_record_def
        SERVER_IP_def copy_into_def)
qed

lemma mdns_head_eq:
  assumes "12 + length name \<le> length out"
  shows "(do {
      out \<leftarrow> fill_range out 0 12 0;
      out \<leftarrow> put out 2 0x84;
      out \<leftarrow> put out 3 0;
      out \<leftarrow> put out 7 1;
      out \<leftarrow> copy_into out 12 (12 + length name) name;
      f out
    }) = f ((mdns_header @ name) @ drop (12 + length name) out)"
proof -
  have "length name \<le> length out - 12" using assms by linarith
  with assms show ?thesis
    by (simp add: fill_range_ok put_def copy_into_def mdns_header_def numeral_eq_Suc)
qed

lemma write_mdns_a_eq:
  assumes "12 + length name + 16 \<le> length out"
  shows "write_mdns_a out name =
    ret (Some (26 + length name), mdns_header @ name @ mdns_record @ drop (26 + length name) out)"
proof -
  have n: "12 + length name = length (mdns_header @ name)" by (simp add: mdns_header_def)
  have "write_mdns_a out name = (do {
      out \<leftarrow> fill_range out 0 12 0;
      out \<leftarrow> put out 2 0x84;
      out \<leftarrow> put out 3 0;
      out \<leftarrow> put out 7 1;
      out \<leftarrow> copy_into out 12 (12 + length name) name;
      mdns_tail (12 + length name) out
    })"
    using assms by (simp add: write_mdns_a_def mdns_tail_def Let_def)
  also have "\<dots> = mdns_tail (length (mdns_header @ name))
      ((mdns_header @ name) @ drop (12 + length name) out)"
    unfolding n [symmetric] by (rule mdns_head_eq) (use assms in simp)
  also have "\<dots> = ret (Some (26 + length name),
      mdns_header @ name @ mdns_record @ drop (26 + length name) out)"
    using assms by (subst mdns_tail_eq) (simp_all add: mdns_header_def ac_simps)
  finally show ?thesis .
qed

lemma match_label_total: "\<exists>r. match_label q lab i hops = ret r"
proof (induction hops arbitrary: i rule: measure_induct_rule [where f = "\<lambda>h. 9 - unat h"])
  case (less hops)
  let ?h = "sat_add hops 1"
  show ?case
  proof (cases "?h > 8 \<or> i \<ge> length q")
    case True
    then show ?thesis by (subst match_label.simps) (simp add: Let_def)
  next
    case False
    then have IH: "\<exists>r. match_label q lab j ?h = ret r" for j
      using less.IH [of ?h j] hop_step [of hops 8] by (auto simp: not_less)
    show ?thesis
      using False IH [of "pointer_target (unat (q ! i)) (q ! Suc i)"]
      by (cases "unat (q ! i) AND 0xC0 = 0xC0"; subst match_label.simps)
        (simp_all add: Let_def idx_ok slice_of_ok not_le not_less)
  qed
qed

lemma match_labels_total: "\<exists>r. match_labels q labels i hops = ret r"
proof (induction labels arbitrary: i hops)
  case (Cons lab labels)
  obtain r where "match_label q lab i hops = ret r" using match_label_total by blast
  with Cons show ?case by (cases r) auto
next
  case Nil
  show ?case by (cases "i < length q") (auto simp: idx_ok intro: exI [of _ False])
qed

lemma mdns_answer_eq:
  assumes "qname_matches pkt 12 SHORT_NAME = ret short"
  shows "\<exists>logs. mdns_answer pkt t =
    (let r = mdns_header @ (if short then short_name else long_name) @ mdns_record
     in ret ([(Sender, r), (Mdns_group, r)], logs))"
proof -
  define name where "name = (if short then short_name else long_name)"
  let ?r = "mdns_header @ name @ mdns_record"
  have len: "12 + length name + 16 \<le> length (replicate 64 (0 :: u8))"
    by (simp add: name_def short_name_def long_name_def ascii_def)
  obtain k n where f: "format_qname pkt (replicate 40 0) = ret (k, n)" "k \<le> length n"
    using format_qname_loop_total [of 0 "replicate 40 0" pkt 12 0] by (auto simp: format_qname_def)
  have l: "length mdns_header = 12" "length mdns_record = 14"
    by (simp_all add: mdns_header_def mdns_record_def SERVER_IP_def)
  have w: "write_mdns_a (replicate 64 0) name =
      ret (Some (26 + length name), ?r @ drop (26 + length name) (replicate 64 0))"
    using write_mdns_a_eq [OF len] by simp
  have s: "slice_of (?r @ drop (26 + length name) (replicate 64 0)) 0 (26 + length name) = ret ?r"
    by (simp add: slice_of_ok l)
  have "mdns_answer pkt t = ret ([(Sender, ?r), (Mdns_group, ?r)], [(qtype_name t, utf8_or (take k n) ''?'')])"
    unfolding mdns_answer_def assms using f
    by (simp add: w s slice_of_ok del: append_assoc drop_replicate flip: name_def)
  then show ?thesis by (simp add: name_def Let_def)
qed

lemma qname_matches_total: "\<exists>b. qname_matches q i labels = ret b"
  using match_labels_total by (simp add: qname_matches_def)

lemma mdns_name_total: "\<exists>b. mdns_name_is_ours q = ret b"
  using qname_matches_total [of q 12 LONG_NAME] qname_matches_total [of q 12 SHORT_NAME]
  by (auto simp: mdns_name_is_ours_def)

text \<open>The mDNS task answers or ignores every datagram; it never panics, on pointer loops and
  truncated names neither.\<close>

lemma mdns_task_total: "\<exists>pkt' sends logs. mdns_step d pkt = ret (pkt', sends, logs)"
proof (cases "length d < 12 \<or> recv_into pkt d ! 2 AND 0x80 \<noteq> 0")
  case True
  then show ?thesis by (auto simp: mdns_step_def idx_ok recv_into_def Let_def)
next
  case False
  let ?p = "recv_into pkt d"
  have n: "length d \<le> length ?p" by (simp add: recv_into_def)
  obtain r where r: "skip_name ?p 12 = ret r" using skip_name_total by blast
  obtain b where b: "mdns_name_is_ours ?p = ret b" using mdns_name_total by blast
  obtain short where "qname_matches ?p 12 SHORT_NAME = ret short"
    using qname_matches_total by blast
  note a = mdns_answer_eq [OF this]
  show ?thesis
  proof (cases "\<exists>e. r = Some e \<and> e + 4 \<le> length d \<and> b")
    case True
    then obtain e where e: "r = Some e" "e + 4 \<le> length d" b by blast
    with False n r b a [of "be16 (?p ! e) (?p ! (e + 1))"] show ?thesis
      by (auto simp: mdns_step_def Let_def idx_ok)
  next
    case none: False
    with False n r b show ?thesis
      by (cases r) (auto simp: mdns_step_def Let_def idx_ok)
  qed
qed

lemma our_names:
  assumes "list_all label_ok ls" "length hdr = 12"
  shows "qname_matches (hdr @ name_bytes ls Root @ rest) 12 SHORT_NAME = ret (list_all2 eq_label ls SHORT_NAME)"
    and "mdns_name_is_ours (hdr @ name_bytes ls Root @ rest) =
      ret (list_all2 eq_label ls LONG_NAME \<or> list_all2 eq_label ls SHORT_NAME)"
  using qname_matches_encoded [OF assms(1), of SHORT_NAME hdr rest]
    qname_matches_encoded [OF assms(1), of LONG_NAME hdr rest] assms(2)
  by (simp_all add: SHORT_NAME_def LONG_NAME_def mdns_name_is_ours_def)

text \<open>C24: a query with an uncompressed name is answered exactly when it is a query, asks for type
  A or ANY and names \<open>scoreboard.local\<close> or \<open>sb.local\<close> up to case; the answer is one A record for
  the canonical spelling of the name asked, to the asker and to the group.\<close>

theorem mdns_answers:
  assumes "length hdr = 12" "list_all label_ok ls"
    and "d = hdr @ name_bytes ls Root @ [t1, t2, c1, c2] @ rest"
  shows "\<exists>pkt' logs. mdns_step d pkt = ret (pkt',
    (if hdr ! 2 AND 0x80 = 0 \<and> be16 t1 t2 \<in> {1, 255} \<and>
        (list_all2 eq_label ls LONG_NAME \<or> list_all2 eq_label ls SHORT_NAME)
     then let r = mdns_header @ (if list_all2 eq_label ls SHORT_NAME then short_name else long_name) @
                    mdns_record
       in [(Sender, r), (Mdns_group, r)]
     else []), logs)"
proof -
  let ?tail = "[t1, t2, c1, c2] @ rest @ drop (length d) pkt" and ?e = "12 + length (name_bytes ls Root)"
  have p: "recv_into pkt d = hdr @ name_bytes ls Root @ ?tail" by (simp add: recv_into_def assms(3))
  have sk: "skip_name (hdr @ name_bytes ls Root @ ?tail) 12 = ret (Some ?e)"
    using skip_name_encoded [OF assms(2), of Root hdr ?tail] assms(1) by simp
  have n: "\<not> length d < 12" "\<not> ?e + 4 > length d" by (simp_all add: assms(1,3))
  have i: "idx (hdr @ name_bytes ls Root @ ?tail) 2 = ret (hdr ! 2)"
    "idx (hdr @ name_bytes ls Root @ ?tail) ?e = ret t1"
    "idx (hdr @ name_bytes ls Root @ ?tail) (?e + 1) = ret t2"
    using assms(1) by (simp_all add: idx_def nth_append)
  note names = our_names [OF assms(2,1), of ?tail]
  obtain logs where a: "mdns_answer (hdr @ name_bytes ls Root @ ?tail) (be16 t1 t2) =
    (let r = mdns_header @ (if list_all2 eq_label ls SHORT_NAME then short_name else long_name) @ mdns_record
     in ret ([(Sender, r), (Mdns_group, r)], logs))"
    using mdns_answer_eq [OF names(1)] by (auto simp: Let_def)
  show ?thesis
    unfolding mdns_step_def p Let_def
    using n by (simp only: bind.bind_lunit i sk names a option.case if_False) 
      (auto simp: Let_def)
qed

theorem mdns_answers_witness:
  "\<exists>pkt' logs. mdns_step (replicate 12 0 @ name_bytes [ascii ''ScoreBoard'', ascii ''LOCAL''] Root @
      [0, 1, 0, 1]) (replicate 512 7) =
    ret (pkt', [(Sender, mdns_header @ long_name @ mdns_record),
                (Mdns_group, mdns_header @ long_name @ mdns_record)], logs)"
proof -
  let ?ls = "[ascii ''ScoreBoard'', ascii ''LOCAL'']"
  have "list_all2 eq_label ?ls LONG_NAME" "\<not> list_all2 eq_label ?ls SHORT_NAME"
    by (simp_all add: LONG_NAME_def SHORT_NAME_def eq_label_iff ascii_def ascii_lower_def)
  moreover have "list_all label_ok ?ls" by (simp add: label_ok_def ascii_def)
  moreover have "be16 0 1 = 1" by (simp add: be16_def)
  ultimately show ?thesis
    using mdns_answers [of "replicate 12 0" ?ls _ 0 1 0 1 "[]" "replicate 512 7"]
    by (simp add: Let_def)
qed

end
