(* ===== verification/Web.thy ===== *)
theory Web
  imports Prelude
begin

text \<open>
  The pool of HTTP workers: \<open>web_task\<close> of \<open>src/main.rs\<close>, of which \<open>WEB_TASK_POOL_SIZE\<close> run, and
  the counter \<open>HTTP_LIVE\<close> they share; and \<open>bind_retry\<close> of \<open>src/net_services.rs\<close>, with which each
  UDP service starts.  Sockets and the HTTP server are the network stack's and picoserve's.
\<close>

section \<open>Model\<close>

definition WEB_TASK_POOL_SIZE :: nat where "WEB_TASK_POOL_SIZE = 12"

text \<open>Whether each worker is serving a connection, and the counter.\<close>

record web =
  serving :: "bool list"
  http_live :: u8

definition init_web :: web where
  "init_web = \<lparr>serving = replicate WEB_TASK_POOL_SIZE False, http_live = 0\<rparr>"

text \<open>What a worker logs: \<open>tcp full\<close>, \<open>tcp+\<close>, \<open>tcp-\<close>, each with the count it shows.\<close>

datatype web_log = Tcp_full u8 | Tcp_open u8 | Tcp_close u8

text \<open>
  The two moments of a worker's round that touch the counter, each one atomic add: after
  \<open>accept\<close>, and after \<open>serve\<close>.  \<open>fetch_add\<close> and \<open>fetch_sub\<close> wrap; the value shown saturates.
\<close>

definition web_accept :: "nat \<Rightarrow> web \<Rightarrow> web \<times> web_log" where
  "web_accept i w =
     (let live = sat_add (http_live w) 1 in
      (w\<lparr>serving := (serving w)[i := True], http_live := http_live w + 1\<rparr>,
       if live \<ge> of_nat WEB_TASK_POOL_SIZE then Tcp_full live else Tcp_open live))"

definition web_close :: "nat \<Rightarrow> web \<Rightarrow> web \<times> web_log" where
  "web_close i w =
     (w\<lparr>serving := (serving w)[i := False], http_live := http_live w - 1\<rparr>,
      Tcp_close (if http_live w = 0 then 0 else http_live w - 1))"

text \<open>A worker accepts when it is not serving, and closes when it is.\<close>

inductive web_step :: "web \<Rightarrow> web \<Rightarrow> web_log \<Rightarrow> bool" where
  accept: "i < length (serving w) \<Longrightarrow> \<not> serving w ! i \<Longrightarrow> web_accept i w = (w', e) \<Longrightarrow> web_step w w' e"
| close: "i < length (serving w) \<Longrightarrow> serving w ! i \<Longrightarrow> web_close i w = (w', e) \<Longrightarrow> web_step w w' e"

inductive web_reachable :: "web \<Rightarrow> bool" where
  web_start: "web_reachable init_web"
| web_next: "web_reachable w \<Longrightarrow> web_step w w' e \<Longrightarrow> web_reachable w'"

inductive_cases web_stepE: "web_step w w' e"

text \<open>
  \<open>bind_retry\<close>: \<open>binds k\<close> is whether the \<open>k\<close>-th attempt succeeds; the result is the attempt that
  did.  There is no limit.
\<close>

partial_function (option) bind_retry :: "(nat \<Rightarrow> bool) \<Rightarrow> nat \<Rightarrow> nat option" where
  "bind_retry binds k = (if binds k then Some k else bind_retry binds (k + 1))"

section \<open>The counter counts the workers\<close>

definition busy :: "web \<Rightarrow> nat" where "busy w = count_list (serving w) True"

definition web_inv :: "web \<Rightarrow> bool" where
  "web_inv w \<longleftrightarrow> length (serving w) = 12 \<and> unat (http_live w) = busy w"

lemma count_list_update:
  "i < length xs \<Longrightarrow> count_list (xs[i := y]) a + (if xs ! i = a then 1 else 0) =
   count_list xs a + (if y = a then 1 else 0)"
proof (induction xs arbitrary: i)
  case (Cons x xs)
  show ?case
  proof (cases i)
    case (Suc j)
    with Cons.prems Cons.IH [of j] show ?thesis by (simp split: if_splits)
  qed simp
qed simp

lemma count_le: "count_list xs a \<le> length xs"
  by (induction xs) auto

lemma busy_le: "web_inv w \<Longrightarrow> busy w \<le> 12"
  using count_le [of "serving w" True] by (simp add: web_inv_def busy_def)

lemma web_accept_counts:
  assumes "web_inv w" "i < length (serving w)" "\<not> serving w ! i"
  shows "web_inv (fst (web_accept i w))" "busy (fst (web_accept i w)) = Suc (busy w)" "busy w < 12"
    "unat (http_live w + 1) = Suc (busy w)" "sat_add (http_live w) 1 = http_live w + 1"
proof -
  have b: "busy (fst (web_accept i w)) = Suc (busy w)"
    using count_list_update [of i "serving w" True True] assms(2,3)
    by (simp add: busy_def web_accept_def Let_def)
  then show "busy (fst (web_accept i w)) = Suc (busy w)" .
  have "busy (fst (web_accept i w)) \<le> 12"
    using count_le [of "serving (fst (web_accept i w))" True] assms(1)
    by (simp add: busy_def web_accept_def Let_def web_inv_def)
  with b show lt: "busy w < 12" by simp
  with assms(1) have "unat (http_live w) < 12" by (simp add: web_inv_def)
  then have "http_live w < 255" by (simp add: word_less_nat_alt)
  moreover have "(- 1 :: u8) = 255" by simp
  ultimately have "http_live w < - 1" by metis
  then show u: "unat (http_live w + 1) = Suc (busy w)" "sat_add (http_live w) 1 = http_live w + 1"
    using unat_Suc_word [of "http_live w"] less_Suc_word [of "http_live w"] assms(1)
    by (auto simp: web_inv_def sat_add_def)
  show "web_inv (fst (web_accept i w))"
    using u(1) b assms(1) by (simp add: web_inv_def) (simp add: web_accept_def Let_def)
qed

lemma web_close_counts:
  assumes "web_inv w" "i < length (serving w)" "serving w ! i"
  shows "web_inv (fst (web_close i w))" "Suc (busy (fst (web_close i w))) = busy w"
    "unat (http_live w - 1) = busy w - 1" "http_live w \<noteq> 0"
proof -
  show b: "Suc (busy (fst (web_close i w))) = busy w"
    using count_list_update [of i "serving w" False True] assms(2,3)
    by (simp add: busy_def web_close_def)
  then have "0 < unat (http_live w)" using assms(1) by (simp add: web_inv_def)
  then show nz: "http_live w \<noteq> 0" by auto
  then show u: "unat (http_live w - 1) = busy w - 1"
    using assms(1) by (simp add: unat_minus_one web_inv_def)
  show "web_inv (fst (web_close i w))"
    using u b assms(1) by (simp add: web_inv_def) (simp add: web_close_def)
qed

lemma web_inv_init: "web_inv init_web"
  by (simp add: web_inv_def init_web_def WEB_TASK_POOL_SIZE_def busy_def)

lemma web_reachable_inv: "web_reachable w \<Longrightarrow> web_inv w"
proof (induction rule: web_reachable.induct)
  case (web_next w w' e)
  from web_next(2,3) show ?case
    by (cases rule: web_step.cases)
      (metis web_accept_counts(1) fst_conv, metis web_close_counts(1) fst_conv)
qed (rule web_inv_init)

text \<open>C37: \<open>HTTP_LIVE\<close> is the number of connections being served, at most twelve, so it never wraps;
  a worker shows the new number, and reports the pool full exactly when it took its last free
  worker.\<close>

theorem live_counts_connections:
  assumes "web_reachable w" "web_step w w' e"
  shows "unat (http_live w') = count_list (serving w') True \<and> unat (http_live w') \<le> 12 \<and>
    e = (if count_list (serving w') True < count_list (serving w) True then Tcp_close (http_live w')
         else if count_list (serving w') True = 12 then Tcp_full (http_live w')
         else Tcp_open (http_live w'))"
proof -
  have inv: "web_inv w" "web_inv w'"
    using assms web_reachable_inv web_next by blast+
  then have "unat (http_live w') = busy w' \<and> unat (http_live w') \<le> 12"
    using busy_le [of w'] by (simp add: web_inv_def)
  moreover have "e = (if busy w' < busy w then Tcp_close (http_live w')
      else if busy w' = 12 then Tcp_full (http_live w') else Tcp_open (http_live w'))"
    using assms(2)
  proof (cases rule: web_step.cases)
    case (accept i)
    note c = web_accept_counts [OF inv(1) accept(1,2)]
    have "of_nat WEB_TASK_POOL_SIZE \<le> http_live w + 1 \<longleftrightarrow> busy w' = 12"
      using c accept(3) by (auto simp: word_le_nat_alt WEB_TASK_POOL_SIZE_def)
    with c accept(3) show ?thesis by (auto simp: web_accept_def Let_def)
  next
    case (close i)
    note c = web_close_counts [OF inv(1) close(1,2)]
    with close(3) show ?thesis by (auto simp: web_close_def)
  qed
  ultimately show ?thesis by (simp add: busy_def)
qed

theorem live_counts_connections_witness:
  "\<exists>w' e. web_step init_web w' e \<and> unat (http_live w') = 1 \<and> e = Tcp_open 1"
proof -
  obtain w' e where a: "web_accept 0 init_web = (w', e)" by force
  then have s: "web_step init_web w' e"
    by (intro accept [where i = 0]) (simp_all add: init_web_def WEB_TASK_POOL_SIZE_def)
  have "http_live w' = 1" "serving w' = True # replicate 11 False"
    using a by (auto simp: web_accept_def init_web_def WEB_TASK_POOL_SIZE_def Let_def numeral_eq_Suc)
  with s live_counts_connections [OF web_start s] show ?thesis
    by (intro exI [of _ w'] exI [of _ e])
      (simp add: init_web_def WEB_TASK_POOL_SIZE_def)
qed

section \<open>Binding\<close>

lemma bind_retry_found: "binds (k + d) \<Longrightarrow> \<exists>n. bind_retry binds k = Some n"
proof (induction d arbitrary: k)
  case 0
  then show ?case by (subst bind_retry.simps) simp
next
  case (Suc d)
  from Suc.IH [of "k + 1"] Suc.prems show ?case by (subst bind_retry.simps) simp
qed

lemma bind_retry_first:
  assumes "bind_retry binds k = Some n"
  shows "binds n \<and> k \<le> n \<and> (\<forall>j. k \<le> j \<and> j < n \<longrightarrow> \<not> binds j)"
proof (rule bind_retry.raw_induct [where P = "\<lambda>binds k n. binds n \<and> k \<le> n \<and> (\<forall>j. k \<le> j \<and> j < n \<longrightarrow> \<not> binds j)", OF _ assms],
    goal_cases)
  case (1 f binds k n)
  show ?case
  proof (cases "binds k")
    case False
    then have "f binds (k + 1) = Some n" using 1(2) by simp
    from 1(1) [OF this] have "binds n \<and> k + 1 \<le> n \<and> (\<forall>j. k + 1 \<le> j \<and> j < n \<longrightarrow> \<not> binds j)" .
    with False show ?thesis by (metis Suc_eq_plus1 Suc_leD Suc_leI le_neq_implies_less)
  next
    case True
    with 1(2) have "n = k" by simp
    with True show ?thesis by auto
  qed
qed

text \<open>A service starts if its port can ever be bound, and then at the first attempt that succeeds;
  otherwise it retries forever.\<close>

lemma bind_retry_eq:
  "bind_retry binds 0 = (if \<exists>k. binds k then Some (LEAST k. binds k) else None)"
proof (cases "\<exists>k. binds k")
  case True
  then obtain k where "binds (0 + k)" by auto
  then obtain n where n: "bind_retry binds 0 = Some n" using bind_retry_found by blast
  from bind_retry_first [OF n] have "(LEAST k. binds k) = n"
    by (intro Least_equality) (auto simp: not_less [symmetric])
  with n True show ?thesis by simp
next
  case False
  then show ?thesis using bind_retry_first [of binds 0] by (cases "bind_retry binds 0") auto
qed

end
