(* ===== verification/Udp_Services.thy ===== *)
theory Udp_Services
  imports Net_Services Web
begin

text \<open>
  \<open>dhcp_task\<close>, \<open>dns_task\<close> and \<open>mdns_task\<close> of \<open>src/net_services.rs\<close> from their first line: binding the
  port, announcing, and the endless receive loop over the datagrams and receive errors of a run,
  composed of the steps of theory \<open>Net_Services\<close>.  Sockets are the network stack's: whether a bind
  attempt and the multicast join succeed and what \<open>recv_from\<close> returns are arguments.
\<close>

section \<open>Model\<close>

text \<open>What \<open>recv_from\<close> returned, and what a task does: a datagram it sends or a line it logs.\<close>

datatype recv = Got bytes | Recv_error

datatype line =
    Bind_failed | Listening | Recv_failed | Hijacking | Join_failed | Our_names
  | Dns_query string bytes u8 | Mdns_query string bytes

datatype net_out = Out dest bytes | Line line

fun sent :: "net_out list \<Rightarrow> (dest \<times> bytes) list" where
  "sent [] = []"
| "sent (Out to d # os) = (to, d) # sent os"
| "sent (Line l # os) = sent os"

text \<open>\<open>bind_retry\<close>: a line for every attempt that failed.  \<open>None\<close>: no attempt ever succeeds.\<close>

definition listen :: "(nat \<Rightarrow> bool) \<Rightarrow> net_out list option" where
  "listen binds = map_option (\<lambda>k. map Line (replicate k Bind_failed @ [Listening])) (bind_retry binds 0)"

text \<open>
  The loops.  A send's result changes nothing but whether \<open>dhcp_task\<close> logs its line, which is left
  out.
\<close>

fun dhcp_loop :: "recv list \<Rightarrow> dhcp \<Rightarrow> net_out list rs" where
  "dhcp_loop [] st = ret []"
| "dhcp_loop (Recv_error # es) st = map_option ((#) (Line Recv_failed)) (dhcp_loop es st)"
| "dhcp_loop (Got d # es) st = do {
     (st, out) \<leftarrow> dhcp_step d st;
     rest \<leftarrow> dhcp_loop es st;
     ret (map (\<lambda>(to, p). Out to p) out @ rest)
   }"

fun dns_loop :: "recv list \<Rightarrow> bytes \<Rightarrow> net_out list rs" where
  "dns_loop [] pkt = ret []"
| "dns_loop (Recv_error # es) pkt = map_option ((#) (Line Recv_failed)) (dns_loop es pkt)"
| "dns_loop (Got d # es) pkt = do {
     (pkt, out, logs) \<leftarrow> dns_step d pkt;
     rest \<leftarrow> dns_loop es pkt;
     ret (map (\<lambda>(t, nm, an). Line (Dns_query t nm an)) logs @ map (\<lambda>(to, p). Out to p) out @ rest)
   }"

fun mdns_loop :: "recv list \<Rightarrow> bytes \<Rightarrow> net_out list rs" where
  "mdns_loop [] pkt = ret []"
| "mdns_loop (Recv_error # es) pkt = map_option ((#) (Line Recv_failed)) (mdns_loop es pkt)"
| "mdns_loop (Got d # es) pkt = do {
     (pkt, out, logs) \<leftarrow> mdns_step d pkt;
     rest \<leftarrow> mdns_loop es pkt;
     ret (map (\<lambda>(t, nm). Line (Mdns_query t nm)) logs @ map (\<lambda>(to, p). Out to p) out @ rest)
   }"

definition dhcp_task :: "(nat \<Rightarrow> bool) \<Rightarrow> recv list \<Rightarrow> net_out list rs option" where
  "dhcp_task binds es = map_option (\<lambda>start. map_option ((@) start) (dhcp_loop es init_dhcp)) (listen binds)"

definition dns_task :: "(nat \<Rightarrow> bool) \<Rightarrow> recv list \<Rightarrow> net_out list rs option" where
  "dns_task binds es = map_option (\<lambda>start.
     map_option (\<lambda>rest. start @ Line Hijacking # rest) (dns_loop es (replicate 512 0))) (listen binds)"

definition mdns_task :: "bool \<Rightarrow> (nat \<Rightarrow> bool) \<Rightarrow> recv list \<Rightarrow> net_out list rs option" where
  "mdns_task joined binds es = map_option (\<lambda>start. do {
     ann \<leftarrow> mdns_announce;
     rest \<leftarrow> mdns_loop es (replicate 512 0);
     ret ((if joined then [] else [Line Join_failed]) @ start @ Line Our_names #
       map (\<lambda>(to, p). Out to p) ann @ rest)
   }) (listen binds)"

section \<open>The loops answer datagram by datagram\<close>

lemma sends_append [simp]: "sent (as @ bs) = sent as @ sent bs"
  by (induction as rule: sent.induct) auto

lemma sends_outs [simp]: "sent (map (\<lambda>(to, p). Out to p) ps) = ps"
  by (induction ps) auto

lemma sends_lines [simp]:
  "sent (map (\<lambda>(t, nm, an). Line (Dns_query t nm an)) ls) = []"
  "sent (map (\<lambda>(t, nm). Line (Mdns_query t nm)) ls') = []"
  "sent (map Line ls'') = []"
  by (induction ls, auto, induction ls', auto, induction ls'', auto)

lemma sends_replicate [simp]:
  "sent (replicate n (Line l)) = []" "sent (replicate n (Out to p)) = replicate n (to, p)"
  by (induction n) auto

definition datagrams :: "recv list \<Rightarrow> bytes list" where
  "datagrams es = List.map_filter (\<lambda>e. case e of Got d \<Rightarrow> Some d | Recv_error \<Rightarrow> None) es"

lemma datagrams_simps [simp]:
  "datagrams [] = []" "datagrams (Got d # es) = d # datagrams es" "datagrams (Recv_error # es) = datagrams es"
  by (simp_all add: datagrams_def map_filter_simps)

text \<open>The answer to one DNS datagram.\<close>

definition dns_answer :: "bytes \<Rightarrow> (dest \<times> bytes) list" where
  "dns_answer d = (case build_dns_reply d (length d) (replicate 512 0) of
     Some (Some len, out) \<Rightarrow> [(Sender, take len out)] | _ \<Rightarrow> [])"

lemma dns_loop_sends:
  "\<exists>outs. dns_loop es pkt = ret outs \<and> sent outs = concat (map dns_answer (datagrams es))"
proof (induction es arbitrary: pkt)
  case (Cons e es)
  show ?case
  proof (cases e)
    case (Got d)
    obtain pkt' logs where "dns_step d pkt = ret (pkt', dns_answer d, logs)"
      using dns_step_sends [of d pkt] by (auto simp: dns_answer_def)
    with Cons [of pkt'] Got show ?thesis by auto
  next
    case Recv_error
    with Cons [of pkt] show ?thesis by auto
  qed
qed simp

lemma dhcp_loop_sends:
  "dhcp_ok st \<Longrightarrow> \<exists>outs st' ps. dhcp_loop es st = ret outs \<and> dhcp_run (datagrams es) st = ret (st', ps) \<and>
     sent outs = ps"
proof (induction es arbitrary: st)
  case (Cons e es)
  show ?case
  proof (cases e)
    case (Got d)
    obtain st1 ps where 1: "dhcp_step d st = ret (st1, ps)" "dhcp_ok st1"
      using dhcp_step_pool [OF Cons.prems] by blast
    from Cons.IH [OF 1(2)] 1(1) Got show ?thesis by auto
  next
    case Recv_error
    with Cons.IH [OF Cons.prems] show ?thesis by auto
  qed
qed simp

text \<open>mDNS sends its two records and nothing else.\<close>

definition mdns_records :: "bytes set" where
  "mdns_records = {mdns_header @ long_name @ mdns_record, mdns_header @ short_name @ mdns_record}"

lemma mdns_step_sends:
  "\<exists>pkt' out logs. mdns_step d pkt = ret (pkt', out, logs) \<and>
     (out = [] \<or> (\<exists>r\<in>mdns_records. out = [(Sender, r), (Mdns_group, r)]))"
proof -
  obtain pkt' out logs where s: "mdns_step d pkt = ret (pkt', out, logs)" using mdns_task_total by blast
  let ?p = "recv_into pkt d"
  obtain short where "qname_matches ?p 12 SHORT_NAME = ret short" using qname_matches_total by blast
  note a = mdns_answer_eq [OF this]
  have "out = [] \<or> (\<exists>t logs'. mdns_answer ?p t = ret (out, logs'))"
    using s by (auto simp: mdns_step_def Let_def split: if_splits option.splits Option.bind_splits)
  then show ?thesis
  proof
    assume "\<exists>t logs'. mdns_answer ?p t = ret (out, logs')"
    then obtain t logs' where "mdns_answer ?p t = ret (out, logs')" by blast
    with a [of t] have "\<exists>r\<in>mdns_records. out = [(Sender, r), (Mdns_group, r)]"
      by (auto simp: mdns_records_def Let_def split: if_splits)
    with s show ?thesis by blast
  qed (use s in blast)
qed

lemma mdns_loop_sends:
  "\<exists>outs. mdns_loop es pkt = ret outs \<and> set (sent outs) \<subseteq> {Sender, Mdns_group} \<times> mdns_records"
proof (induction es arbitrary: pkt)
  case (Cons e es)
  show ?case
  proof (cases e)
    case (Got d)
    obtain pkt' out logs where 1: "mdns_step d pkt = ret (pkt', out, logs)"
      "set out \<subseteq> {Sender, Mdns_group} \<times> mdns_records"
      using mdns_step_sends [of d pkt] by force
    with Cons [of pkt'] Got show ?thesis by auto
  next
    case Recv_error
    with Cons [of pkt] show ?thesis by auto
  qed
qed simp

lemma mdns_announce_eq:
  "mdns_announce = ret (replicate 3 (Mdns_group, mdns_header @ long_name @ mdns_record))"
proof -
  let ?r = "mdns_header @ long_name @ mdns_record"
  have l: "length long_name = 18" "length mdns_header = 12" "length mdns_record = 14"
    by (simp_all add: long_name_def ascii_def mdns_header_def mdns_record_def SERVER_IP_def)
  then have "write_mdns_a (replicate 64 0) long_name = ret (Some 44, ?r @ drop 44 (replicate 64 0))"
    using write_mdns_a_eq [of long_name "replicate 64 0"] by simp
  moreover have "slice_of (?r @ drop 44 (replicate 64 0)) 0 44 = ret ?r"
    using l by (simp add: slice_of_ok)
  ultimately show ?thesis unfolding mdns_announce_def
    by (simp only: bind.bind_lunit case_prod_conv option.case)
qed

lemma listen_first:
  assumes "binds k"
  shows "listen binds = Some (map Line (replicate (LEAST k. binds k) Bind_failed @ [Listening]))"
  using assms by (auto simp: listen_def bind_retry_eq)

lemma listen_never: "\<not> (\<exists>k. binds k) \<Longrightarrow> listen binds = None"
  by (simp add: listen_def bind_retry_eq)

section \<open>Properties\<close>

text \<open>C31: the three UDP services: if the port can ever be bound they start, otherwise they retry for
  ever and send nothing; and once started no datagrams and receive errors make any of them panic.
  The DHCP server sends what its steps on the datagrams alone send, whatever errors come in between;
  the DNS server answers every datagram as it would answer it alone; the mDNS responder announces
  itself three times, also when joining the group failed, and never sends anything but its own two
  records.\<close>

theorem udp_services_run:
  "if \<exists>k. binds k
   then \<exists>dhcp dns mdns st ann. dhcp_task binds es = Some (ret dhcp) \<and> dns_task binds es = Some (ret dns) \<and>
     mdns_task joined binds es = Some (ret mdns) \<and>
     dhcp_run (datagrams es) init_dhcp = ret (st, sent dhcp) \<and>
     sent dns = concat (map dns_answer (datagrams es)) \<and>
     sent mdns = replicate 3 (Mdns_group, mdns_header @ long_name @ mdns_record) @ ann \<and>
     set ann \<subseteq> {Sender, Mdns_group} \<times> mdns_records
   else dhcp_task binds es = None \<and> dns_task binds es = None \<and> mdns_task joined binds es = None"
proof (cases "\<exists>k. binds k")
  case True
  then obtain k where k: "binds k" by blast
  obtain o1 st ps where 1: "dhcp_loop es init_dhcp = ret o1" "dhcp_run (datagrams es) init_dhcp = ret (st, ps)"
    "sent o1 = ps" using dhcp_loop_sends [OF dhcp_ok_init] by blast
  obtain o2 where 2: "dns_loop es (replicate 512 0) = ret o2" "sent o2 = concat (map dns_answer (datagrams es))"
    using dns_loop_sends by blast
  obtain o3 where 3: "mdns_loop es (replicate 512 0) = ret o3"
    "set (sent o3) \<subseteq> {Sender, Mdns_group} \<times> mdns_records" using mdns_loop_sends by blast
  note l = listen_first [of binds k, OF k]
  from 1 2 3 True show ?thesis
    by (auto simp: dhcp_task_def dns_task_def mdns_task_def l mdns_announce_eq intro!: exI [of _ "sent o3"])
next
  case False
  note n = listen_never [of binds, OF False]
  from False show ?thesis by (simp add: dhcp_task_def dns_task_def mdns_task_def n)
qed

theorem udp_services_run_witness:
  "\<exists>dhcp dns mdns r ann. let es = [Recv_error, Got (client_msg MAC_A 1 [])] in
     dhcp_task (\<lambda>k. k = 2) es = Some (ret dhcp) \<and> dns_task (\<lambda>k. k = 2) es = Some (ret dns) \<and>
     mdns_task False (\<lambda>k. k = 2) es = Some (ret mdns) \<and> sent dhcp = [(Broadcast_68, r)] \<and>
     dhcp_msg_type r = ret (Some DHCP_OFFER) \<and>
     sent mdns = replicate 3 (Mdns_group, mdns_header @ long_name @ mdns_record) @ ann"
proof -
  let ?d = "client_msg MAC_A 1 []" and ?binds = "\<lambda>k. k = (2 :: nat)"
  obtain i p where a: "alloc_slot (pool init_dhcp) MAC_A = (i, p)" by (rule prod.exhaust)
  have "asker ?d = Some MAC_A" "dhcp_msg_type ?d = ret (Some 1)" by (simp_all add: client_msg_fields)
  from dhcp_step_served [OF dhcp_ok_init this a] obtain st r where
    r: "dhcp_step ?d init_dhcp = ret (st, [(Broadcast_68, r)])" "dhcp_msg_type r = ret (Some DHCP_OFFER)"
    by (auto simp: reply_kind_def DHCP_DISCOVER_def is_reply_def)
  have "\<exists>k. ?binds k" by simp
  with udp_services_run [of ?binds "[Recv_error, Got ?d]" False] r show ?thesis
    unfolding Let_def by (simp del: replicate.simps) metis
qed

text \<open>
  What mDNS answers can depend on an earlier datagram: \<open>skip_name\<close>, the name comparison and the log
  line get the whole 512-byte buffer, not the \<open>n\<close> bytes received.  Here an 18-byte query whose name is
  a pointer to offset 40 is ignored on a fresh buffer, and answered when an earlier datagram left the
  bytes of \<open>sb.local\<close> there.
\<close>

definition pointing_query :: bytes where
  "pointing_query = replicate 12 0 @ [0xC0, 40, 0, 1, 0, 1]"

lemma mdns_reads_stale_bytes:
  "(\<exists>p l. mdns_step pointing_query (replicate 512 0) = ret (p, [], l)) \<and>
   (\<exists>p l r. mdns_step pointing_query (replicate 40 0 @ short_name @ replicate 462 0) =
     ret (p, [(Sender, r), (Mdns_group, r)], l))"
proof -
  have "map_option (fst \<circ> snd) (mdns_step pointing_query (replicate 512 0)) = ret []"
    by code_simp
  moreover have "map_option (map fst \<circ> fst \<circ> snd) (mdns_step pointing_query
      (replicate 40 0 @ short_name @ replicate 462 0)) = ret [Sender, Mdns_group]"
    by code_simp
  ultimately show ?thesis
    using mdns_step_sends [of pointing_query "replicate 40 0 @ short_name @ replicate 462 0"]
    by auto
qed

end
