(* ===== verification/Ota.thy ===== *)
theory Ota
  imports Prelude
begin

text \<open>
  The HTTP firmware update of \<open>src/ota.rs\<close>.  The request body's reader and the firmware
  updater of \<open>embassy-boot\<close> are not part of the repository: they are the parameters \<open>rd\<close>
  (of a reader state and a buffer length, giving \<open>Err\<close> as \<open>None\<close>), \<open>wr\<close> and \<open>mk\<close> (of the
  flash state, giving whether they succeeded).  The model records what it does to the
  watchdog and the updater as a list of events.  The last section puts requests beside the loop
  of \<open>main\<close> that resets the chip.
\<close>

section \<open>Model\<close>

definition ACTIVE_CAPACITY :: nat where "ACTIVE_CAPACITY = 896 * 1024"

datatype ota_error = Bad_request | Too_large | Truncated | Flash_error | Io_error

datatype ota_event = Feed | Write_firmware nat bytes | Mark_updated

text \<open>
  \<open>read_exact_or_eof\<close>: \<open>acc\<close> is the filled part of the buffer of \<open>want\<close> bytes.
\<close>

function read_exact_or_eof ::
    "('r \<Rightarrow> nat \<Rightarrow> bytes option \<times> 'r) \<Rightarrow> nat \<Rightarrow> bytes \<Rightarrow> 'r \<Rightarrow> bytes option \<times> 'r" where
  "read_exact_or_eof rd want acc r =
     (if length acc < want then
        (case rd r (want - length acc) of
           (None, r) \<Rightarrow> (None, r)
         | (Some bs, r) \<Rightarrow>
             if bs = [] then (Some acc, r) else read_exact_or_eof rd want (acc @ bs) r)
      else (Some acc, r))"
  by pat_completeness auto
termination
  by (relation "measure (\<lambda>(rd, want, acc, r). want - length acc)") (auto simp: neq_Nil_conv)

declare read_exact_or_eof.simps [simp del]

text \<open>The upload loop from \<open>offset\<close> on; \<open>chunk_size\<close> is \<open>ERASE_SIZE\<close> of the flash driver.\<close>

function ota_loop ::
    "('r \<Rightarrow> nat \<Rightarrow> bytes option \<times> 'r) \<Rightarrow> ('f \<Rightarrow> nat \<Rightarrow> bytes \<Rightarrow> bool \<times> 'f) \<Rightarrow> ('f \<Rightarrow> bool \<times> 'f) \<Rightarrow>
     nat \<Rightarrow> nat \<Rightarrow> nat \<Rightarrow> 'r \<Rightarrow> 'f \<Rightarrow> (ota_error + unit) \<times> 'r \<times> 'f \<times> ota_event list" where
  "ota_loop rd wr mk chunk_size content_len offset r f =
     (if offset < content_len then
        (let want = min chunk_size (content_len - offset) in
         case read_exact_or_eof rd want [] r of
           (None, r) \<Rightarrow> (Inl Io_error, r, f, [])
         | (Some bs, r) \<Rightarrow>
             if bs = [] then (Inl Truncated, r, f, [])
             else (case wr f offset bs of
                 (False, f) \<Rightarrow> (Inl Flash_error, r, f, [Feed, Write_firmware offset bs])
               | (True, f) \<Rightarrow>
                   (case ota_loop rd wr mk chunk_size content_len (offset + length bs) r f of
                      (res, r, f, es) \<Rightarrow> (res, r, f, Feed # Write_firmware offset bs # es))))
      else if offset \<noteq> content_len then (Inl Truncated, r, f, [])
      else (case mk f of
          (False, f) \<Rightarrow> (Inl Flash_error, r, f, [Feed, Mark_updated])
        | (True, f) \<Rightarrow> (Inr (), r, f, [Feed, Mark_updated])))"
  by pat_completeness auto
termination
  by (relation "measure (\<lambda>(rd, wr, mk, chunk_size, content_len, offset, r, f). content_len - offset)")
    (auto simp: neq_Nil_conv)

declare ota_loop.simps [simp del]

definition run_ota ::
    "('r \<Rightarrow> nat \<Rightarrow> bytes option \<times> 'r) \<Rightarrow> ('f \<Rightarrow> nat \<Rightarrow> bytes \<Rightarrow> bool \<times> 'f) \<Rightarrow> ('f \<Rightarrow> bool \<times> 'f) \<Rightarrow>
     nat \<Rightarrow> nat \<Rightarrow> 'r \<Rightarrow> 'f \<Rightarrow> (ota_error + unit) \<times> 'r \<times> 'f \<times> ota_event list" where
  "run_ota rd wr mk chunk_size content_len r f =
     (if content_len = 0 then (Inl Bad_request, r, f, [])
      else if content_len > ACTIVE_CAPACITY then (Inl Too_large, r, f, [])
      else ota_loop rd wr mk chunk_size content_len 0 r f)"

text \<open>The request handler around it: \<open>OTA_BUSY\<close>, \<open>OTA_RESET\<close> and the reply.\<close>

record ota_flags =
  ota_busy :: bool
  ota_reset :: bool

definition init_flags :: ota_flags where
  "init_flags = \<lparr>ota_busy = False, ota_reset = False\<rparr>"

text \<open>\<open>compare_exchange(false, true)\<close>: whether the upload may start.\<close>

definition ota_begin :: "ota_flags \<Rightarrow> bool \<times> ota_flags" where
  "ota_begin fl = (if ota_busy fl then (False, fl) else (True, fl\<lparr>ota_busy := True\<rparr>))"

text \<open>The reply and its rendering as status code and text.\<close>

datatype ota_reply = Reply_ok | Reply_busy | Reply_bad_request string | Reply_too_large | Reply_failed string

definition line_text :: "string \<Rightarrow> string" where
  "line_text s = s @ [CHR 0x0A]"

fun ota_response :: "ota_reply \<Rightarrow> nat \<times> string" where
  "ota_response Reply_ok = (200, line_text ''OK'')"
| "ota_response Reply_busy = (503, line_text ''OTA in progress'')"
| "ota_response (Reply_bad_request m) = (400, m)"
| "ota_response Reply_too_large = (413, line_text ''image too large for ACTIVE'')"
| "ota_response (Reply_failed m) = (500, m)"

definition ota_end :: "ota_error + unit \<Rightarrow> ota_flags \<Rightarrow> ota_reply \<times> ota_flags" where
  "ota_end result fl =
     (let fl = fl\<lparr>ota_busy := False\<rparr> in
      case result of
        Inr _ \<Rightarrow> (Reply_ok, fl\<lparr>ota_reset := True\<rparr>)
      | Inl Bad_request \<Rightarrow> (Reply_bad_request (line_text ''empty body; set Content-Length''), fl)
      | Inl Too_large \<Rightarrow> (Reply_too_large, fl)
      | Inl Truncated \<Rightarrow> (Reply_bad_request (line_text ''truncated upload''), fl)
      | Inl Flash_error \<Rightarrow> (Reply_failed (line_text ''flash write failed''), fl)
      | Inl Io_error \<Rightarrow> (Reply_failed (line_text ''read failed''), fl))"

text \<open>The whole handler, when no other request interferes.\<close>

definition ota_handle ::
    "('r \<Rightarrow> nat \<Rightarrow> bytes option \<times> 'r) \<Rightarrow> ('f \<Rightarrow> nat \<Rightarrow> bytes \<Rightarrow> bool \<times> 'f) \<Rightarrow> ('f \<Rightarrow> bool \<times> 'f) \<Rightarrow>
     nat \<Rightarrow> nat \<Rightarrow> 'r \<Rightarrow> 'f \<Rightarrow> ota_flags \<Rightarrow> (nat \<times> string) \<times> ota_flags \<times> 'r \<times> 'f \<times> ota_event list" where
  "ota_handle rd wr mk chunk_size content_len r f fl =
     (case ota_begin fl of
        (False, fl) \<Rightarrow> (ota_response Reply_busy, fl, r, f, [])
      | (True, fl) \<Rightarrow>
          (case run_ota rd wr mk chunk_size content_len r f of
             (result, r, f, es) \<Rightarrow>
               (case ota_end result fl of (reply, fl) \<Rightarrow> (ota_response reply, fl, r, f, es))))"

section \<open>Traces\<close>

text \<open>What the updater was told to write, and whether the writes are contiguous from an offset.\<close>

fun image :: "ota_event list \<Rightarrow> bytes" where
  "image [] = []"
| "image (Write_firmware k bs # es) = bs @ image es"
| "image (e # es) = image es"

fun contiguous :: "nat \<Rightarrow> ota_event list \<Rightarrow> bool" where
  "contiguous k [] \<longleftrightarrow> True"
| "contiguous k (Write_firmware i bs # es) \<longleftrightarrow> i = k \<and> contiguous (k + length bs) es"
| "contiguous k (e # es) \<longleftrightarrow> contiguous k es"

text \<open>Every flash operation directly after a watchdog feed.\<close>

fun fed :: "ota_event list \<Rightarrow> bool" where
  "fed [] \<longleftrightarrow> True"
| "fed (Feed # Feed # es) \<longleftrightarrow> fed (Feed # es)"
| "fed (Feed # e # es) \<longleftrightarrow> fed es"
| "fed [Feed] \<longleftrightarrow> True"
| "fed (e # es) \<longleftrightarrow> False"

text \<open>What every trace of the loop satisfies, whatever the result.\<close>

definition trace_ok :: "nat \<Rightarrow> nat \<Rightarrow> ota_error + unit \<Rightarrow> ota_event list \<Rightarrow> bool" where
  "trace_ok content_len k res es \<longleftrightarrow> contiguous k es \<and> fed es \<and>
     (Mark_updated \<in> set es \<longrightarrow> k + length (image es) = content_len \<and> last es = Mark_updated) \<and>
     (res = Inr () \<longrightarrow> Mark_updated \<in> set es) \<and>
     (Mark_updated \<in> set es \<longrightarrow> res = Inr () \<or> res = Inl Flash_error)"

lemma trace_ok_write:
  "trace_ok n (k + length bs) res es \<Longrightarrow> trace_ok n k res (Feed # Write_firmware k bs # es)"
  by (auto simp: trace_ok_def)

lemma ota_loop_trace:
  "ota_loop rd wr mk chunk_size content_len offset r f = (res, r', f', es) \<Longrightarrow>
   trace_ok content_len offset res es"
proof (induction offset arbitrary: r f res r' f' es
    rule: measure_induct_rule [where f = "\<lambda>offset. content_len - offset"])
  case (less offset)
  show ?case
  proof (cases "offset < content_len")
    case False
    with less.prems show ?thesis
      by (subst (asm) ota_loop.simps) (auto simp: trace_ok_def split: prod.splits bool.splits if_splits)
  next
    case True
    let ?want = "min chunk_size (content_len - offset)"
    obtain got r1 where rd: "read_exact_or_eof rd ?want [] r = (got, r1)" by force
    show ?thesis
    proof (cases "\<exists>bs. got = Some bs \<and> bs \<noteq> []")
      case False
      with less.prems True rd show ?thesis
        by (subst (asm) ota_loop.simps) (auto simp: trace_ok_def Let_def split: option.splits)
    next
      case some: True
      then obtain bs where bs: "got = Some bs" "bs \<noteq> []" by blast
      obtain ok f1 where wr: "wr f offset bs = (ok, f1)" by force
      show ?thesis
      proof (cases ok)
        case False
        with less.prems True rd bs wr show ?thesis
          by (subst (asm) ota_loop.simps) (auto simp: trace_ok_def Let_def)
      next
        case ok: True
        obtain es1 where es: "es = Feed # Write_firmware offset bs # es1"
          "ota_loop rd wr mk chunk_size content_len (offset + length bs) r1 f1 = (res, r', f', es1)"
          using less.prems True rd bs wr ok
          by (subst (asm) ota_loop.simps) (auto simp: Let_def split: prod.splits)
        have "content_len - (offset + length bs) < content_len - offset"
          using True bs(2) by (cases bs) auto
        from less.IH [OF this es(2)] show ?thesis unfolding es(1) by (rule trace_ok_write)
      qed
    qed
  qed
qed

section \<open>What the body's reader guarantees\<close>

text \<open>
  The contract of \<open>embedded_io::Read\<close>: a read fills at most the buffer with the next bytes of
  the body, and gives nothing into a non-empty buffer only at its end.  \<open>rest\<close> is what is left
  of the body.
\<close>

definition body_reader :: "('r \<Rightarrow> nat \<Rightarrow> bytes option \<times> 'r) \<Rightarrow> ('r \<Rightarrow> bytes) \<Rightarrow> bool" where
  "body_reader rd rest \<longleftrightarrow> (\<forall>r n bs r'. rd r n = (Some bs, r') \<longrightarrow>
     length bs \<le> n \<and> rest r = bs @ rest r' \<and> (bs = [] \<and> 0 < n \<longrightarrow> rest r = []))"

text \<open>The calls that may fail and did not: what makes an update succeed.\<close>

definition reliable ::
    "('r \<Rightarrow> nat \<Rightarrow> bytes option \<times> 'r) \<Rightarrow> ('f \<Rightarrow> nat \<Rightarrow> bytes \<Rightarrow> bool \<times> 'f) \<Rightarrow> ('f \<Rightarrow> bool \<times> 'f) \<Rightarrow> bool" where
  "reliable rd wr mk \<longleftrightarrow> (\<forall>r n. fst (rd r n) \<noteq> None) \<and> (\<forall>f k bs. fst (wr f k bs)) \<and> (\<forall>f. fst (mk f))"

lemma body_readerD:
  assumes "body_reader rd rest" "rd r n = (Some bs, r')"
  shows "length bs \<le> n" "rest r = bs @ rest r'" "bs = [] \<Longrightarrow> 0 < n \<Longrightarrow> rest r = []"
  using assms unfolding body_reader_def by blast+

lemma read_exact_body:
  assumes "body_reader rd rest"
  shows "length acc \<le> want \<Longrightarrow> read_exact_or_eof rd want acc r = (Some bs, r') \<Longrightarrow>
    \<exists>more. bs = acc @ more \<and> rest r = more @ rest r' \<and> length bs \<le> want \<and>
      (length bs < want \<longrightarrow> rest r' = [])"
proof (induction acc arbitrary: r rule: measure_induct_rule [where f = "\<lambda>acc. want - length acc"])
  case (less acc)
  show ?case
  proof (cases "length acc < want")
    case False
    with less.prems show ?thesis by (subst (asm) read_exact_or_eof.simps) auto
  next
    case True
    obtain got r1 where rd: "rd r (want - length acc) = (got, r1)" by force
    show ?thesis
    proof (cases got)
      case None
      with less.prems(2) True rd show ?thesis by (subst (asm) read_exact_or_eof.simps) simp
    next
      case (Some more)
      note b = body_readerD [OF assms rd [unfolded Some]]
      show ?thesis
      proof (cases "more = []")
        case True
        with less.prems(2) rd Some \<open>length acc < want\<close> b show ?thesis
          by (subst (asm) read_exact_or_eof.simps) auto
      next
        case False
        have "read_exact_or_eof rd want (acc @ more) r1 = (Some bs, r')"
          using less.prems(2) rd Some \<open>length acc < want\<close> False
          by (subst (asm) read_exact_or_eof.simps) simp
        moreover have "want - length (acc @ more) < want - length acc"
          using \<open>length acc < want\<close> False by (cases more) auto
        moreover have "length (acc @ more) \<le> want" using b(1) \<open>length acc < want\<close> by simp
        ultimately obtain x where "bs = (acc @ more) @ x" "rest r1 = x @ rest r'" "length bs \<le> want"
          "length bs < want \<longrightarrow> rest r' = []"
          using less.IH by blast
        with b(2) show ?thesis by auto
      qed
    qed
  qed
qed

lemma read_exact_reliable:
  assumes "\<forall>r n. fst (rd r n) \<noteq> None"
  shows "fst (read_exact_or_eof rd want acc r) \<noteq> None"
proof (induction acc arbitrary: r rule: measure_induct_rule [where f = "\<lambda>acc. want - length acc"])
  case (less acc)
  show ?case
  proof (cases "length acc < want")
    case False
    then show ?thesis by (subst read_exact_or_eof.simps) simp
  next
    case True
    obtain bs r1 where rd: "rd r (want - length acc) = (Some bs, r1)"
      using assms by (metis not_None_eq prod.collapse)
    show ?thesis
    proof (cases "bs = []")
      case False
      then have "want - length (acc @ bs) < want - length acc" using True by (cases bs) auto
      from less.IH [OF this] rd True False show ?thesis by (subst read_exact_or_eof.simps) simp
    qed (use rd True in \<open>subst read_exact_or_eof.simps, simp\<close>)
  qed
qed

text \<open>One round of the loop.\<close>

lemma ota_loop_done:
  "\<not> offset < content_len \<Longrightarrow> ota_loop rd wr mk chunk_size content_len offset r f = (res, r', f', es) \<Longrightarrow>
   image es = [] \<and> (offset = content_len \<and> fst (mk f) \<longrightarrow> res = Inr ())"
  by (subst (asm) ota_loop.simps) (auto split: prod.splits bool.splits if_splits)

lemma ota_loop_round:
  assumes "ota_loop rd wr mk chunk_size content_len offset r f = (res, r', f', es)" "offset < content_len"
    and "read_exact_or_eof rd (min chunk_size (content_len - offset)) [] r = (got, r1)"
  obtains (stop) "got = None \<or> got = Some []" "es = []"
  | (failed) bs where "got = Some bs" "\<not> fst (wr f offset bs)" "es = [Feed, Write_firmware offset bs]" "bs \<noteq> []"
  | (on) bs es1 where "got = Some bs" "bs \<noteq> []" "es = Feed # Write_firmware offset bs # es1"
      "ota_loop rd wr mk chunk_size content_len (offset + length bs) r1 (snd (wr f offset bs)) =
        (res, r', f', es1)"
  using assms
  by (subst (asm) ota_loop.simps)
    (auto simp: Let_def split: option.splits if_splits prod.splits bool.splits)

lemma ota_loop_image:
  assumes br: "body_reader rd rest"
  shows "ota_loop rd wr mk chunk_size content_len offset r f = (res, r', f', es) \<Longrightarrow>
    \<exists>more. rest r = image es @ more"
proof (induction offset arbitrary: r f es
    rule: measure_induct_rule [where f = "\<lambda>offset. content_len - offset"])
  case (less offset)
  show ?case
  proof (cases "offset < content_len")
    case False
    with ota_loop_done [OF False less.prems] show ?thesis by simp
  next
    case True
    obtain got r1 where rd: "read_exact_or_eof rd (min chunk_size (content_len - offset)) [] r = (got, r1)"
      by force
    from less.prems True rd show ?thesis
    proof (cases rule: ota_loop_round)
      case stop
      then show ?thesis by simp
    next
      case (failed bs)
      with read_exact_body [OF br, of "[]" _ r bs r1] rd show ?thesis by auto
    next
      case (on bs es1)
      have "content_len - (offset + length bs) < content_len - offset"
        using True on(2) by (cases bs) auto
      from less.IH [OF this on(4)] on(1,3) read_exact_body [OF br, of "[]" _ r bs r1] rd
      show ?thesis by auto
    qed
  qed
qed

lemma ota_loop_success:
  assumes br: "body_reader rd rest" and rel: "reliable rd wr mk" and "0 < chunk_size"
  shows "ota_loop rd wr mk chunk_size content_len offset r f = (res, r', f', es) \<Longrightarrow>
    offset \<le> content_len \<Longrightarrow> content_len - offset \<le> length (rest r) \<Longrightarrow> res = Inr ()"
proof (induction offset arbitrary: r f es
    rule: measure_induct_rule [where f = "\<lambda>offset. content_len - offset"])
  case (less offset)
  show ?case
  proof (cases "offset < content_len")
    case False
    with ota_loop_done [OF False less.prems(1)] less.prems(2) rel show ?thesis
      by (simp add: reliable_def)
  next
    case True
    let ?want = "min chunk_size (content_len - offset)"
    obtain got r1 where rd: "read_exact_or_eof rd ?want [] r = (got, r1)" by force
    with read_exact_reliable [of rd ?want "[]" r] rel obtain bs0 where got: "got = Some bs0"
      by (auto simp: reliable_def)
    with read_exact_body [OF br, of "[]" ?want r bs0 r1] rd
    have b: "rest r = bs0 @ rest r1" "length bs0 \<le> ?want" "length bs0 < ?want \<longrightarrow> rest r1 = []" by auto
    have "0 < ?want" using True \<open>0 < chunk_size\<close> by simp
    with b less.prems(3) True have ne: "bs0 \<noteq> []" by auto
    from less.prems(1) True rd show ?thesis
    proof (cases rule: ota_loop_round)
      case stop
      with got ne show ?thesis by simp
    next
      case (failed bs)
      with rel show ?thesis by (simp add: reliable_def)
    next
      case (on bs es1)
      with got have "bs = bs0" by simp
      have "content_len - (offset + length bs) < content_len - offset"
        using True on(2) by (cases bs) auto
      moreover have "length bs \<le> content_len - offset" using b(2) \<open>bs = bs0\<close> by simp
      with True have "offset + length bs \<le> content_len" by linarith
      moreover have "content_len - (offset + length bs) \<le> length (rest r1)"
        using b(1) less.prems(3) \<open>bs = bs0\<close> by simp
      ultimately show ?thesis using less.IH [OF _ on(4)] by blast
    qed
  qed
qed

section \<open>Properties\<close>

text \<open>C10: the image is only marked for the swap when all of it was written: in every upload,
  whatever the reader and the flash do, the writes are contiguous from 0, each after a watchdog
  feed, and the mark, if there is one, comes last and after exactly Content-Length bytes.\<close>

theorem ota_mark_only_complete:
  "case run_ota rd wr mk chunk_size content_len r f of (res, r', f', es) \<Rightarrow>
     contiguous 0 es \<and> fed es \<and>
     (if Mark_updated \<in> set es
      then length (image es) = content_len \<and> last es = Mark_updated \<and>
        0 < content_len \<and> content_len \<le> ACTIVE_CAPACITY \<and> res \<in> {Inr (), Inl Flash_error}
      else res \<noteq> Inr ())"
proof -
  obtain res r' f' es where e: "run_ota rd wr mk chunk_size content_len r f = (res, r', f', es)"
    by (metis prod_cases4)
  show ?thesis
  proof (cases "0 < content_len \<and> content_len \<le> ACTIVE_CAPACITY")
    case True
    with e have "trace_ok content_len 0 res es"
      by (auto simp: run_ota_def intro: ota_loop_trace)
    with e True show ?thesis by (auto simp: trace_ok_def)
  next
    case False
    with e show ?thesis by (auto simp: run_ota_def split: if_splits)
  qed
qed

text \<open>C26: a successful upload wrote the body: with a reader that keeps its contract, the bytes
  written are the first Content-Length bytes of the body.\<close>

theorem ota_image_is_body:
  assumes "body_reader rd rest" "run_ota rd wr mk chunk_size content_len r f = (Inr (), r', f', es)"
  shows "image es = take content_len (rest r) \<and> content_len \<le> length (rest r)"
proof -
  have loop: "ota_loop rd wr mk chunk_size content_len 0 r f = (Inr (), r', f', es)"
    using assms(2) by (auto simp: run_ota_def split: if_splits)
  from ota_loop_trace [OF loop] have "length (image es) = content_len" by (simp add: trace_ok_def)
  with ota_loop_image [OF assms(1) loop] show ?thesis by auto
qed

text \<open>C27: and a whole body of acceptable size does get there: if no read, write or mark fails, the
  upload succeeds.\<close>

theorem ota_succeeds:
  assumes "body_reader rd rest" "reliable rd wr mk" "0 < chunk_size"
    and "0 < content_len" "content_len \<le> ACTIVE_CAPACITY" "content_len \<le> length (rest r)"
  shows "\<exists>r' f' es. run_ota rd wr mk chunk_size content_len r f = (Inr (), r', f', es)"
proof -
  obtain res r' f' es where e: "ota_loop rd wr mk chunk_size content_len 0 r f = (res, r', f', es)"
    by (metis prod_cases4)
  with ota_loop_success [OF assms(1-3) e] assms(4-6) show ?thesis by (simp add: run_ota_def)
qed

text \<open>A body that arrives three bytes at a time, and a flash that works.\<close>

definition three_read :: "bytes \<Rightarrow> nat \<Rightarrow> bytes option \<times> bytes" where
  "three_read r n = (Some (take (min n 3) r), drop (min n 3) r)"

definition good_write :: "nat \<Rightarrow> nat \<Rightarrow> bytes \<Rightarrow> bool \<times> nat" where
  "good_write f k bs = (True, f + length bs)"

definition good_mark :: "nat \<Rightarrow> bool \<times> nat" where
  "good_mark f = (True, f)"

lemma three_read_ok: "body_reader three_read (\<lambda>r. r)" "reliable three_read good_write good_mark"
  by (auto simp: body_reader_def reliable_def three_read_def good_write_def good_mark_def min_def)

theorem ota_succeeds_witness:
  "\<exists>r' f' es. run_ota three_read good_write good_mark 4096 10000 (replicate 10000 7) 0 = (Inr (), r', f', es)"
  using ota_succeeds [OF three_read_ok, of 4096 10000 "replicate 10000 7" 0]
  by (simp add: ACTIVE_CAPACITY_def)

theorem ota_image_is_body_witness:
  "\<exists>r' f' es. run_ota three_read good_write good_mark 4096 5 [1, 2, 3, 4, 5, 6] 0 = (Inr (), r', f', es) \<and>
     image es = [1, 2, 3, 4, 5]"
proof -
  obtain res r' f' es where
    e: "ota_loop three_read good_write good_mark 4096 5 0 [1, 2, 3, 4, 5, 6] 0 = (res, r', f', es)"
    by (metis prod_cases4)
  with ota_loop_success [OF three_read_ok _ e]
  have "run_ota three_read good_write good_mark 4096 5 [1, 2, 3, 4, 5, 6] 0 = (Inr (), r', f', es)"
    by (simp add: run_ota_def ACTIVE_CAPACITY_def)
  moreover from ota_image_is_body [OF three_read_ok(1) this] have "image es = [1, 2, 3, 4, 5]"
    by (simp add: eval_nat_numeral)
  ultimately show ?thesis by blast
qed

lemma ota_loop_not_early:
  "ota_loop rd wr mk chunk_size content_len k r f = (res, r', f', es) \<Longrightarrow> res \<notin> {Inl Bad_request, Inl Too_large}"
proof (induction "content_len - k" arbitrary: k r f es rule: less_induct)
  case less
  from less.prems show ?case
    by (subst (asm) ota_loop.simps)
      (auto simp: Let_def neq_Nil_conv split: if_splits prod.splits option.splits bool.splits
        dest!: less.hyps [rotated])
qed

text \<open>C12: the reply tells the truth: 503 exactly while another upload runs, and then nothing is
  touched; 413 exactly for a body larger than the partition; 200 only when all announced bytes
  were written and marked, which is also the only case that asks for the reset; and the lock is
  free again after every reply.\<close>

theorem ota_reply_honest:
  "case ota_handle rd wr mk chunk_size content_len r f fl of ((code, msg), fl', r', f', es) \<Rightarrow>
     if ota_busy fl then code = 503 \<and> fl' = fl \<and> es = []
     else code \<noteq> 503 \<and> ota_busy fl' = False \<and> ota_reset fl' = (ota_reset fl \<or> code = 200) \<and>
       (code = 413) = (ACTIVE_CAPACITY < content_len) \<and>
       (if code = 200 then Mark_updated \<in> set es \<and> contiguous 0 es \<and> length (image es) = content_len
        else if Mark_updated \<in> set es then code = 500 else True)"
proof (cases "ota_busy fl")
  case True
  then show ?thesis by (simp add: ota_handle_def ota_begin_def)
next
  case False
  obtain res r' f' es where e: "run_ota rd wr mk chunk_size content_len r f = (res, r', f', es)"
    by (metis prod_cases4)
  have t: "trace_ok content_len 0 res es" if "0 < content_len" "content_len \<le> ACTIVE_CAPACITY"
    using that e by (auto simp: run_ota_def intro: ota_loop_trace)
  have early: "(res = Inl Too_large) = (ACTIVE_CAPACITY < content_len)" "res = Inl Bad_request \<longleftrightarrow> content_len = 0"
    using e ota_loop_not_early [of rd wr mk chunk_size content_len 0 r f res r' f' es]
    by (auto simp: run_ota_def ACTIVE_CAPACITY_def split: if_splits)
  have none: "es = []" if "content_len = 0 \<or> ACTIVE_CAPACITY < content_len"
    using that e by (auto simp: run_ota_def)
  show ?thesis
    using False e early t none
    by (auto simp: ota_handle_def ota_begin_def ota_end_def Let_def trace_ok_def not_less
        split: sum.splits ota_error.splits)
qed

section \<open>One upload at a time\<close>

text \<open>
  The end of \<open>main\<close>: it polls \<open>reset_pending\<close>, gives the reply 500 ms to leave, and resets the
  chip, after which nothing of this run is left.
\<close>

datatype main_pc = Polling | Flushing | Restarted

definition reset_pending :: "ota_flags \<Rightarrow> bool" where
  [simp]: "reset_pending fl = ota_reset fl"

fun main_loop :: "ota_flags \<Rightarrow> main_pc \<Rightarrow> main_pc" where
  "main_loop fl Polling = (if reset_pending fl then Flushing else Polling)"
| "main_loop fl Flushing = Restarted"
| "main_loop fl Restarted = Restarted"

text \<open>
  Requests arriving, uploads ending and the main loop waking, in any order: the flags, the number
  of uploads under way, and where the main loop is.
\<close>

datatype ota_call = Request | Finish "ota_error + unit" | Main_wakes

fun ota_does :: "ota_call \<Rightarrow> ota_flags \<times> nat \<times> main_pc \<Rightarrow> ota_flags \<times> nat \<times> main_pc" where
  "ota_does Request (fl, n, pc) = (case ota_begin fl of (ok, fl) \<Rightarrow> (fl, if ok then n + 1 else n, pc))"
| "ota_does (Finish r) (fl, n, pc) = (if n = 0 then (fl, n, pc) else (snd (ota_end r fl), n - 1, pc))"
| "ota_does Main_wakes (fl, n, pc) = (fl, n, main_loop fl pc)"

definition ota_calls :: "ota_call list \<Rightarrow> ota_flags \<times> nat \<times> main_pc" where
  "ota_calls cs = fold (\<lambda>c x. if snd (snd x) = Restarted then x else ota_does c x) cs (init_flags, 0, Polling)"

lemma ota_busy_end [simp]: "\<not> ota_busy (snd (ota_end r fl))"
  by (auto simp: ota_end_def Let_def split: sum.split ota_error.split)

lemma ota_reset_end: "ota_reset (snd (ota_end r fl)) \<longleftrightarrow> ota_reset fl \<or> r = Inr ()"
  by (auto simp: ota_end_def Let_def split: sum.split ota_error.split)

text \<open>The lock is held by the one upload under way; a reset was asked for by a finished one.\<close>

lemma ota_calls_inv:
  "case ota_calls cs of (fl, n, pc) \<Rightarrow> ota_busy fl = (n = 1) \<and> n \<le> 1 \<and>
     (pc \<noteq> Polling \<longrightarrow> ota_reset fl) \<and> (ota_reset fl \<longrightarrow> Finish (Inr ()) \<in> set cs)"
proof (induction cs rule: rev_induct)
  case Nil
  then show ?case by (simp add: ota_calls_def init_flags_def)
next
  case (snoc c cs)
  obtain fl n pc where x: "ota_calls cs = (fl, n, pc)" by (metis prod_cases3)
  have "ota_calls (cs @ [c]) = (if pc = Restarted then (fl, n, pc) else ota_does c (fl, n, pc))"
    using x by (simp add: ota_calls_def)
  with snoc x show ?case
    by (cases c; cases pc) (auto simp: ota_begin_def ota_reset_end split: if_splits)
qed

text \<open>At most one upload is under way, however requests, ends and the main loop interleave, and a
  request is refused exactly while one is.\<close>

lemma ota_exclusive:
  "case ota_calls cs of (fl, n, pc) \<Rightarrow> n \<le> 1 \<and> (fst (ota_begin fl) \<longleftrightarrow> n = 0)"
  using ota_calls_inv [of cs] by (auto simp: ota_begin_def)

text \<open>The chip is only reset after an upload that succeeded.\<close>

lemma ota_restarts_after_success:
  "case ota_calls cs of (fl, n, pc) \<Rightarrow> pc = Polling \<or> Finish (Inr ()) \<in> set cs"
  using ota_calls_inv [of cs] by auto

text \<open>But until that reset comes the lock is free: another upload starts writing over the image
  just marked, and the reset then cuts it off.\<close>

lemma ota_restarts_before_reset:
  "ota_calls [Request, Finish (Inr ()), Main_wakes, Request, Main_wakes] =
     (\<lparr>ota_busy = True, ota_reset = True\<rparr>, 1, Restarted)"
  by (simp add: ota_calls_def ota_begin_def ota_end_def init_flags_def)

end
