(* ===== verification/Boot_Cmd.thy ===== *)
theory Boot_Cmd
  imports Prelude "HOL-Library.Sublist"
begin

text \<open>
  The byte matcher behind the USB console (\<open>BootCmd::handle_data\<close> of \<open>src/main.rs\<close>), which
  reboots into the boot ROM when it sees \<open>ENTERBOOTLOADER\<close>, against its specification: where in the
  stream of USB bytes the command occurs.  And the bootloader's watchdog register write.
\<close>

unbundle bit_operations_syntax

section \<open>Model\<close>

definition CMD :: bytes where "CMD = ascii ''ENTERBOOTLOADER''"

text \<open>One byte: the new match count, and whether the command is complete.\<close>

definition boot_byte :: "nat \<Rightarrow> u8 \<Rightarrow> (nat \<times> bool) rs" where
  "boot_byte n b =
     (if n < length CMD then do {
        x \<leftarrow> idx CMD n;
        if b = x then
          (if n + 1 = length CMD then ret (0, True) else ret (n + 1, False))
        else do {
          e \<leftarrow> idx CMD 0;
          ret (if b = e then 1 else 0, False)
        }
      } else do {
        e \<leftarrow> idx CMD 0;
        ret (if b = e then 1 else 0, False)
      })"

text \<open>One call: a hit ends the loop, the rest of the data is not looked at.\<close>

fun handle_data :: "nat \<Rightarrow> bytes \<Rightarrow> (nat \<times> bool) rs" where
  "handle_data n [] = ret (n, False)"
| "handle_data n (b # bs) = do {
     (n, hit) \<leftarrow> boot_byte n b;
     if hit then ret (n, True) else handle_data n bs
   }"

text \<open>
  The stream comes in USB transfers, and \<open>MATCH\<close> keeps the count between them.  A hit resets the
  chip, so what follows it is not seen.
\<close>

fun boot_transfers :: "nat \<Rightarrow> bytes list \<Rightarrow> (nat \<times> bool) rs" where
  "boot_transfers n [] = ret (n, False)"
| "boot_transfers n (d # ds) = do {
     (n, hit) \<leftarrow> handle_data n d;
     if hit then ret (n, True) else boot_transfers n ds
   }"

section \<open>The matcher as an automaton\<close>

lemma length_CMD: "length CMD = 15"
  by (simp add: CMD_def ascii_def)

definition next_state :: "nat \<Rightarrow> u8 \<Rightarrow> nat" where
  "next_state n b = (if b = CMD ! n then n + 1 else if b = 69 then 1 else 0)"

lemma CMD_0: "CMD ! 0 = 69"
  by (simp add: CMD_def ascii_def)

lemma boot_byte_eq:
  "n < 15 \<Longrightarrow> boot_byte n b =
    ret (if next_state n b = 15 then (0, True) else (next_state n b, False))"
  by (auto simp: boot_byte_def next_state_def idx_ok length_CMD CMD_0)

lemma CMD_bytes: "CMD = [69, 78, 84, 69, 82, 66, 79, 79, 84, 76, 79, 65, 68, 69, 82]"
  by (simp add: CMD_def ascii_def)

lemma less_15: "i < 15 \<longleftrightarrow> i \<in> {0, 1, 2, 3, 4, 5, 6, 7, 8, 9, 10, 11, 12, 13, 14}" for i :: nat
  unfolding insert_iff empty_iff by presburger

lemma CMD_E: "i < 15 \<Longrightarrow> CMD ! i = 69 \<longleftrightarrow> i = 0 \<or> i = 3 \<or> i = 13"
  unfolding less_15 by (auto simp: CMD_bytes)

section \<open>Runs\<close>

lemma next_state_le: "n < 15 \<Longrightarrow> next_state n b \<le> 15"
  by (auto simp: next_state_def)

lemma take_CMD: "take 15 CMD = CMD"
  by (simp add: length_CMD)

lemma handle_data_Cons:
  "n < 15 \<Longrightarrow> handle_data n (b # bs) =
    (if next_state n b = 15 then ret (0, True) else handle_data (next_state n b) bs)"
  by (simp add: boot_byte_eq)

lemma handle_data_total: "n < 15 \<Longrightarrow> \<exists>n' hit. handle_data n bs = ret (n', hit) \<and> n' < 15"
proof (induction bs arbitrary: n)
  case (Cons b bs)
  with next_state_le [of n b] show ?case
    by (cases "next_state n b = 15") (auto simp: handle_data_Cons simp del: handle_data.simps)
next
  case Nil
  then show ?case by (auto intro: exI [of _ False])
qed

definition run_state :: "nat \<Rightarrow> bytes \<Rightarrow> nat" where
  "run_state n h = foldl next_state n h"

lemma run_state_simps [simp]:
  "run_state n [] = n" "run_state n (b # bs) = run_state (next_state n b) bs"
  "run_state n (h @ [b]) = next_state (run_state n h) b"
  by (simp_all add: run_state_def)

lemma handle_data_hits:
  "n < 15 \<Longrightarrow> \<exists>n'. handle_data n bs = ret (n', \<exists>p. prefix p bs \<and> run_state n p = 15) \<and> n' < 15"
proof (induction bs arbitrary: n)
  case (Cons b bs)
  let ?m = "next_state n b"
  have ex: "(\<exists>p. prefix p (b # bs) \<and> run_state n p = 15) \<longleftrightarrow> ?m = 15 \<or> (\<exists>p. prefix p bs \<and> run_state ?m p = 15)"
  proof
    assume "\<exists>p. prefix p (b # bs) \<and> run_state n p = 15"
    then obtain p where p: "prefix p (b # bs)" "run_state n p = 15" by blast
    with Cons.prems obtain q where "p = b # q" by (cases p) auto
    with p show "?m = 15 \<or> (\<exists>p. prefix p bs \<and> run_state ?m p = 15)" by auto
  next
    assume "?m = 15 \<or> (\<exists>p. prefix p bs \<and> run_state ?m p = 15)"
    then show "\<exists>p. prefix p (b # bs) \<and> run_state n p = 15"
    proof
      assume "?m = 15"
      then show ?thesis by (intro exI [of _ "[b]"]) simp
    next
      assume "\<exists>p. prefix p bs \<and> run_state ?m p = 15"
      then obtain p where "prefix p bs" "run_state ?m p = 15" by blast
      then show ?thesis by (intro exI [of _ "b # p"]) simp
    qed
  qed
  show ?case
  proof (cases "?m = 15")
    case True
    with Cons.prems ex show ?thesis by (simp add: handle_data_Cons del: handle_data.simps)
  next
    case False
    with next_state_le [OF Cons.prems, of b] have "?m < 15" by simp
    from Cons.IH [OF this] False Cons.prems ex show ?thesis
      by (simp add: handle_data_Cons del: handle_data.simps)
  qed
qed simp

text \<open>How the stream is cut does not matter.\<close>

lemma handle_data_append:
  "n < 15 \<Longrightarrow> handle_data n (xs @ ys) = do {
     (m, hit) \<leftarrow> handle_data n xs;
     if hit then ret (m, True) else handle_data m ys }"
proof (induction xs arbitrary: n)
  case (Cons b xs)
  show ?case
  proof (cases "next_state n b = 15")
    case False
    with next_state_le [OF Cons.prems, of b] have "next_state n b < 15" by simp
    from Cons.IH [OF this] False Cons.prems show ?thesis
      by (simp add: handle_data_Cons del: handle_data.simps)
  qed (simp add: handle_data_Cons Cons.prems del: handle_data.simps)
qed simp

lemma boot_transfers_concat: "n < 15 \<Longrightarrow> boot_transfers n ds = handle_data n (concat ds)"
proof (induction ds arbitrary: n)
  case (Cons d ds)
  obtain m hit where "handle_data n d = ret (m, hit)" "m < 15"
    using handle_data_total [OF Cons.prems] by blast
  with Cons show ?case by (simp add: handle_data_append)
qed simp

text \<open>
  Where the command is missed, without the matcher: right behind an \<open>ENT\<close> or \<open>ENTERBOOTLOAD\<close> that
  the matcher itself would not have missed as the beginning of the command.  There the first byte of
  the command continues that partial match, and the next breaks it.
\<close>

function missed :: "bytes \<Rightarrow> bool" where
  "missed pre \<longleftrightarrow>
     (if suffix (ascii ''ENT'') pre then \<not> missed (take (length pre - 3) pre)
      else if suffix (ascii ''ENTERBOOTLOAD'') pre then \<not> missed (take (length pre - 13) pre)
      else False)"
  by pat_completeness auto
termination
  by (relation "measure length") (auto simp: suffix_def ascii_def)

declare missed.simps [simp del]

lemma starts: "ascii ''ENT'' = take 3 CMD" "ascii ''ENTERBOOTLOAD'' = take 13 CMD"
  by (simp_all add: CMD_def ascii_def)

lemma missed_iff:
  "missed pre \<longleftrightarrow> (\<exists>q. pre = q @ take 3 CMD \<and> \<not> missed q) \<or> (\<exists>q. pre = q @ take 13 CMD \<and> \<not> missed q)"
proof -
  have "q @ take 3 CMD \<noteq> p @ take 13 CMD" for p q
    using arg_cong [of "q @ take 3 CMD" "p @ take 13 CMD" last] by (auto simp: CMD_bytes)
  note this [symmetric, simp] this [simp]
  show ?thesis by (subst missed.simps) (auto simp: starts suffix_def length_CMD)
qed

text \<open>The states of the matcher, in terms of where the match began.\<close>

lemma CMD_at: "k < 15 \<Longrightarrow> CMD ! k = 69 \<longleftrightarrow> k \<in> {0, 3, 13}"
  using CMD_E [of k] by auto

lemma run_state_iff:
  assumes "\<And>p. strict_prefix p h \<Longrightarrow> run_state 0 p < 15" "k < 15"
  shows "run_state 0 h = Suc k \<longleftrightarrow>
    (\<exists>q. h = q @ take (Suc k) CMD \<and> run_state 0 q \<notin> {3, 13})"
  using assms
proof (induction k arbitrary: h)
  case 0
  have t: "take (Suc 0) CMD = [69]" by (simp add: CMD_bytes)
  show ?case
  proof (cases h rule: rev_cases)
    case (snoc q b)
    have "run_state 0 q < 15" using 0(1) [of q] snoc by (simp add: strict_prefix_def)
    with snoc CMD_at [of "run_state 0 q"] show ?thesis by (auto simp: t next_state_def)
  qed (simp add: t)
next
  case (Suc k)
  have t: "take (Suc (Suc k)) CMD = take (Suc k) CMD @ [CMD ! Suc k]"
    using Suc.prems(2) by (simp add: take_Suc_conv_app_nth length_CMD)
  show ?case
  proof (cases h rule: rev_cases)
    case (snoc q b)
    have "run_state 0 p < 15" if "strict_prefix p q" for p
    proof (rule Suc.prems(1))
      have "length p < length h" using that snoc by (auto dest: prefix_length_less)
      moreover have "prefix p h" using that snoc by (simp add: strict_prefix_def)
      ultimately show "strict_prefix p h" by (auto simp: strict_prefix_def)
    qed
    from Suc.IH [OF this] Suc.prems(2) have
      "run_state 0 q = Suc k \<longleftrightarrow> (\<exists>p. q = p @ take (Suc k) CMD \<and> run_state 0 p \<notin> {3, 13})" by simp
    moreover have "run_state 0 h = Suc (Suc k) \<longleftrightarrow> run_state 0 q = Suc k \<and> b = CMD ! Suc k"
      by (auto simp: snoc next_state_def)
    ultimately show ?thesis by (auto simp: snoc t)
  qed (simp add: t)
qed

lemma missed_state:
  "(\<And>p. prefix p h \<Longrightarrow> run_state 0 p < 15) \<Longrightarrow> run_state 0 h \<in> {3, 13} \<longleftrightarrow> missed h"
proof (induction h rule: length_induct)
  case (1 h)
  have IH: "run_state 0 q \<in> {3, 13} \<longleftrightarrow> missed q" if "h = q @ take k CMD" "0 < k" for q k
  proof -
    have "length q < length h" using that by (simp add: length_CMD)
    moreover have "run_state 0 p < 15" if "prefix p q" for p
      using 1(2) [of p] that \<open>h = q @ take k CMD\<close> by (auto simp: prefix_def)
    ultimately show ?thesis using 1(1) by blast
  qed
  have st: "run_state 0 h = Suc k \<longleftrightarrow> (\<exists>q. h = q @ take (Suc k) CMD \<and> run_state 0 q \<notin> {3, 13})" if "k < 15" for k
    by (rule run_state_iff [OF _ that]) (use 1(2) in \<open>auto simp: strict_prefix_def\<close>)
  have "run_state 0 h = 3 \<longleftrightarrow> (\<exists>q. h = q @ take 3 CMD \<and> \<not> missed q)"
    using st [of 2] IH [of _ 3] by auto
  moreover have "run_state 0 h = 13 \<longleftrightarrow> (\<exists>q. h = q @ take 13 CMD \<and> \<not> missed q)"
    using st [of 12] IH [of _ 13] by auto
  ultimately show ?case by (subst missed_iff) auto
qed

lemma run_state_small:
  "(\<And>p. prefix p h \<Longrightarrow> run_state 0 p \<noteq> 15) \<Longrightarrow> run_state 0 h < 15"
proof (induction h rule: rev_induct)
  case (snoc b h)
  have "run_state 0 h < 15" using snoc.prems by (intro snoc.IH) simp
  from next_state_le [OF this, of b] snoc.prems [of "h @ [b]"] show ?case by simp
qed simp

lemma hit_iff:
  "(\<exists>p. prefix p h \<and> run_state 0 p = 15) \<longleftrightarrow> (\<exists>pre post. h = pre @ CMD @ post \<and> \<not> missed pre)"
  (is "?hit \<longleftrightarrow> ?found")
proof
  assume ?hit
  then obtain p where p: "prefix p h" "run_state 0 p = 15"
    and least: "\<And>q. length q < length p \<Longrightarrow> \<not> (prefix q h \<and> run_state 0 q = 15)"
    using ex_has_least_nat [of "\<lambda>p. prefix p h \<and> run_state 0 p = 15" _ length] by (meson leD)
  have small: "run_state 0 q < 15" if "strict_prefix q p" for q
  proof (rule run_state_small)
    fix u assume "prefix u q"
    with that have "length u < length p" "prefix u h"
      using p(1) prefix_length_le prefix_length_less by (fastforce intro: prefix_order.order_trans)+
    with least [of u] show "run_state 0 u \<noteq> 15" by blast
  qed
  then obtain pre where pre: "p = pre @ CMD" "run_state 0 pre \<notin> {3, 13}"
    using run_state_iff [of p 14] p(2) by (auto simp: take_CMD)
  have "run_state 0 q < 15" if "prefix q pre" for q
    using small [of q] that pre(1) by (auto simp: strict_prefix_def prefix_def CMD_bytes)
  with missed_state pre(2) have "\<not> missed pre" by blast
  with p(1) pre(1) show ?found by (auto simp: prefix_def)
next
  assume ?found
  then obtain pre post where h: "h = pre @ CMD @ post" "\<not> missed pre" by blast
  show ?hit
  proof (rule ccontr)
    assume none: "\<not> ?hit"
    have small: "run_state 0 q < 15" if "prefix q (pre @ CMD)" for q
    proof (rule run_state_small)
      fix u assume "prefix u q"
      then have "prefix u (pre @ CMD)" using that by (rule prefix_order.order_trans)
      then have "prefix u h" unfolding h(1) append_assoc [symmetric] by (rule prefix_prefix)
      with none show "run_state 0 u \<noteq> 15" by blast
    qed
    have "run_state 0 q < 15" if "prefix q pre" for q using that by (intro small) simp
    with missed_state h(2) have "run_state 0 pre \<notin> {3, 13}" by blast
    with run_state_iff [of "pre @ CMD" 14] small have "run_state 0 (pre @ CMD) = 15"
      by (auto simp: strict_prefix_def take_CMD)
    with small [of "pre @ CMD"] show False by simp
  qed
qed

text \<open>The stream contains the command where it is seen.\<close>

definition boots :: "bytes \<Rightarrow> bool" where
  "boots bs \<longleftrightarrow> list_ex (\<lambda>i. prefix CMD (drop i bs) \<and> \<not> missed (take i bs)) [0..<length bs]"

lemma boots_iff: "boots bs \<longleftrightarrow> (\<exists>pre post. bs = pre @ CMD @ post \<and> \<not> missed pre)"
proof
  assume "boots bs"
  then obtain i where "prefix CMD (drop i bs)" "\<not> missed (take i bs)"
    by (auto simp: boots_def list_ex_iff)
  then show "\<exists>pre post. bs = pre @ CMD @ post \<and> \<not> missed pre"
    by (metis append_take_drop_id prefix_def)
next
  assume "\<exists>pre post. bs = pre @ CMD @ post \<and> \<not> missed pre"
  then obtain pre post where "bs = pre @ CMD @ post" "\<not> missed pre" by blast
  then show "boots bs"
    unfolding boots_def list_ex_iff by (intro bexI [of _ "length pre"]) (simp_all add: CMD_bytes)
qed

text \<open>The matcher between two transfers, \<open>h\<close> the stream so far.\<close>

definition matches :: "nat \<Rightarrow> bytes \<Rightarrow> bool" where
  "matches n h \<longleftrightarrow> n < 15 \<and> \<not> boots h \<and> handle_data 0 h = ret (n, False)"

lemma handle_data_0: "\<exists>n. handle_data 0 bs = ret (n, boots bs) \<and> n < 15"
  using handle_data_hits [of 0 bs] by (auto simp: boots_iff hit_iff)

lemma matches_start: "matches 0 []"
  using handle_data_0 [of "[]"] by (auto simp: matches_def)

lemma handle_data_boots:
  assumes "matches n h"
  shows "\<exists>n'. handle_data n bs = ret (n', boots (h @ bs)) \<and> (boots (h @ bs) \<or> matches n' (h @ bs))"
proof -
  have "handle_data 0 (h @ bs) = handle_data n bs"
    using assms handle_data_append [of 0 h bs] by (simp add: matches_def)
  with handle_data_0 [of "h @ bs"] show ?thesis by (auto simp: matches_def)
qed

lemma boots_append: "boots h \<Longrightarrow> boots (h @ bs)"
  unfolding boots_iff by fastforce

section \<open>Properties\<close>

text \<open>C28: over any USB transfers the firmware reboots into the boot ROM exactly if the command occurs
  somewhere in the stream of their bytes, other than right behind an \<open>ENT\<close> or \<open>ENTERBOOTLOAD\<close> that
  is itself the beginning of a match; wherever the stream is cut.\<close>

theorem boot_command_exact:
  "\<exists>n hit. boot_transfers 0 ds = ret (n, hit) \<and> n < length CMD \<and>
     hit = (\<exists>pre post. concat ds = pre @ CMD @ post \<and> \<not> missed pre)"
  using handle_data_hits [of 0 "concat ds"]
  by (auto simp: boot_transfers_concat length_CMD hit_iff)

text \<open>In the blind spot the command is missed: three stray bytes before it are enough.\<close>

lemma boot_command_missed:
  "sublist CMD (ascii ''ENTENTERBOOTLOADER'') \<and>
   (\<exists>n. handle_data 0 (ascii ''ENTENTERBOOTLOADER'') = ret (n, False))"
proof
  show "sublist CMD (ascii ''ENTENTERBOOTLOADER'')"
    unfolding sublist_def by (intro exI [of _ "[69, 78, 84]"] exI [of _ "[]"]) (simp add: CMD_bytes ascii_def)
  show "\<exists>n. handle_data 0 (ascii ''ENTENTERBOOTLOADER'') = ret (n, False)"
    by (simp add: ascii_def handle_data_Cons next_state_def CMD_bytes del: handle_data.simps(2))
qed

section \<open>The bootloader's watchdog\<close>

text \<open>
  \<open>stop_watchdog\<close> of \<open>src/bootloader/src/main.rs\<close>: the value written back to
  \<open>WATCHDOG.CTRL\<close> for the value read.  ENABLE is bit 30.
\<close>

definition stop_watchdog :: "u32 \<Rightarrow> u32" where
  "stop_watchdog v = v AND NOT (push_bit 30 1)"

text \<open>The write clears the enable bit and leaves every other bit of the register.\<close>

lemma stop_watchdog_bits: "bit (stop_watchdog v) i \<longleftrightarrow> bit v i \<and> i \<noteq> 30"
proof (cases "i < 32")
  case True
  have "bit (push_bit 30 1 :: u32) i \<longleftrightarrow> 30 \<le> i \<and> possible_bit TYPE(u32) i \<and> bit (1 :: u32) (i - 30)"
    by (rule bit_push_bit_iff)
  then have "bit (push_bit 30 1 :: u32) i \<longleftrightarrow> i = 30"
    using True by (auto simp del: push_bit_numeral push_bit_of_1 simp: bit_1_iff)
  moreover have "bit (stop_watchdog v) i \<longleftrightarrow> bit v i \<and> \<not> bit (push_bit 30 1 :: u32) i"
    using True unfolding stop_watchdog_def by (simp only: bit_and_iff bit_not_iff_eq possible_bit_word) auto
  ultimately show ?thesis by simp
next
  case False
  then have "\<not> bit w i" for w :: u32 using bit_imp_le_length [of w i] by auto
  then show ?thesis by simp
qed

end
