(* ===== verification/Flash_Map.thy ===== *)
theory Flash_Map
  imports Ota Boot_Cmd
begin

text \<open>
  The flash as the linker scripts \<open>src/bootloader/memory.x\<close> and \<open>src/memory-app.x\<close> divide it, what
  an upload writes there, and the jump of the bootloader (\<open>src/bootloader/src/main.rs\<close>) into the
  application.  Addresses are \<open>nat\<close>: the linker computes them, and all are below \<open>2 ^ 32\<close>.
\<close>

section \<open>Model\<close>

record region =
  origin :: nat
  size :: nat

text \<open>\<open>src/bootloader/memory.x\<close>.\<close>

definition boot_boot2 :: region where "boot_boot2 = \<lparr>origin = 0x10000000, size = 0x100\<rparr>"
definition boot_flash :: region where "boot_flash = \<lparr>origin = 0x10000100, size = 32 * 1024 - 0x100\<rparr>"
definition boot_state :: region where "boot_state = \<lparr>origin = 0x10008000, size = 4 * 1024\<rparr>"
definition boot_active :: region where "boot_active = \<lparr>origin = 0x10009000, size = 896 * 1024\<rparr>"
definition boot_dfu :: region where "boot_dfu = \<lparr>origin = 0x100E9000, size = 900 * 1024\<rparr>"

text \<open>\<open>src/memory-app.x\<close>.\<close>

definition app_boot2 :: region where "app_boot2 = \<lparr>origin = 0x10000000, size = 0x100\<rparr>"
definition app_state :: region where "app_state = \<lparr>origin = 0x10008000, size = 4 * 1024\<rparr>"
definition app_flash :: region where "app_flash = \<lparr>origin = 0x10009000, size = 896 * 1024\<rparr>"
definition app_dfu :: region where "app_dfu = \<lparr>origin = 0x100E9000, size = 900 * 1024\<rparr>"

text \<open>
  The symbols \<open>__bootloader_<name>_start\<close> and \<open>_end\<close>, from which \<open>embassy-boot\<close> takes its
  partitions: offsets from \<open>BOOT2\<close>.
\<close>

definition part_start :: "region \<Rightarrow> region \<Rightarrow> nat" where
  "part_start boot2 p = origin p - origin boot2"

definition part_end :: "region \<Rightarrow> region \<Rightarrow> nat" where
  "part_end boot2 p = origin p + size p - origin boot2"

definition DFU_CAPACITY :: nat where "DFU_CAPACITY = ACTIVE_CAPACITY + 4 * 1024"
definition FLASH_SIZE :: nat where "FLASH_SIZE = 2 * 1024 * 1024"

definition within :: "region \<Rightarrow> nat \<Rightarrow> nat \<Rightarrow> bool" where
  "within p a n \<longleftrightarrow> origin p \<le> a \<and> a + n \<le> origin p + size p"

definition disjoint_regions :: "region \<Rightarrow> region \<Rightarrow> bool" where
  "disjoint_regions p q \<longleftrightarrow> origin p + size p \<le> origin q \<or> origin q + size q \<le> origin p"

text \<open>
  The bytes an upload writes: offsets are relative to the DFU partition, which the application
  knows by its own linker symbols.
\<close>

fun flash_write :: "ota_event \<Rightarrow> (nat \<times> nat) option" where
  "flash_write (Write_firmware offset bs) =
     Some (origin app_boot2 + part_start app_boot2 app_dfu + offset, length bs)"
| "flash_write _ = None"

text \<open>The map is one: both programs name the same partitions, which do not overlap.\<close>

lemmas region_defs = boot_boot2_def boot_flash_def boot_state_def boot_active_def boot_dfu_def
  app_boot2_def app_state_def app_flash_def app_dfu_def

lemma maps_agree:
  "app_boot2 = boot_boot2" "app_state = boot_state" "app_flash = boot_active" "app_dfu = boot_dfu"
  by (simp_all add: region_defs)

lemma partitions_disjoint:
  "disjoint_regions boot_flash boot_state" "disjoint_regions boot_state boot_active"
  "disjoint_regions boot_active boot_dfu" "disjoint_regions boot_flash boot_active"
  "disjoint_regions boot_flash boot_dfu" "disjoint_regions boot_state boot_dfu"
  "disjoint_regions boot_boot2 boot_flash" "disjoint_regions boot_boot2 boot_dfu"
  by (simp_all add: region_defs disjoint_regions_def)

lemma part_in_flash:
  "part_end boot_boot2 boot_dfu \<le> FLASH_SIZE" "part_end boot_boot2 boot_active \<le> FLASH_SIZE"
  by (simp_all add: region_defs part_end_def FLASH_SIZE_def)

lemma capacities: "size app_flash = ACTIVE_CAPACITY" "size app_dfu = DFU_CAPACITY"
  by (simp_all add: region_defs ACTIVE_CAPACITY_def DFU_CAPACITY_def)

section \<open>Where an upload writes\<close>

text \<open>
  A write of the upload loop: it begins at an erase boundary, is at most one erase block, and
  ends before \<open>n\<close>.
\<close>

fun write_fits :: "nat \<Rightarrow> nat \<Rightarrow> ota_event \<Rightarrow> bool" where
  "write_fits chunk n (Write_firmware offset bs) \<longleftrightarrow>
     chunk dvd offset \<and> length bs \<le> chunk \<and> offset + length bs \<le> n"
| "write_fits chunk n _ \<longleftrightarrow> True"

lemma ota_loop_finished_writes:
  "\<not> offset < content_len \<Longrightarrow> ota_loop rd wr mk chunk content_len offset r f = (res, r', f', es) \<Longrightarrow>
   list_all (write_fits chunk content_len) es"
  by (subst (asm) ota_loop.simps) (auto split: prod.splits bool.splits if_splits)

lemma ota_loop_writes:
  assumes br: "body_reader rd rest"
  shows "ota_loop rd wr mk chunk content_len offset r f = (res, r', f', es) \<Longrightarrow>
    chunk dvd offset \<or> rest r = [] \<Longrightarrow> list_all (write_fits chunk content_len) es"
proof (induction offset arbitrary: r f es
    rule: measure_induct_rule [where f = "\<lambda>offset. content_len - offset"])
  case (less offset)
  show ?case
  proof (cases "offset < content_len")
    case False
    then show ?thesis using less.prems(1) by (rule ota_loop_finished_writes)
  next
    case True
    let ?want = "min chunk (content_len - offset)"
    obtain got r1 where rd: "read_exact_or_eof rd ?want [] r = (got, r1)" by force
    have got: "rest r = bs @ rest r1" "length bs \<le> ?want" "length bs < ?want \<longrightarrow> rest r1 = []"
      if "got = Some bs" for bs
      using read_exact_body [OF br, of "[]" ?want r bs r1] rd that by auto
    from less.prems(1) True rd show ?thesis
    proof (cases rule: ota_loop_round)
      case stop
      then show ?thesis by simp
    next
      case (failed bs)
      with got [OF failed(1)] less.prems(2) True show ?thesis by auto
    next
      case (on bs es1)
      note g = got [OF on(1)]
      have "write_fits chunk content_len (Write_firmware offset bs)"
        using g on(2) less.prems(2) True by auto
      moreover have "list_all (write_fits chunk content_len) es1"
      proof (cases "offset + length bs < content_len")
        case False
        then show ?thesis using on(4) by (rule ota_loop_finished_writes)
      next
        case more: True
        have "length bs = chunk \<or> rest r1 = []" using g more by linarith
        then have "chunk dvd offset + length bs \<or> rest r1 = []" using less.prems(2) g(1) by auto
        moreover have "content_len - (offset + length bs) < content_len - offset"
          using True on(2) by (cases bs) auto
        ultimately show ?thesis using less.IH on(4) by blast
      qed
      ultimately show ?thesis by (simp add: on(3))
    qed
  qed
qed

lemma run_ota_writes:
  assumes "body_reader rd rest" "run_ota rd wr mk chunk content_len r f = (res, r', f', es)"
  shows "list_all (write_fits chunk ACTIVE_CAPACITY) es"
proof (cases "0 < content_len \<and> content_len \<le> ACTIVE_CAPACITY")
  case True
  with assms(2) have "ota_loop rd wr mk chunk content_len 0 r f = (res, r', f', es)"
    by (simp add: run_ota_def)
  then have *: "list_all (write_fits chunk content_len) es" by (rule ota_loop_writes [OF assms(1)]) simp
  have "write_fits chunk ACTIVE_CAPACITY e" if "write_fits chunk content_len e" for e
    using that True by (cases e) auto
  with * show ?thesis by (simp add: list_all_iff)
next
  case False
  with assms(2) show ?thesis by (auto simp: run_ota_def split: if_splits)
qed

section \<open>The bootloader\<close>

text \<open>
  What \<open>main\<close> of the bootloader does to the core after \<open>embassy-boot\<close> has swapped or reverted the
  images: the watchdog's control register, the interrupts enabled and pending in the NVIC, and
  \<open>PRIMASK\<close>.  A write to \<open>ICER\<close> or \<open>ICPR\<close> clears the bits that are one in it.  \<open>flash_base\<close> is
  \<open>embassy_rp\<close>'s constant, \<open>active_offset\<close> the offset of the partition the loader was configured
  with; the result has the address that \<open>load\<close> jumps to.
\<close>

record core_state =
  wdg_ctrl :: u32
  irq_enabled :: u32
  irq_pending :: u32
  primask :: bool

definition boot_main :: "u32 \<Rightarrow> u32 \<Rightarrow> core_state \<Rightarrow> core_state \<times> u32" where
  "boot_main flash_base active_offset c =
     (let start = flash_base + active_offset;
          c = c\<lparr>wdg_ctrl := stop_watchdog (wdg_ctrl c)\<rparr>;
          c = c\<lparr>irq_enabled := irq_enabled c AND NOT 0xFFFFFFFF\<rparr>;
          c = c\<lparr>irq_pending := irq_pending c AND NOT 0xFFFFFFFF\<rparr>;
          c = c\<lparr>primask := False\<rparr>
      in (c, start))"

lemma clear_all [simp]: "w AND NOT 0xFFFFFFFF = 0" for w :: u32
proof -
  have "(0xFFFFFFFF :: u32) = - 1" by simp
  then show ?thesis by (simp only: bit.compl_one bit.conj_zero_right)
qed

text \<open>\<open>mark_booted\<close> of \<open>src/ota.rs\<close>: \<open>mk\<close> is the updater's call; the result only shows in the
  log, where the error's own text is left out here.\<close>

definition mark_booted :: "('f \<Rightarrow> bool \<times> 'f) \<Rightarrow> 'f \<Rightarrow> 'f \<times> string list" where
  "mark_booted mk f =
     (case mk f of
        (True, f) \<Rightarrow> (f, [''embassy-boot: mark_booted ok'', ''boot: mark_booted ok''])
      | (False, f) \<Rightarrow> (f, [''embassy-boot: mark_booted'', ''boot: mark_booted err'']))"

section \<open>Properties\<close>

text \<open>C11: an upload only touches its own partition: whatever the flash does and however the body is
  cut, every write is at most one erase block from an erase boundary of the DFU partition, and its
  bytes lie in the first ACTIVE-size part of that partition: clear of the bootloader, of its state
  and of the running image, inside the 2 MiB chip, and the image fits where the bootloader swaps it.\<close>

theorem ota_writes_in_dfu:
  assumes "body_reader rd rest" "run_ota rd wr mk 4096 content_len r f = (res, r', f', es)"
  shows "list_all (\<lambda>e. case flash_write e of None \<Rightarrow> True | Some (a, n) \<Rightarrow>
      4096 dvd a \<and> n \<le> 4096 \<and> within boot_dfu a n \<and>
      disjoint_regions \<lparr>origin = a, size = n\<rparr> boot_active \<and>
      disjoint_regions \<lparr>origin = a, size = n\<rparr> boot_state \<and>
      disjoint_regions \<lparr>origin = a, size = n\<rparr> boot_flash \<and>
      a + n \<le> origin boot_boot2 + FLASH_SIZE \<and>
      a - origin boot_dfu + n \<le> size boot_active) es"
proof -
  have "case flash_write e of None \<Rightarrow> True | Some (a, n) \<Rightarrow>
      4096 dvd a \<and> n \<le> 4096 \<and> within boot_dfu a n \<and>
      disjoint_regions \<lparr>origin = a, size = n\<rparr> boot_active \<and>
      disjoint_regions \<lparr>origin = a, size = n\<rparr> boot_state \<and>
      disjoint_regions \<lparr>origin = a, size = n\<rparr> boot_flash \<and>
      a + n \<le> origin boot_boot2 + FLASH_SIZE \<and>
      a - origin boot_dfu + n \<le> size boot_active"
    if "write_fits 4096 ACTIVE_CAPACITY e" for e
  proof (cases e)
    case (Write_firmware offset bs)
    have "(4096 :: nat) dvd 0x100E9000" by simp
    with Write_firmware that show ?thesis
      by (simp add: region_defs part_start_def within_def disjoint_regions_def FLASH_SIZE_def
          ACTIVE_CAPACITY_def dvd_add)
  qed simp_all
  with run_ota_writes [OF assms] show ?thesis by (simp add: list_all_iff)
qed

theorem ota_writes_in_dfu_witness:
  "\<exists>r' f' es. run_ota three_read good_write good_mark 4096 10000 (replicate 10000 7) 0 = (Inr (), r', f', es) \<and>
     list_all (\<lambda>e. case flash_write e of None \<Rightarrow> True | Some (a, n) \<Rightarrow> within boot_dfu a n) es"
proof -
  obtain res r' f' es where
    l: "ota_loop three_read good_write good_mark 4096 10000 0 (replicate 10000 7) 0 = (res, r', f', es)"
    by (metis prod_cases4)
  with ota_loop_success [OF three_read_ok, of 4096 10000 0 "replicate 10000 7" 0]
  have e: "run_ota three_read good_write good_mark 4096 10000 (replicate 10000 7) 0 = (Inr (), r', f', es)"
    by (simp add: run_ota_def ACTIVE_CAPACITY_def)
  from ota_writes_in_dfu [OF three_read_ok(1) e]
  have "list_all (\<lambda>e. case flash_write e of None \<Rightarrow> True | Some (a, n) \<Rightarrow> within boot_dfu a n) es"
    by (rule list.pred_mono_strong) (auto split: option.splits)
  with e show ?thesis by blast
qed

text \<open>The handover to the application: the bootloader jumps to the address the application is
  linked at, with the watchdog off and the rest of its register as it was, no interrupt enabled or
  pending, and \<open>PRIMASK\<close> clear, whatever \<open>embassy-boot\<close> left behind.\<close>

lemma bootloader_hands_over:
  "case boot_main 0x10000000 (of_nat (part_start boot_boot2 boot_active)) c of (c', start) \<Rightarrow>
     unat start = origin app_flash \<and> (\<forall>i. bit (wdg_ctrl c') i = (bit (wdg_ctrl c) i \<and> i \<noteq> 30)) \<and>
     irq_enabled c' = 0 \<and> irq_pending c' = 0 \<and> primask c' = False"
  unfolding boot_main_def Let_def clear_all
  by (simp add: stop_watchdog_bits region_defs part_start_def)

end
