(* ===== verification/Bring_Up.thy ===== *)
theory Bring_Up
  imports Board_Task Web Dhcp_Proto
begin

text \<open>
  The \<open>main\<close> functions of \<open>src/main.rs\<close> and \<open>examples/uart-test.rs\<close> up to their idle loops, as
  the list of what they do for each choice of cargo features, run on a machine that knows what
  can go wrong: a task whose pool is used up (the \<open>unwrap\<close> of a spawn token panics), a socket
  without a slot, and a use of the Wi-Fi chip that no runner serves.  And \<open>watchdog_task\<close>.
\<close>

section \<open>Model\<close>

record features =
  simulate :: bool
  ota :: bool
  usb_log :: bool

datatype task_fn =
    Watchdog_task | Logger_task | Wifi_task | Heartbeat_task | Net_task | Dhcp_task | Dns_task
  | Mdns_task | Board_task | Timer_task | Read_serial | Web_task | Uart_rx_task | Uart_tx_task

text \<open>\<open>#[embassy_executor::task]\<close> is a pool of one.\<close>

fun pool_size :: "task_fn \<Rightarrow> nat" where
  "pool_size Web_task = WEB_TASK_POOL_SIZE"
| "pool_size _ = 1"

definition NET_SOCKETS :: nat where "NET_SOCKETS = WEB_TASK_POOL_SIZE + 5"
definition WIFI_SSID :: string where "WIFI_SSID = ''Scoreboard''"

text \<open>The sockets a task has open at once: one UDP socket, or one TCP socket per round.\<close>

fun sockets_of :: "task_fn \<Rightarrow> nat" where
  "sockets_of Dhcp_task = 1"
| "sockets_of Dns_task = 1"
| "sockets_of Mdns_task = 1"
| "sockets_of Web_task = 1"
| "sockets_of _ = 0"

text \<open>
  The tasks that use the Wi-Fi chip: the two that drive the LED, which is a pin of the chip, by
  ioctls, and the one that runs the network stack.
\<close>

fun needs_runner :: "task_fn \<Rightarrow> bool" where
  "needs_runner Heartbeat_task = True"
| "needs_runner Board_task = True"
| "needs_runner Net_task = True"
| "needs_runner _ = False"

datatype boot_action =
    Defmt_init
  | Wdg_start nat
  | Spawn task_fn
  | Delay_ms nat
  | Flash_new
  | Cyw43_new
  | Control_init
  | Net_new bytes nat nat
  | Start_ap string nat
  | Out_low pin nat
  | Uart_new nat nat nat
  | Mark_booted

text \<open>\<open>Net_new\<close> has address, prefix length and socket slots; \<open>Out_low\<close> the GPIO number.\<close>

definition io_pins :: "(pin \<times> nat) list" where
  "io_pins =
     [(Io_start, 1), (Io_home_inc, 2), (Io_home_dec, 3), (Io_away_inc, 4), (Io_away_dec, 5),
      (Io_reset, 6), (Io_min_inc, 7), (Io_min_dec, 8), (Io_sec_inc, 9), (Io_sec_dec, 10),
      (Io_clear, 11), (Io_aux, 13)]"

text \<open>Up to the access point; the services and the board; the HTTP workers and the commit.\<close>

definition boot_radio :: "features \<Rightarrow> boot_action list" where
  "boot_radio f =
     (if \<not> usb_log f then [Defmt_init] else []) @
     [Wdg_start 8, Spawn Watchdog_task] @
     (if usb_log f then [Spawn Logger_task, Delay_ms 200] else []) @
     (if ota f then [Flash_new] else []) @
     [Cyw43_new, Spawn Wifi_task, Control_init, Spawn Heartbeat_task,
      Net_new [192, 168, 0, 1] 24 NET_SOCKETS, Spawn Net_task, Start_ap WIFI_SSID 6]"

definition boot_board :: "features \<Rightarrow> boot_action list" where
  "boot_board f =
     [Spawn Dhcp_task, Spawn Dns_task, Spawn Mdns_task] @
     map (\<lambda>(p, n). Out_low p n) io_pins @
     [Spawn Board_task] @
     (if simulate f then [Spawn Timer_task] else [Uart_new 38400 20 21, Spawn Read_serial])"

definition boot_http :: "features \<Rightarrow> boot_action list" where
  "boot_http f =
     map (\<lambda>task_id. Spawn Web_task) [0..<WEB_TASK_POOL_SIZE] @
     (if ota f then [Delay_ms 10, Mark_booted] else [])"

definition main_boot :: "features \<Rightarrow> boot_action list" where
  "main_boot f = boot_radio f @ boot_board f @ boot_http f"

definition bench_boot :: "boot_action list" where
  "bench_boot =
     [Wdg_start 8, Spawn Watchdog_task, Spawn Logger_task, Delay_ms 500, Uart_new 38400 20 21,
      Spawn Uart_rx_task, Spawn Uart_tx_task]"

section \<open>Running it\<close>

text \<open>\<open>committed\<close>: \<open>mark_booted\<close> was called.\<close>

record bring_up =
  tasks :: "task_fn list"
  wdg_on :: bool
  free_sockets :: nat
  ap :: "string option"
  address :: bytes
  low :: "pin list"
  committed :: bool

definition power_on :: bring_up where
  "power_on = \<lparr>tasks = [], wdg_on = False, free_sockets = 0, ap = None, address = [], low = [],
     committed = False\<rparr>"

datatype bring_up_error = Task_busy task_fn | No_socket task_fn | No_runner

text \<open>The tasks never return, so they keep their pool slot and socket.\<close>

fun do_action :: "boot_action \<Rightarrow> bring_up \<Rightarrow> bring_up_error + bring_up" where
  "do_action (Wdg_start s) m = Inr (m\<lparr>wdg_on := True\<rparr>)"
| "do_action (Spawn t) m =
     (if count_list (tasks m) t \<ge> pool_size t then Inl (Task_busy t)
      else if free_sockets m < sockets_of t then Inl (No_socket t)
      else if needs_runner t \<and> Wifi_task \<notin> set (tasks m) then Inl No_runner
      else Inr (m\<lparr>tasks := t # tasks m, free_sockets := free_sockets m - sockets_of t\<rparr>))"
| "do_action Control_init m = (if Wifi_task \<in> set (tasks m) then Inr m else Inl No_runner)"
| "do_action (Start_ap ssid ch) m =
     (if Wifi_task \<in> set (tasks m) then Inr (m\<lparr>ap := Some ssid\<rparr>) else Inl No_runner)"
| "do_action (Net_new a n slots) m = Inr (m\<lparr>address := a, free_sockets := slots\<rparr>)"
| "do_action (Out_low p n) m = Inr (m\<lparr>low := p # low m\<rparr>)"
| "do_action Mark_booted m = Inr (m\<lparr>committed := True\<rparr>)"
| "do_action _ m = Inr m"

fun run_up :: "boot_action list \<Rightarrow> bring_up \<Rightarrow> bring_up_error + bring_up" where
  "run_up [] m = Inr m"
| "run_up (a # as) m = (case do_action a m of Inl e \<Rightarrow> Inl e | Inr m' \<Rightarrow> run_up as m')"

section \<open>watchdog_task\<close>

text \<open>
  Times in ms.  The watchdog resets the chip at \<open>due\<close>; the task feeds it for 8 s and sleeps 1 s;
  \<open>late\<close> is how long after that, round by round, the executor and the mutex keep it waiting.
\<close>

fun watchdog_task :: "nat \<Rightarrow> nat \<Rightarrow> nat list \<Rightarrow> bool" where
  "watchdog_task due t [] \<longleftrightarrow> t < due"
| "watchdog_task due t (late # rest) \<longleftrightarrow>
     t < due \<and> watchdog_task (t + 8000) (t + 1000 + late) rest"

text \<open>The chip is not reset if and only if the task is never seven seconds late.\<close>

lemma watchdog_task_iff: "t < due \<Longrightarrow> watchdog_task due t late \<longleftrightarrow> (\<forall>d \<in> set late. d < 7000)"
proof (induction late arbitrary: t due)
  case (Cons d late)
  show ?case
  proof (cases "d < 7000")
    case True
    with Cons.IH [of "t + 1000 + d" "t + 8000"] Cons.prems show ?thesis by simp
  next
    case False
    then have "\<not> watchdog_task (t + 8000) (t + 1000 + d) late" by (cases late) simp_all
    with False show ?thesis by auto
  qed
qed simp

section \<open>Every prefix\<close>

text \<open>\<open>P\<close> holds at power-on and after every action, and no action fails.\<close>

fun always :: "(bring_up \<Rightarrow> bool) \<Rightarrow> boot_action list \<Rightarrow> bring_up \<Rightarrow> bool" where
  "always P [] m \<longleftrightarrow> P m"
| "always P (a # as) m \<longleftrightarrow> P m \<and> (case do_action a m of Inl e \<Rightarrow> False | Inr m' \<Rightarrow> always P as m')"

lemma always_take: "always P as m \<Longrightarrow> \<exists>m'. run_up (take n as) m = Inr m' \<and> P m'"
proof (induction as arbitrary: n m)
  case (Cons a as)
  then show ?case by (cases n) (auto split: sum.splits)
qed simp

definition sound_stage :: "bring_up \<Rightarrow> bool" where
  "sound_stage m \<longleftrightarrow>
     (if tasks m = [] then True else wdg_on m) \<and>
     (if Wifi_task \<in> set (tasks m) then True else list_all (\<lambda>t. \<not> needs_runner t) (tasks m)) \<and>
     (if Board_task \<in> set (tasks m) then list_all (\<lambda>p. p \<in> set (low m)) (map fst io_pins) else True) \<and>
     (if committed m then ap m = Some WIFI_SSID \<and> count_list (tasks m) Web_task = WEB_TASK_POOL_SIZE
      else True)"

lemma main_boot_cases:
  assumes "\<And>s x u. P (main_boot \<lparr>simulate = s, ota = x, usb_log = u\<rparr>)"
  shows "P (main_boot f)"
  using assms by (cases f) simp

lemmas boot_simps = main_boot_def boot_radio_def boot_board_def boot_http_def io_pins_def upt_conv_Cons WEB_TASK_POOL_SIZE_def NET_SOCKETS_def
  power_on_def

lemma main_boot_sound: "always sound_stage (main_boot f) power_on"
  by (cases "simulate f"; cases "ota f"; cases "usb_log f"; simp add: boot_simps sound_stage_def)

text \<open>The tasks a build runs.\<close>

fun runs :: "features \<Rightarrow> task_fn \<Rightarrow> bool" where
  "runs f Logger_task \<longleftrightarrow> usb_log f"
| "runs f Timer_task \<longleftrightarrow> simulate f"
| "runs f Read_serial \<longleftrightarrow> \<not> simulate f"
| "runs f Uart_rx_task \<longleftrightarrow> False"
| "runs f Uart_tx_task \<longleftrightarrow> False"
| "runs f _ \<longleftrightarrow> True"

text \<open>The machine in the idle loop, latest task first.\<close>

definition started :: "features \<Rightarrow> task_fn list" where
  "started f = map (\<lambda>task_id. Web_task) [0..<WEB_TASK_POOL_SIZE] @
     [if simulate f then Timer_task else Read_serial, Board_task, Mdns_task, Dns_task, Dhcp_task,
      Net_task, Heartbeat_task, Wifi_task] @
     (if usb_log f then [Logger_task] else []) @ [Watchdog_task]"

lemma main_boot_end:
  "\<exists>pins. run_up (main_boot f) power_on = Inr
     \<lparr>tasks = started f, wdg_on = True, free_sockets = 2, ap = Some WIFI_SSID,
      address = [192, 168, 0, 1], low = pins, committed = ota f\<rparr>"
  by (cases "simulate f"; cases "ota f"; cases "usb_log f")
    (simp_all add: boot_simps started_def)

lemma count_started: "count_list (started f) t = (if runs f t then pool_size t else 0)"
  by (cases t) (simp_all add: started_def WEB_TASK_POOL_SIZE_def upt_conv_Cons)

section \<open>Properties\<close>

text \<open>C16: the static pools are large enough: for every choice of features \<open>main\<close> reaches its idle
  loop without a panic and without using the Wi-Fi chip before its runner is up, having filled the
  pool of each task of the build exactly, with two of its 17 socket slots to spare, the access point up at the address that the DHCP, DNS and mDNS servers
  give out, and the image committed exactly in the OTA builds.\<close>

theorem bring_up_fits:
  "case run_up (main_boot f) power_on of
     Inl e \<Rightarrow> False
   | Inr m \<Rightarrow> (\<forall>t. count_list (tasks m) t = (if runs f t then pool_size t else 0)) \<and>
       free_sockets m + 15 = NET_SOCKETS \<and> ap m = Some WIFI_SSID \<and> address m = SERVER_IP \<and>
       committed m = ota f"
  using main_boot_end [of f] by (auto simp: count_started NET_SOCKETS_def SERVER_IP_def WEB_TASK_POOL_SIZE_def)

text \<open>Bring-up happens in a safe order: wherever it stops, the watchdog was started before the
  first task, the Wi-Fi runner before every task and call that needs it, every button line was
  driven low before \<open>board_task\<close> may press one, and a trial image was committed only after the
  access point was up and all twelve HTTP workers were started.\<close>

lemma bring_up_order:
  "case run_up (take n (main_boot f)) power_on of
     Inl e \<Rightarrow> False
   | Inr m \<Rightarrow> (if tasks m = [] then True else wdg_on m) \<and>
       (\<forall>t \<in> set (tasks m). needs_runner t \<longrightarrow> Wifi_task \<in> set (tasks m)) \<and>
       (if Board_task \<in> set (tasks m) then (\<forall>p. p \<in> set (low m)) else True) \<and>
       (if committed m then ap m = Some WIFI_SSID \<and> count_list (tasks m) Web_task = 12 else True)"
proof -
  have "p \<in> set (map fst io_pins)" for p by (cases p) (simp_all add: io_pins_def)
  then have "\<forall>p. p \<in> set (low m)" if "list_all (\<lambda>p. p \<in> set (low m)) (map fst io_pins)" for m :: bring_up
    using that unfolding list_all_iff by blast
  moreover obtain m where "run_up (take n (main_boot f)) power_on = Inr m" "sound_stage m"
    using always_take [OF main_boot_sound] by blast
  ultimately show ?thesis
    by (auto simp: sound_stage_def WEB_TASK_POOL_SIZE_def list_all_iff split: if_splits)
qed

text \<open>The bench tool comes up as well.\<close>

lemma bench_boot_fits: "\<exists>m. run_up bench_boot power_on = Inr m \<and> wdg_on m \<and> distinct (tasks m)"
  by (simp add: bench_boot_def power_on_def)

end
