(* ===== verification/Build.thy ===== *)
theory Build
  imports Flash_Map Bring_Up
begin

text \<open>
  The build scripts \<open>src/build.rs\<close> and \<open>src/bootloader/build.rs\<close>: which linker script an image gets
  and what they tell cargo; and the parts of the linker scripts that theory \<open>Flash_Map\<close> does not need.
  The lemmas tie the choice to the firmware: the image that \<open>main\<close> commits is the one that is linked
  where the bootloader starts it.
\<close>

section \<open>Model\<close>

text \<open>
  What a build script sees: the environment, and whether creating and writing \<open>memory.x\<close> work; each
  of these is unwrapped.  \<open>script\<close> names the file whose bytes are written.
\<close>

record build_env =
  var :: "string \<Rightarrow> string option"
  create_ok :: bool
  write_ok :: bool

datatype script = Memory_app | Memory_standalone | Memory_boot

datatype cargo_line = Rerun_if_changed string | Link_search string | Link_arg_bins string

definition write_memory_x :: "build_env \<Rightarrow> unit rs" where
  "write_memory_x E = (if \<not> create_ok E then panic else if \<not> write_ok E then panic else ret ())"

definition app_build :: "build_env \<Rightarrow> (script \<times> cargo_line list) rs" where
  "app_build E = (case var E ''OUT_DIR'' of None \<Rightarrow> panic | Some out \<Rightarrow>
     (let (rerun, memory) =
        (if var E ''CARGO_FEATURE_OTA'' \<noteq> None
         then (Rerun_if_changed ''memory-app.x'', Memory_app)
         else (Rerun_if_changed ''memory-standalone.x'', Memory_standalone))
      in do {
        write_memory_x E;
        ret (memory, [rerun, Link_search out, Link_arg_bins ''--nmagic'', Link_arg_bins ''-Tlink.x'',
          Link_arg_bins ''-Tdefmt.x''])
      }))"

definition bootloader_build :: "build_env \<Rightarrow> (script \<times> cargo_line list) rs" where
  "bootloader_build E = (case var E ''OUT_DIR'' of None \<Rightarrow> panic | Some out \<Rightarrow> do {
     write_memory_x E;
     ret (Memory_boot, [Link_search out, Rerun_if_changed ''memory.x'', Link_arg_bins ''--nmagic'',
       Link_arg_bins ''-Tlink.x'', Link_arg_bins ''-Tlink-rp.x'', Link_arg_bins ''-Tdefmt.x''])
   })"

text \<open>\<open>src/memory-standalone.x\<close>, and the RAM of the scripts.\<close>

definition alone_boot2 :: region where "alone_boot2 = \<lparr>origin = 0x10000000, size = 0x100\<rparr>"
definition alone_flash :: region where "alone_flash = \<lparr>origin = 0x10000100, size = 2048 * 1024 - 0x100\<rparr>"
definition app_ram :: region where "app_ram = \<lparr>origin = 0x20000000, size = 200 * 1024\<rparr>"
definition pandump :: region where "pandump = \<lparr>origin = 0x20000000 + 200 * 1024, size = 1024\<rparr>"
definition boot_ram :: region where "boot_ram = \<lparr>origin = 0x20000000, size = 264 * 1024\<rparr>"

text \<open>
  Where the program of an image starts, and where its second stage \<open>.boot2\<close> goes: the application
  behind the bootloader discards it, the others keep it in \<open>BOOT2\<close> (the bootloader by
  \<open>link-rp.x\<close> of \<open>embassy-rp\<close>).
\<close>

fun flash_region :: "script \<Rightarrow> region" where
  "flash_region Memory_app = app_flash"
| "flash_region Memory_standalone = alone_flash"
| "flash_region Memory_boot = boot_flash"

fun boot2_region :: "script \<Rightarrow> region option" where
  "boot2_region Memory_app = None"
| "boot2_region Memory_standalone = Some alone_boot2"
| "boot2_region Memory_boot = Some boot_boot2"

section \<open>The image and the firmware in it\<close>

text \<open>Cargo sets \<open>CARGO_FEATURE_OTA\<close> exactly for builds with the feature.\<close>

definition cargo_env :: "features \<Rightarrow> string \<Rightarrow> build_env" where
  "cargo_env f out = \<lparr>var = [''OUT_DIR'' \<mapsto> out] ++ (if ota f then [''CARGO_FEATURE_OTA'' \<mapsto> ''1''] else Map.empty),
     create_ok = True, write_ok = True\<rparr>"

lemma cargo_env_simps [simp]:
  "var (cargo_env f out) ''OUT_DIR'' = Some out"
  "var (cargo_env f out) ''CARGO_FEATURE_OTA'' = (if ota f then Some ''1'' else None)"
  "write_memory_x (cargo_env f out) = ret ()"
  by (simp_all add: cargo_env_def write_memory_x_def map_add_def)

lemma app_build_script:
  "app_build (cargo_env f out) = ret (script, lines) \<Longrightarrow> script = (if ota f then Memory_app else Memory_standalone)"
  by (auto simp: app_build_def)

lemma bootloader_build_script: "bootloader_build E = ret (script, lines) \<Longrightarrow> script = Memory_boot"
  by (auto simp: bootloader_build_def split: option.splits Option.bind_splits)

lemma build_panics:
  "\<not> create_ok E \<or> \<not> write_ok E \<or> var E ''OUT_DIR'' = None \<Longrightarrow> app_build E = panic \<and> bootloader_build E = panic"
  by (auto simp: app_build_def bootloader_build_def write_memory_x_def split: option.split)

lemmas ram_defs = app_ram_def pandump_def boot_ram_def alone_boot2_def alone_flash_def

text \<open>
  An image is started where it is linked.  With \<open>ota\<close> its program is the ACTIVE partition, whose
  address the bootloader jumps to, and it brings no second stage of its own; without, it begins at
  the start of the flash with its second stage, and fills the chip.
\<close>

lemma image_starts_where_linked:
  assumes "app_build (cargo_env f out) = ret (script, lines)"
    and "bootloader_build E = ret (loader, lines')"
  shows "if ota f
    then flash_region script = boot_active \<and> boot2_region script = None \<and>
      unat (snd (boot_main 0x10000000 (of_nat (part_start boot_boot2 boot_active)) c)) = origin (flash_region script) \<and>
      disjoint_regions (flash_region script) (flash_region loader)
    else boot2_region script = Some alone_boot2 \<and>
      origin (flash_region script) = origin alone_boot2 + size alone_boot2 \<and>
      origin (flash_region script) + size (flash_region script) = origin alone_boot2 + FLASH_SIZE"
  using app_build_script [OF assms(1)] bootloader_build_script [OF assms(2)]
  by (simp add: boot_main_def part_start_def region_defs ram_defs disjoint_regions_def FLASH_SIZE_def Let_def)

text \<open>What is linked for the bootloader commits itself after its trial boot, nothing else does.\<close>

lemma commits_iff_behind_loader:
  assumes "app_build (cargo_env f out) = ret (script, lines)" "run_up (main_boot f) power_on = Inr m"
  shows "committed m \<longleftrightarrow> boot2_region script = None"
  using app_build_script [OF assms(1)] main_boot_end [of f] assms(2) by auto

text \<open>The dump region lies behind the application's RAM, but not at the top of the chip's 264 KiB.\<close>

lemma pandump_place:
  "origin pandump = origin app_ram + size app_ram" "within boot_ram (origin pandump) (size pandump)"
  "origin pandump + size pandump + 63 * 1024 = origin boot_ram + size boot_ram"
  by (simp_all add: ram_defs within_def)

end
