(* ===== verification/Uart_Reader.thy ===== *)
theory Uart_Reader
  imports Scoreboard
begin

text \<open>
  \<open>read_serial\<close> of \<open>src/main.rs\<close> (hardware build): the byte machine that finds 6-byte
  frames in the UART stream and hands their time to \<open>set_clock\<close>.  One \<open>serial_byte\<close> is one
  round of the byte loop; it takes the mutex at most once, so the scoreboard it is given is
  the one found there and the clock is read there.
\<close>

section \<open>State\<close>

record reader =
  packet_buf :: bytes
  buf_idx :: nat
  last_logged :: bytes
  have_logged :: bool
  last_raw :: instant
  skip :: bytes
  skip_n :: nat

datatype serial_log =
    Log_raw bytes
  | Log_skip bytes
  | Log_frame bytes u8 u8 bool
  | Log_error

definition init_reader :: "clock \<Rightarrow> reader" where
  "init_reader c =
     \<lparr>packet_buf = replicate PACKET_LEN 0, buf_idx = 0,
      last_logged = replicate PACKET_LEN 0, have_logged = False, last_raw = now c,
      skip = replicate 16 0, skip_n = 0\<rparr>"

section \<open>The byte loop\<close>

text \<open>A byte while no frame has begun: a start byte opens one, anything else is skipped.\<close>

definition serial_idle_byte :: "u8 \<Rightarrow> reader \<Rightarrow> (reader \<times> serial_log list) rs" where
  "serial_idle_byte byte r =
     (if byte \<noteq> PACKET_SOF then do {
        sk \<leftarrow> put (skip r) (skip_n r) byte;
        let n = skip_n r + 1;
        if n = length sk then do {
          (len, hex) \<leftarrow> write_hex sk (replicate 47 0);
          t \<leftarrow> slice_of hex 0 len;
          ret (r\<lparr>skip := sk, skip_n := 0\<rparr>, [Log_skip t])
        } else ret (r\<lparr>skip := sk, skip_n := n\<rparr>, [])
      } else do {
        buf \<leftarrow> put (packet_buf r) 0 byte;
        ret (r\<lparr>packet_buf := buf, buf_idx := 1\<rparr>, [])
      })"

definition serial_byte ::
    "clock \<Rightarrow> u8 \<Rightarrow> reader \<times> scoreboard \<Rightarrow> ((reader \<times> scoreboard) \<times> serial_log list) rs" where
  "serial_byte c byte = (\<lambda>(r, s).
     if buf_idx r = 0 then do {
       (r, logs) \<leftarrow> serial_idle_byte byte r;
       ret ((r, s), logs)
     } else do {
       buf \<leftarrow> put (packet_buf r) (buf_idx r) byte;
       let i = buf_idx r + 1;
       if i < PACKET_LEN then ret ((r\<lparr>packet_buf := buf, buf_idx := i\<rparr>, s), [])
       else (let r = r\<lparr>packet_buf := buf, buf_idx := 0\<rparr> in
         case parse_clock_packet buf of
           None \<Rightarrow> ret ((r, s), [])
         | Some (m, sec) \<Rightarrow>
             (let s = set_clock c m sec s in
              if \<not> have_logged r \<or> buf \<noteq> last_logged r
              then ret ((r\<lparr>last_logged := buf, have_logged := True\<rparr>, s),
                        [Log_frame buf m sec (running s)])
              else ret ((r, s), [])))
     })"

fun serial_bytes ::
    "(clock \<times> u8) list \<Rightarrow> reader \<times> scoreboard \<Rightarrow> ((reader \<times> scoreboard) \<times> serial_log list) rs" where
  "serial_bytes [] rs = ret (rs, [])"
| "serial_bytes ((c, b) # bs) rs = do {
     (rs, l1) \<leftarrow> serial_byte c b rs;
     (rs, l2) \<leftarrow> serial_bytes bs rs;
     ret (rs, l1 @ l2)
   }"

text \<open>
  One completed DMA read of 32 bytes: the raw dump every 2 s, then the byte loop.  The
  bytes carry the clock of their own round.
\<close>

definition serial_read ::
    "clock \<Rightarrow> (clock \<times> u8) list \<Rightarrow> reader \<times> scoreboard \<Rightarrow>
     ((reader \<times> scoreboard) \<times> serial_log list) rs" where
  "serial_read c dma_buf = (\<lambda>(r, s).
     if elapsed_ms c (last_raw r) \<ge> 2000 then do {
       (len, hex) \<leftarrow> write_hex (map snd dma_buf) (replicate 95 0);
       t \<leftarrow> slice_of hex 0 len;
       (rs, logs) \<leftarrow> serial_bytes dma_buf (r\<lparr>last_raw := now c\<rparr>, s);
       ret (rs, Log_raw t # logs)
     } else serial_bytes dma_buf (r, s))"

text \<open>A UART error drops the partial frame.\<close>

definition serial_error :: "reader \<Rightarrow> reader \<times> serial_log list" where
  "serial_error r = (r\<lparr>buf_idx := 0\<rparr>, [Log_error])"

text \<open>The outer loop: what each \<open>rx.read\<close> gave, \<open>None\<close> for an error.\<close>

fun serial_reads ::
    "(clock \<times> (clock \<times> u8) list) option list \<Rightarrow> reader \<times> scoreboard \<Rightarrow>
     ((reader \<times> scoreboard) \<times> serial_log list) rs" where
  "serial_reads [] rs = ret (rs, [])"
| "serial_reads (None # xs) (r, s) = (case serial_error r of (r, l1) \<Rightarrow> do {
     (rs, l2) \<leftarrow> serial_reads xs (r, s);
     ret (rs, l1 @ l2)
   })"
| "serial_reads (Some (c, bs) # xs) rs = do {
     (rs, l1) \<leftarrow> serial_read c bs rs;
     (rs, l2) \<leftarrow> serial_reads xs rs;
     ret (rs, l1 @ l2)
   }"

section \<open>The loop never leaves its buffers\<close>

definition reader_inv :: "reader \<Rightarrow> bool" where
  "reader_inv r \<longleftrightarrow> length (packet_buf r) = 6 \<and> buf_idx r < 6 \<and>
     length (skip r) = 16 \<and> skip_n r < 16"

lemma reader_inv_init: "reader_inv (init_reader c)"
  by (simp add: reader_inv_def init_reader_def PACKET_LEN_def)

lemma reader_inv_error: "reader_inv r \<Longrightarrow> reader_inv (fst (serial_error r))"
  by (simp add: reader_inv_def serial_error_def)

text \<open>Writing hex into a buffer and taking the written part gives the text of what fits.\<close>

lemma write_hex_text:
  "(do { (len, hex) \<leftarrow> write_hex data out; t \<leftarrow> slice_of hex 0 len; f t }) =
   f (hex_text (take ((length out + 1) div 3) data))"
proof -
  let ?t = "hex_text (take ((length out + 1) div 3) data)"
  have "length ?t \<le> length out"
    by (simp add: le_diff_conv2 min_def) linarith
  then show ?thesis by (simp add: write_hex_eq Let_def slice_of_def)
qed

lemma serial_idle_byte_eq:
  assumes "reader_inv r"
  shows "serial_idle_byte byte r = ret
    (if byte = 0x60 then (r\<lparr>packet_buf := (packet_buf r)[0 := byte], buf_idx := 1\<rparr>, [])
     else let sk = (skip r)[skip_n r := byte] in
       if skip_n r = 15 then (r\<lparr>skip := sk, skip_n := 0\<rparr>, [Log_skip (hex_text sk)])
       else (r\<lparr>skip := sk, skip_n := skip_n r + 1\<rparr>, []))"
  using assms
  by (simp add: serial_idle_byte_def reader_inv_def decode_consts put_ok write_hex_text Let_def)

lemma serial_byte_idle:
  assumes "reader_inv r" "buf_idx r = 0"
  shows "serial_byte c byte (r, s) =
    (case serial_idle_byte byte r of Some (r', logs) \<Rightarrow> ret ((r', s), logs) | None \<Rightarrow> panic)"
  using assms by (simp add: serial_byte_def serial_idle_byte_eq split: option.splits)

lemma serial_byte_mid:
  assumes "reader_inv r" "0 < buf_idx r" "buf_idx r < 5"
  shows "serial_byte c byte (r, s) =
    ret ((r\<lparr>packet_buf := (packet_buf r)[buf_idx r := byte], buf_idx := buf_idx r + 1\<rparr>, s), [])"
  using assms by (simp add: serial_byte_def put_ok reader_inv_def decode_consts)

lemma serial_byte_last:
  assumes "reader_inv r" "buf_idx r = 5"
  shows "serial_byte c byte (r, s) =
    (let buf = (packet_buf r)[5 := byte]; r = r\<lparr>packet_buf := buf, buf_idx := 0\<rparr> in
     case parse_clock_packet buf of
       None \<Rightarrow> ret ((r, s), [])
     | Some (m, sec) \<Rightarrow>
         (let s = set_clock c m sec s in
          if \<not> have_logged r \<or> buf \<noteq> last_logged r
          then ret ((r\<lparr>last_logged := buf, have_logged := True\<rparr>, s), [Log_frame buf m sec (running s)])
          else ret ((r, s), [])))"
  using assms by (simp add: serial_byte_def put_ok reader_inv_def decode_consts Let_def)

lemmas serial_byte_eqs = serial_byte_idle serial_byte_mid serial_byte_last

lemma serial_byte_ok:
  assumes inv: "reader_inv r"
  shows "\<exists>r' s' logs. serial_byte c byte (r, s) = ret ((r', s'), logs) \<and> reader_inv r'"
proof -
  consider "buf_idx r = 0" | "0 < buf_idx r" "buf_idx r < 5" | "buf_idx r = 5"
    using inv by (auto simp: reader_inv_def) linarith
  then show ?thesis
  proof cases
    case 1
    with inv show ?thesis
      by (auto simp: serial_byte_idle serial_idle_byte_eq reader_inv_def Let_def)
  next
    case 2
    with inv show ?thesis by (simp add: serial_byte_mid reader_inv_def)
  next
    case 3
    with inv show ?thesis
      by (auto simp: serial_byte_last reader_inv_def Let_def split: option.splits)
        (metis length_list_update)
  qed
qed

lemma serial_bytes_ok:
  "reader_inv r \<Longrightarrow>
   \<exists>r' s' logs. serial_bytes bs (r, s) = ret ((r', s'), logs) \<and> reader_inv r'"
proof (induction bs arbitrary: r s)
  case Nil
  then show ?case by simp
next
  case (Cons x bs)
  obtain c b where x: "x = (c, b)" by force
  obtain r1 s1 l1 where 1: "serial_byte c b (r, s) = ret ((r1, s1), l1)" "reader_inv r1"
    using serial_byte_ok [OF Cons.prems] by blast
  obtain r2 s2 l2 where "serial_bytes bs (r1, s1) = ret ((r2, s2), l2)" "reader_inv r2"
    using Cons.IH [OF 1(2)] by blast
  with x 1 show ?case by simp
qed

lemma serial_read_ok:
  "reader_inv r \<Longrightarrow>
   \<exists>r' s' logs. serial_read c bs (r, s) = ret ((r', s'), logs) \<and> reader_inv r'"
  using serial_bytes_ok [of r bs s] serial_bytes_ok [of "r\<lparr>last_raw := now c\<rparr>" bs s]
  by (auto simp: serial_read_def write_hex_text reader_inv_def)

section \<open>Framing\<close>

text \<open>
  What a byte stream says when the reader is in step with it: stray bytes other than the
  start byte, and 6-byte packets that begin with it.
\<close>

datatype uart_item =
    Stray clock u8
  | Packet "(clock \<times> u8) list"

fun item_ok :: "uart_item \<Rightarrow> bool" where
  "item_ok (Stray c b) \<longleftrightarrow> b \<noteq> 0x60"
| "item_ok (Packet xs) \<longleftrightarrow> length xs = 6 \<and> snd (hd xs) = 0x60"

fun item_bytes :: "uart_item \<Rightarrow> (clock \<times> u8) list" where
  "item_bytes (Stray c b) = [(c, b)]"
| "item_bytes (Packet xs) = xs"

fun item_effect :: "uart_item \<Rightarrow> scoreboard \<Rightarrow> scoreboard" where
  "item_effect (Stray c b) s = s"
| "item_effect (Packet xs) s =
     (case parse_clock_packet (map snd xs) of
        None \<Rightarrow> s | Some (m, sec) \<Rightarrow> set_clock (fst (last xs)) m sec s)"

lemma serial_bytes_append:
  "serial_bytes (xs @ ys) p = do {
     (p1, l1) \<leftarrow> serial_bytes xs p; (p2, l2) \<leftarrow> serial_bytes ys p1; ret (p2, l1 @ l2) }"
  by (induction xs arbitrary: p) (auto simp: split_beta split: Option.bind_splits)

lemma length_6:
  assumes "length xs = 6"
  obtains a b c d e f where "xs = [a, b, c, d, e, f]"
  using assms by (auto simp: eval_nat_numeral length_Suc_conv)

lemma serial_packet:
  assumes inv: "reader_inv r" and start: "buf_idx r = 0" and ok: "item_ok (Packet xs)"
  shows "\<exists>r' logs. serial_bytes xs (r, s) = ret ((r', item_effect (Packet xs) s), logs) \<and>
    reader_inv r' \<and> buf_idx r' = 0"
proof -
  obtain x0 x1 x2 x3 x4 x5 where xs: "xs = [x0, x1, x2, x3, x4, x5]"
    by (rule length_6 [of xs]) (use ok in auto)
  obtain c0 c1 b1 c2 b2 c3 b3 c4 b4 c5 b5 where x: "x0 = (c0, 0x60)" "x1 = (c1, b1)"
    "x2 = (c2, b2)" "x3 = (c3, b3)" "x4 = (c4, b4)" "x5 = (c5, b5)"
    using ok xs by (metis item_ok.simps(2) list.sel(1) surj_pair prod.sel(2))
  obtain p0 p1 p2 p3 p4 p5 where buf: "packet_buf r = [p0, p1, p2, p3, p4, p5]"
    by (rule length_6 [of "packet_buf r"]) (use inv in \<open>auto simp: reader_inv_def\<close>)
  have "serial_bytes (butlast xs) (r, s) =
      ret ((r\<lparr>packet_buf := [0x60, b1, b2, b3, b4, p5], buf_idx := 5\<rparr>, s), [])"
    using inv start
    by (simp add: xs x serial_byte_idle serial_idle_byte_eq serial_byte_mid reader_inv_def buf)
  moreover have "xs = butlast xs @ [(c5, b5)]" by (simp add: xs x)
  ultimately have "\<exists>r' logs. serial_bytes xs (r, s) = ret ((r', item_effect (Packet xs) s), logs) \<and>
      buf_idx r' = 0"
    using inv serial_bytes_append [of "butlast xs" "[(c5, b5)]" "(r, s)"]
    by (auto simp: serial_byte_last reader_inv_def xs x Let_def split: option.splits)
  with serial_bytes_ok [OF inv, of xs s] show ?thesis by auto
qed

lemma serial_stray:
  assumes "reader_inv r" "buf_idx r = 0" "item_ok (Stray c b)"
  shows "\<exists>r' logs. serial_bytes [(c, b)] (r, s) = ret ((r', s), logs) \<and>
    reader_inv r' \<and> buf_idx r' = 0"
  using assms by (auto simp: serial_byte_idle serial_idle_byte_eq reader_inv_def Let_def)

lemma serial_stream:
  assumes "reader_inv r" "buf_idx r = 0" "list_all item_ok items"
  shows "\<exists>r' logs. serial_bytes (concat (map item_bytes items)) (r, s) =
    ret ((r', fold item_effect items s), logs) \<and> reader_inv r' \<and> buf_idx r' = 0"
  using assms
proof (induction items arbitrary: r s)
  case Nil
  then show ?case by simp
next
  case (Cons x items)
  have "\<exists>r1 l1. serial_bytes (item_bytes x) (r, s) = ret ((r1, item_effect x s), l1) \<and>
      reader_inv r1 \<and> buf_idx r1 = 0"
    using Cons.prems serial_packet serial_stray by (cases x) fastforce+
  then obtain r1 l1 where 1: "serial_bytes (item_bytes x) (r, s) = ret ((r1, item_effect x s), l1)"
    "reader_inv r1" "buf_idx r1 = 0" by blast
  have "list_all item_ok items" using Cons.prems(3) by simp
  from Cons.IH [OF 1(2,3) this, of "item_effect x s"] 1 show ?case
    by (auto simp: serial_bytes_append)
qed

section \<open>Reads\<close>

lemma serial_reads_ok:
  "reader_inv r \<Longrightarrow> \<exists>r' s' logs. serial_reads xs (r, s) = ret ((r', s'), logs) \<and> reader_inv r'"
proof (induction xs arbitrary: r s)
  case Nil
  then show ?case by simp
next
  case (Cons x xs)
  show ?case
  proof (cases x)
    case None
    obtain r1 l1 where 1: "serial_error r = (r1, l1)" "reader_inv r1"
      using reader_inv_error [OF Cons.prems] by (metis prod.collapse)
    from Cons.IH [OF 1(2), of s] None 1(1) show ?thesis by auto
  next
    case (Some y)
    then obtain c bs where x: "x = Some (c, bs)" by (cases y) simp
    obtain r1 s1 l1 where 1: "serial_read c bs (r, s) = ret ((r1, s1), l1)" "reader_inv r1"
      using serial_read_ok [OF Cons.prems] by blast
    from Cons.IH [OF 1(2), of s1] x 1(1) show ?thesis by auto
  qed
qed

text \<open>Where one DMA read ends and the next begins does not matter, nor does the raw dump.\<close>

text \<open>A property of reader states the dump clock does not touch.\<close>

lemma serial_byte_last_raw:
  "serial_byte c b (r\<lparr>last_raw := t\<rparr>, s) =
   map_option (\<lambda>((r', s'), l). ((r'\<lparr>last_raw := t\<rparr>, s'), l)) (serial_byte c b (r, s))"
  by (auto simp: serial_byte_def serial_idle_byte_def Let_def
      split: option.splits Option.bind_splits if_splits)

lemma serial_bytes_last_raw:
  "serial_bytes bs (r\<lparr>last_raw := t\<rparr>, s) =
   map_option (\<lambda>((r', s'), l). ((r'\<lparr>last_raw := t\<rparr>, s'), l)) (serial_bytes bs (r, s))"
  by (induction bs arbitrary: r s)
    (auto simp: serial_byte_last_raw map_option_case split: option.splits Option.bind_splits)

lemma serial_read_bytes:
  assumes "reader_inv r" "serial_bytes bs (r, s) = ret ((r1, s1), l1)"
  shows "\<exists>t logs. serial_read c bs (r, s) = ret ((r1\<lparr>last_raw := t\<rparr>, s1), logs)"
proof (cases "elapsed_ms c (last_raw r) \<ge> 2000")
  case True
  with assms(2) show ?thesis
    by (auto simp: serial_read_def write_hex_text serial_bytes_last_raw)
next
  case False
  with assms(2) have "serial_read c bs (r, s) = ret ((r1\<lparr>last_raw := last_raw r1\<rparr>, s1), l1)"
    by (simp add: serial_read_def)
  then show ?thesis by blast
qed

lemma serial_reads_concat:
  "reader_inv r \<Longrightarrow> serial_bytes (concat (map snd rds)) (r, s) = ret ((r1, s1), l1) \<Longrightarrow>
   \<exists>t logs. serial_reads (map Some rds) (r, s) = ret ((r1\<lparr>last_raw := t\<rparr>, s1), logs)"
proof (induction rds arbitrary: r s l1 r1)
  case Nil
  then have "serial_reads (map Some []) (r, s) = ret ((r1\<lparr>last_raw := last_raw r1\<rparr>, s1), [])" by simp
  then show ?case by blast
next
  case (Cons x rds)
  obtain c bs where x: "x = (c, bs)" by force
  obtain r2 s2 l2 where 2: "serial_bytes bs (r, s) = ret ((r2, s2), l2)" "reader_inv r2"
    using serial_bytes_ok [OF Cons.prems(1)] by blast
  obtain l3 where 3: "serial_bytes (concat (map snd rds)) (r2, s2) = ret ((r1, s1), l3)"
    using Cons.prems(2) 2(1) x by (auto simp: serial_bytes_append split: Option.bind_splits)
  obtain t logs where 4: "serial_read c bs (r, s) = ret ((r2\<lparr>last_raw := t\<rparr>, s2), logs)"
    using serial_read_bytes [OF Cons.prems(1) 2(1)] by blast
  have "reader_inv (r2\<lparr>last_raw := t\<rparr>)" using 2(2) by (simp add: reader_inv_def)
  moreover have "serial_bytes (concat (map snd rds)) (r2\<lparr>last_raw := t\<rparr>, s2) =
      ret ((r1\<lparr>last_raw := t\<rparr>, s1), l3)"
    using 3 by (simp add: serial_bytes_last_raw)
  ultimately obtain t' logs' where
    "serial_reads (map Some rds) (r2\<lparr>last_raw := t\<rparr>, s2) = ret ((r1\<lparr>last_raw := t'\<rparr>, s1), logs')"
    using Cons.IH by fastforce
  with 4 x show ?case by auto
qed

section \<open>Properties\<close>

text \<open>Whatever the DMA reads deliver, with UART errors in between, the reader never
  indexes outside its packet, skip or hex buffers: every run returns.\<close>

lemma uart_reads_total:
  "\<exists>r' s' logs. serial_reads rds (init_reader c, s) = ret ((r', s'), logs) \<and> buf_idx r' < 6 \<and>
     skip_n r' < 16"
  using serial_reads_ok [OF reader_inv_init, of rds c s] by (auto simp: reader_inv_def)

text \<open>C7: a stream of stray bytes and 6-byte packets, cut into DMA reads anywhere, moves the
  scoreboard exactly as its well-formed clock packets say, in order.\<close>

theorem uart_framing:
  assumes "list_all item_ok items" "concat (map snd rds) = concat (map item_bytes items)"
  shows "\<exists>r' logs. serial_reads (map Some rds) (init_reader c, s) =
    ret ((r', fold item_effect items s), logs)"
proof -
  have "buf_idx (init_reader c) = 0" by (simp add: init_reader_def)
  from serial_stream [OF reader_inv_init this assms(1), of s] obtain r' logs where
    "serial_bytes (concat (map snd rds)) (init_reader c, s) = ret ((r', fold item_effect items s), logs)"
    by (auto simp: assms(2))
  from serial_reads_concat [OF reader_inv_init this] show ?thesis by blast
qed

text \<open>A stray byte and two packets, the first one cut in two.\<close>

theorem uart_framing_witness:
  "\<exists>c r' logs s'. serial_reads [Some (c, [(c, 1), (c, 0x60), (c, 0), (c, 0)]),
       Some (c, [(c, 8), (c, 30), (c, 0), (c, 0x60), (c, 0), (c, 0), (c, 200), (c, 1), (c, 0)])]
     (init_reader c, default_scoreboard) = ret ((r', s'), logs) \<and> (minutes s', seconds s') = (8, 30)"
proof -
  define c where "c = \<lparr>now = 0, millis = (\<lambda>t. of_nat (t div 1000))\<rparr>"
  let ?p = "Packet [(c, 0x60), (c, 0), (c, 0), (c, 8), (c, 30), (c, 0)]"
  let ?q = "Packet [(c, 0x60), (c, 0), (c, 0), (c, 200), (c, 1), (c, 0)]"
  let ?items = "[Stray c 1, ?p, ?q]"
  let ?rds = "[(c, [(c, 1), (c, 0x60), (c, 0), (c, 0)]),
     (c, [(c, 8), (c, 30), (c, 0), (c, 0x60), (c, 0), (c, 0), (c, 200), (c, 1), (c, 0)])]"
  have "list_all item_ok ?items" "concat (map snd ?rds) = concat (map item_bytes ?items)" by simp_all
  from uart_framing [OF this, of c default_scoreboard]
  have "\<exists>r' logs. serial_reads (map Some ?rds) (init_reader c, default_scoreboard) =
    ret ((r', fold item_effect ?items default_scoreboard), logs)" .
  moreover have "fold item_effect ?items default_scoreboard = set_clock c 8 30 default_scoreboard"
    by (simp add: parse_clock_packet_def decode_consts Let_def)
  ultimately have "\<exists>r' logs. serial_reads (map Some ?rds) (init_reader c, default_scoreboard) =
      ret ((r', set_clock c 8 30 default_scoreboard), logs)" by (simp only:)
  moreover have "(minutes (set_clock c 8 30 default_scoreboard),
      seconds (set_clock c 8 30 default_scoreboard)) = (8, 30)" by (simp add: set_clock_eq)
  ultimately show ?thesis by (simp only: list.map) blast
qed

end
