(* ===== verification/Firmware.thy ===== *)
theory Firmware
  imports Board_Rest Uart_Reader
begin

text \<open>
  The hardware build down to the bytes of the UART: the transition system of theory \<open>System\<close>
  with \<open>read_serial\<close> in the place of its packet task.  Two abstract specifications say what it is
  for: the frames of the byte stream decide the time a phone sees, and the posted commands decide
  the scores.
\<close>

section \<open>Model\<close>

text \<open>What the UART delivered: bytes, and errors.\<close>

datatype uart_event = Byte u8 | Uart_error

text \<open>
  \<open>heard\<close> and \<open>posted\<close> are history: what the UART delivered and the commands the HTTP
  workers sent.  No step reads them.
\<close>

record firmware =
  core :: system
  uart :: reader
  heard :: "uart_event list"
  posted :: "command list"

definition fw_boot :: "clock \<Rightarrow> firmware" where
  "fw_boot c = \<lparr>core = boot, uart = init_reader c, heard = [], posted = []\<rparr>"

text \<open>
  The steps of \<open>System\<close> that are neither a packet nor a post: they leave the time and the
  moment it changed alone and put nothing into the channel.  Lemma \<open>own_steps_complete\<close> below:
  this is what the other rules of \<open>sys_step\<close> do.
\<close>

definition own_step :: "system \<Rightarrow> system \<Rightarrow> bool" where
  "own_step S S' \<longleftrightarrow> minutes (sb S') = minutes (sb S) \<and> seconds (sb S') = seconds (sb S) \<and>
     last_change (sb S') = last_change (sb S) \<and> length (queue S') \<le> length (queue S)"

text \<open>
  The byte loop of \<open>read_serial\<close> takes the mutex at most once per byte, at the end of a frame, so a
  byte is one step.  The raw dump at the start of a read only changes \<open>last_raw\<close>.
\<close>

inductive fw_step :: "firmware \<Rightarrow> firmware \<Rightarrow> bool" where
  fw_byte: "serial_byte c b (uart F, sb (core F)) = ret ((r, s), logs) \<Longrightarrow>
    fw_step F (F\<lparr>core := (core F)\<lparr>sb := s\<rparr>, uart := r, heard := heard F @ [Byte b]\<rparr>)"
| fw_error: "serial_error (uart F) = (r, logs) \<Longrightarrow>
    fw_step F (F\<lparr>uart := r, heard := heard F @ [Uart_error]\<rparr>)"
| fw_dump: "fw_step F (F\<lparr>uart := (uart F)\<lparr>last_raw := t\<rparr>\<rparr>)"
| fw_post: "length (queue (core F)) < CHANNEL_CAPACITY \<Longrightarrow>
    fw_step F (F\<lparr>core := (core F)\<lparr>queue := queue (core F) @ [cmd]\<rparr>, posted := posted F @ [cmd]\<rparr>)"
| fw_own: "sys_step Hardware (core F) S \<Longrightarrow> own_step (core F) S \<Longrightarrow> fw_step F (F\<lparr>core := S\<rparr>)"

lemma own_steps_complete:
  assumes "reachable Hardware S" "sys_step Hardware S S'"
  shows "own_step S S' \<or> (\<exists>cmd. S' = S\<lparr>queue := queue S @ [cmd]\<rparr>) \<or>
    (\<exists>pkt c. S' = S\<lparr>sb := task_op (Uart_packet pkt) c (sb S)\<rparr>)"
  using assms(2) hands_off_reachable [OF assms(1)]
proof (induction rule: sys_step.induct)
  case (task a S c)
  then show ?case by (cases a) (auto simp: own_step_def)
next
  case (lock S f g c)
  then have "follows_uart (sb S) (f c (sb S))" by simp
  then show ?case by (simp add: own_step_def follows_uart_def)
qed (auto simp: own_step_def dest!: write_snapshot_sb stream_timeout_sb)

section \<open>The frames of a stream\<close>

text \<open>
  What the stream says, without reader state: the six-byte groups that begin with the start byte,
  after a partial group \<open>acc\<close>; an error drops the partial group.
\<close>

fun frames :: "bytes \<Rightarrow> uart_event list \<Rightarrow> bytes list" where
  "frames acc [] = []"
| "frames acc (Uart_error # es) = frames [] es"
| "frames acc (Byte b # es) =
     (if acc = [] \<and> b \<noteq> 0x60 then frames [] es
      else if length acc = 5 then (acc @ [b]) # frames [] es
      else frames (acc @ [b]) es)"

fun partial :: "bytes \<Rightarrow> uart_event list \<Rightarrow> bytes" where
  "partial acc [] = acc"
| "partial acc (Uart_error # es) = partial [] es"
| "partial acc (Byte b # es) =
     (if acc = [] \<and> b \<noteq> 0x60 then partial [] es
      else if length acc = 5 then partial [] es
      else partial (acc @ [b]) es)"

lemma frames_append: "frames acc (es @ fs) = frames acc es @ frames (partial acc es) fs"
  by (induction acc es rule: frames.induct) auto

lemma partial_append: "partial acc (es @ fs) = partial (partial acc es) fs"
  by (induction acc es rule: partial.induct) auto

lemma length_partial: "length acc < 6 \<Longrightarrow> length (partial acc es) < 6"
  by (induction acc es rule: partial.induct) auto

text \<open>The time on the display: that of the last frame that is one, or the period the firmware boots with.\<close>

definition shown :: "uart_event list \<Rightarrow> u8 \<times> u8" where
  "shown es = last ((PERIOD_MIN, PERIOD_SEC) # List.map_filter parse_clock_packet (frames [] es))"


lemma shown_append:
  "shown (es @ fs) = last (shown es # List.map_filter parse_clock_packet (frames (partial [] es) fs))"
  by (simp add: shown_def frames_append map_filter_def)

section \<open>The reader holds the partial frame\<close>

definition reads_along :: "reader \<Rightarrow> uart_event list \<Rightarrow> bool" where
  "reads_along r es \<longleftrightarrow> reader_inv r \<and> take (buf_idx r) (packet_buf r) = partial [] es"

lemma reads_along_init: "reads_along (init_reader c) []"
  using reader_inv_init [of c] by (simp add: reads_along_def init_reader_def)

lemma reads_along_error: "reads_along r es \<Longrightarrow> reads_along (fst (serial_error r)) (es @ [Uart_error])"
  using reader_inv_error [of r] by (simp add: reads_along_def partial_append) (simp add: serial_error_def)

lemma reads_along_dump: "reads_along r es \<Longrightarrow> reads_along (r\<lparr>last_raw := t\<rparr>) es"
  by (simp add: reads_along_def reader_inv_def)

text \<open>One byte: the scoreboard moves exactly when the byte ends a frame.\<close>

lemma serial_byte_frames:
  assumes r: "reads_along r es" and step: "serial_byte c b (r, s) = ret ((r', s'), logs)"
  shows "reads_along r' (es @ [Byte b])"
    and "frames (partial [] es) [Byte b] = [] \<and> s' = s \<or>
      (\<exists>pkt. frames (partial [] es) [Byte b] = [pkt] \<and> s' = task_op (Uart_packet pkt) c s)"
proof -
  have inv: "reader_inv r" and buf: "take (buf_idx r) (packet_buf r) = partial [] es"
    using r by (simp_all add: reads_along_def)
  have len: "length (packet_buf r) = 6" and i: "buf_idx r < 6"
    using inv by (simp_all add: reader_inv_def)
  have inv': "reader_inv r'" using serial_byte_ok [OF inv, of c b s] step by auto
  have plen: "length (partial [] es) = buf_idx r" using buf len i by (metis length_take min.absorb2 less_imp_le)
  consider "buf_idx r = 0" | "0 < buf_idx r" "buf_idx r < 5" | "buf_idx r = 5" using i by linarith
  then have "take (buf_idx r') (packet_buf r') = partial (partial [] es) [Byte b] \<and>
    (frames (partial [] es) [Byte b] = [] \<and> s' = s \<or>
     (\<exists>pkt. frames (partial [] es) [Byte b] = [pkt] \<and> s' = task_op (Uart_packet pkt) c s))"
  proof cases
    case 1
    with step inv plen len show ?thesis
      by (auto simp: serial_byte_idle serial_idle_byte_eq Let_def take_Suc_conv_app_nth split: if_splits)
  next
    case 2
    with step inv plen len buf show ?thesis
      by (auto simp: serial_byte_mid take_Suc_conv_app_nth)
  next
    case 3
    have "(packet_buf r)[5 := b] = partial [] es @ [b]"
      using len buf 3 take_Suc_conv_app_nth [of 5 "(packet_buf r)[5 := b]"] by simp
    with 3 step inv plen show ?thesis
      by (auto simp: serial_byte_last Let_def split: option.splits if_splits)
  qed
  then show "reads_along r' (es @ [Byte b])"
    and "frames (partial [] es) [Byte b] = [] \<and> s' = s \<or>
      (\<exists>pkt. frames (partial [] es) [Byte b] = [pkt] \<and> s' = task_op (Uart_packet pkt) c s)"
    using inv' by (auto simp: reads_along_def partial_append)
qed

section \<open>Refinement\<close>

lemma serial_byte_packets:
  "serial_byte c b (r, s) = ret ((r', s'), logs) \<Longrightarrow> \<exists>pkt. s' = s \<or> s' = task_op (Uart_packet pkt) c s"
  by (rule exI [of _ "(packet_buf r)[buf_idx r := b]"])
    (auto simp: serial_byte_def put_def Let_def split: if_splits Option.bind_splits option.splits)

lemma core_packet: "reachable Hardware S \<Longrightarrow> reachable Hardware (S\<lparr>sb := task_op (Uart_packet pkt) c (sb S)\<rparr>)"
  by (rule reachable.step [OF _ task]) simp_all

lemma core_step:
  assumes "fw_step F F'" "reachable Hardware (core F)"
  shows "reachable Hardware (core F')"
  using assms
proof (induction rule: fw_step.induct)
  case (fw_byte c b F r s logs)
  then have "s = sb (core F) \<or> (\<exists>pkt. s = task_op (Uart_packet pkt) c (sb (core F)))"
    by (blast dest: serial_byte_packets)
  with fw_byte.prems core_packet show ?case by auto
next
  case (fw_post F cmd)
  then show ?case using reachable.step [OF _ post [of "core F" Hardware cmd]] by simp
qed (auto intro: reachable.step)

interpretation fw_sys: refinement "fw_boot c" fw_step core "reachable Hardware"
  by unfold_locales (auto simp: fw_boot_def reachable.start intro: core_step)

lemma fw_core_inv: "fw_step\<^sup>*\<^sup>* (fw_boot c) F \<Longrightarrow> sys_inv Hardware (core F)"
  by (rule fw_sys.inherits [OF reachable_inv])

section \<open>Invariant\<close>

definition shows_time :: "scoreboard \<Rightarrow> uart_event list \<Rightarrow> bool" where
  "shows_time s es \<longleftrightarrow> (minutes s, seconds s) = shown es"

definition fw_inv :: "firmware \<Rightarrow> bool" where
  "fw_inv F \<longleftrightarrow> reachable Hardware (core F) \<and> reads_along (uart F) (heard F) \<and>
     shows_time (sb (core F)) (heard F) \<and> keeps_score (core F) (posted F)"

lemma fw_inv_sys: "fw_inv F \<Longrightarrow> sys_inv Hardware (core F)"
  by (simp add: fw_inv_def reachable_inv)

lemma fw_inv_boot: "fw_inv (fw_boot c)"
  by (simp add: fw_inv_def fw_boot_def reachable.start reads_along_init keeps_score_boot)
    (simp add: shows_time_def shown_def boot_def default_scoreboard_def map_filter_simps)

lemma packet_time:
  "minutes (task_op (Uart_packet pkt) c s) =
     fst (last ((minutes s, seconds s) # List.map_filter parse_clock_packet [pkt]))"
  "seconds (task_op (Uart_packet pkt) c s) =
     snd (last ((minutes s, seconds s) # List.map_filter parse_clock_packet [pkt]))"
  by (auto simp: map_filter_simps set_clock_eq split: option.splits)

lemma shows_time_byte:
  assumes "reads_along r es" "serial_byte c b (r, s) = ret ((r', s'), logs)" "shows_time s es"
  shows "shows_time s' (es @ [Byte b])"
  using serial_byte_frames(2) [OF assms(1,2)] assms(3)
  by (auto simp: shows_time_def shown_append map_filter_simps packet_time simp del: frames.simps task_op.simps)

lemma fw_inv_step:
  assumes "fw_step F F'" "fw_inv F"
  shows "fw_inv F'"
  using assms
proof (induction rule: fw_step.induct)
  case (fw_byte c b F r s logs)
  note rd = fw_byte.prems [unfolded fw_inv_def]
  have "home s = home (sb (core F))" "away s = away (sb (core F))"
    using serial_byte_packets [OF fw_byte.hyps] by (auto simp del: task_op.simps)
  then have "keeps_score ((core F)\<lparr>sb := s\<rparr>) (posted F)" using rd by (auto elim: keeps_score_cong)
  with rd serial_byte_frames(1) [OF _ fw_byte.hyps] shows_time_byte [OF _ fw_byte.hyps]
    core_step [OF fw_step.fw_byte [OF fw_byte.hyps]]
  show ?case by (simp add: fw_inv_def)
next
  case (fw_error F r logs)
  have "r = fst (serial_error (uart F))" using fw_error.hyps by simp
  with fw_error.prems reads_along_error show ?case
    by (simp add: fw_inv_def shows_time_def shown_append map_filter_simps)
next
  case (fw_dump F t)
  then show ?case by (simp add: fw_inv_def reads_along_dump)
next
  case (fw_post F cmd)
  with core_step [OF fw_step.fw_post] keeps_score_post show ?case by (simp add: fw_inv_def)
next
  case (fw_own F S)
  with fw_inv_sys [OF fw_own.prems] sys_step_score [of Hardware "core F" S "posted F"] core_step [OF fw_step.fw_own] show ?case
    by (simp add: fw_inv_def own_step_def shows_time_def)
qed

lemma fw_reaches_inv: "fw_step\<^sup>*\<^sup>* (fw_boot c) F \<Longrightarrow> fw_inv F"
  by (induction rule: rtranclp_induct) (auto intro: fw_inv_boot fw_inv_step)

section \<open>Running board_task to the end of its work\<close>

lemma board_step_own:
  assumes "board_step Hardware c S S'" "reachable Hardware S"
  shows "own_step S S'"
  using assms(1) hands_off_reachable [OF assms(2)]
proof (induction rule: board_step.induct)
  case (b_lock S f g)
  then have "follows_uart (sb S) (f c (sb S))" by simp
  then show ?case by (simp add: own_step_def follows_uart_def)
qed (simp_all add: own_step_def)

interpretation fw_host: board_host Hardware core "\<lambda>F S. F\<lparr>core := S\<rparr>" fw_step fw_inv
proof unfold_locales
  fix F :: firmware and c S
  assume "fw_inv F" "board_step Hardware c (core F) S"
  then show "fw_step F (F\<lparr>core := S\<rparr>)"
    using board_step_own by (intro fw_own) (simp_all add: board_step_sys fw_inv_def)
qed (simp, simp, simp, simp add: fw_inv_def, rule fw_inv_step)

section \<open>Hearing bytes\<close>

lemma fw_hears:
  "fw_inv F \<Longrightarrow> \<exists>F'. fw_step\<^sup>*\<^sup>* F F' \<and> heard F' = heard F @ map Byte bs \<and> posted F' = posted F \<and>
     prog (core F') = prog (core F) \<and> queue (core F') = queue (core F) \<and> streams (core F') = streams (core F)"
proof (induction bs arbitrary: F)
  case Nil
  then show ?case by auto
next
  case (Cons b bs)
  have "reader_inv (uart F)" using Cons.prems by (simp add: fw_inv_def reads_along_def)
  then obtain r s logs where "serial_byte some_clock b (uart F, sb (core F)) = ret ((r, s), logs)"
    using serial_byte_ok by blast
  from fw_byte [OF this] have
    1: "fw_step F (F\<lparr>core := (core F)\<lparr>sb := s\<rparr>, uart := r, heard := heard F @ [Byte b]\<rparr>)"
    (is "fw_step F ?F") .
  from Cons.IH [OF fw_inv_step [OF 1 Cons.prems]] obtain F' where
    "fw_step\<^sup>*\<^sup>* ?F F'" "heard F' = heard ?F @ map Byte bs" "posted F' = posted ?F"
    "prog (core F') = prog (core ?F)" "queue (core F') = queue (core ?F)"
    "streams (core F') = streams (core ?F)" by blast
  with 1 show ?case by (intro exI [of _ F']) (auto intro: converse_rtranclp_into_rtranclp)
qed

text \<open>A phone connects and gets its first document.\<close>

lemma fw_connects:
  assumes "streams (core F) = []"
  shows "\<exists>F' st. fw_step\<^sup>*\<^sup>* F F' \<and> heard F' = heard F \<and> posted F' = posted F \<and>
    streams (core F') = [st] \<and> phase st = Wait \<and> stream_changed (sb (core F')) st = None"
proof -
  let ?s = "refresh_running some_clock (sb (core F))"
  let ?t = "refresh_running some_clock ?s"
  define st0 where "st0 = \<lparr>seen = sends ?s, phase = Snapshot, docs = []\<rparr>"
  define st1 where "st1 = st0\<lparr>docs := [status_of Hardware some_clock ?t], phase := Wait\<rparr>"
  let ?S1 = "(core F)\<lparr>sb := ?s\<rparr>" and ?S2 = "(core F)\<lparr>sb := ?s, streams := [st0]\<rparr>"
    and ?S3 = "(core F)\<lparr>sb := ?t, streams := [st1]\<rparr>"
  have "sys_step Hardware (core F) ?S1"
    using task [of Hardware Refresh "core F" some_clock] by simp
  moreover have "sys_step Hardware ?S1 ?S2"
    using connect [of ?S1 st0 Hardware] assms
    by (simp add: open_stream_def MAX_EVENT_STREAMS_def st0_def)
  moreover have "sys_step Hardware ?S2 ?S3"
    using snapshot [of ?S2 "[]" st0 "[]" Hardware some_clock ?t st1]
    by (simp add: st0_def st1_def write_snapshot_def Let_def)
  ultimately have "fw_step F (F\<lparr>core := ?S1\<rparr>)" "fw_step (F\<lparr>core := ?S1\<rparr>) (F\<lparr>core := ?S2\<rparr>)"
    "fw_step (F\<lparr>core := ?S2\<rparr>) (F\<lparr>core := ?S3\<rparr>)"
    using fw_own [of F ?S1] fw_own [of "F\<lparr>core := ?S1\<rparr>" ?S2] fw_own [of "F\<lparr>core := ?S2\<rparr>" ?S3]
    by (simp_all add: own_step_def)
  then have "fw_step\<^sup>*\<^sup>* F (F\<lparr>core := ?S3\<rparr>)"
    by (rule rtranclp.rtrancl_into_rtrancl [OF rtranclp.rtrancl_into_rtrancl [OF r_into_rtranclp]])
  then show ?thesis
    by (intro exI [of _ "F\<lparr>core := ?S3\<rparr>"] exI [of _ st1])
      (simp add: st1_def st0_def stream_changed_def refresh_twice_silent)
qed

section \<open>Properties\<close>

text \<open>C5: the firmware down to the bytes of the UART refines the task system: whatever bytes and
  UART errors arrive and however the tasks interleave, the scoreboard, channel and streams are in a
  state the task system reaches with whole packets, and the next byte can be taken: the reader
  never indexes outside its buffers.\<close>

theorem firmware_refines_system:
  assumes "fw_step\<^sup>*\<^sup>* (fw_boot c) F"
  shows "reachable Hardware (core F) \<and>
    (\<exists>r s logs. serial_byte d b (uart F, sb (core F)) = ret ((r, s), logs))"
proof
  show "reachable Hardware (core F)" using assms by (rule fw_sys.reaches)
  have "reader_inv (uart F)" using fw_reaches_inv [OF assms] by (simp add: fw_inv_def reads_along_def)
  then show "\<exists>r s logs. serial_byte d b (uart F, sb (core F)) = ret ((r, s), logs)"
    using serial_byte_ok by blast
qed

theorem firmware_refines_system_witness:
  "\<exists>F. fw_step\<^sup>*\<^sup>* (fw_boot some_clock) F \<and> heard F = map Byte [0x60, 0, 0, 8] \<and>
     reachable Hardware (core F) \<and>
     (\<exists>r s logs. serial_byte some_clock 30 (uart F, sb (core F)) = ret ((r, s), logs))"
proof -
  obtain F where F: "fw_step\<^sup>*\<^sup>* (fw_boot some_clock) F" "heard F = map Byte [0x60, 0, 0, 8]"
    using fw_hears [OF fw_inv_boot [of some_clock], of "[0x60, 0, 0, 8]"] by (auto simp: fw_boot_def)
  with firmware_refines_system [OF F(1)] show ?thesis by blast
qed

text \<open>C2: what a phone shows is what the UART said: in every reachable state of the firmware, a
  stream that waits and has no signal has told its phone the time of the last frame among all
  bytes heard so far, whatever was in between them and however the tasks interleaved; 07:30 before
  the first frame.\<close>

theorem phone_shows_last_frame:
  assumes "fw_step\<^sup>*\<^sup>* (fw_boot c) F"
    and "st \<in> set (streams (core F))" "phase st = Wait" "stream_changed (sb (core F)) st = None"
  shows "\<exists>d ds. docs st = d # ds \<and> st_time d = (case shown (heard F) of (m, sec) \<Rightarrow> time_str m sec)"
proof -
  have inv: "fw_inv F" using assms(1) by (rule fw_reaches_inv)
  then have "shown (heard F) = (minutes (sb (core F)), seconds (sb (core F)))"
    by (simp add: fw_inv_def shows_time_def)
  moreover have "stream_inv Hardware (sb (core F)) st"
    using fw_core_inv [OF assms(1)] assms(2) by (auto simp: sys_inv_def list_all_iff)
  ultimately show ?thesis
    using assms(3,4) by (auto simp: stream_inv_def stream_changed_def doc_shows_def visible_of_def split: if_splits)
qed

theorem phone_shows_last_frame_witness:
  "\<exists>F st d ds. fw_step\<^sup>*\<^sup>* (fw_boot some_clock) F \<and> heard F = map Byte [7, 0x60, 0, 0, 8, 15, 0, 0x60] \<and>
     streams (core F) = [st] \<and> docs st = d # ds \<and> st_time d = [48, 56, 58, 49, 53]"
proof -
  obtain F where F: "fw_step\<^sup>*\<^sup>* (fw_boot some_clock) F" "heard F = map Byte [7, 0x60, 0, 0, 8, 15, 0, 0x60]"
      "streams (core F) = []"
    using fw_hears [OF fw_inv_boot [of some_clock], of "[7, 0x60, 0, 0, 8, 15, 0, 0x60]"]
    by (auto simp: fw_boot_def boot_def)
  from fw_connects [OF F(3)] obtain G st where
    G: "fw_step\<^sup>*\<^sup>* F G" "heard G = heard F" "streams (core G) = [st]" "phase st = Wait"
      "stream_changed (sb (core G)) st = None" by blast
  have G0: "fw_step\<^sup>*\<^sup>* (fw_boot some_clock) G" using F(1) G(1) by (rule rtranclp_trans)
  have "shown (heard G) = (8, 15)"
    by (simp add: G(2) F(2) shown_def map_filter_simps parse_clock_packet_def decode_consts Let_def)
  with phone_shows_last_frame [OF G0 _ G(4,5)] G(3) have
    "\<exists>d ds. docs st = d # ds \<and> st_time d = time_str 8 15" by simp
  then show ?thesis using G0 G(2,3) F(2) by (fastforce simp: time_str_def Let_def)
qed

text \<open>What the buttons did: whenever \<open>board_task\<close> is between two commands and the channel is
  empty, the scores the firmware stores, and the scores its pulses have put on the physical
  scoreboard, are those of a score keeper who took every command posted since boot in order,
  whatever bytes, streams and other tasks came in between.\<close>

lemma scores_follow_commands:
  assumes "fw_step\<^sup>*\<^sup>* (fw_boot c) F" "prog (core F) = Done l" "queue (core F) = []"
  shows "(uint (home (sb (core F))), uint (away (sb (core F)))) = fold score_spec (posted F) (0, 0) \<and>
    replay (trace (core F)) (0, 0) = fold score_spec (posted F) (0, 0)"
proof -
  have "keeps_score (core F) (posted F)" using fw_reaches_inv [OF assms(1)] by (simp add: fw_inv_def)
  moreover have "replay (trace (core F)) (0, 0) = (uint (home (sb (core F))), uint (away (sb (core F))))"
    using fw_core_inv [OF assms(1)] assms(2) by (simp add: sys_inv_def)
  ultimately show ?thesis using assms(2,3) by (auto simp: keeps_score_def)
qed

lemma fw_posts:
  "length (queue (core F)) + length cmds \<le> CHANNEL_CAPACITY \<Longrightarrow>
   fw_step\<^sup>*\<^sup>* F (F\<lparr>core := (core F)\<lparr>queue := queue (core F) @ cmds\<rparr>, posted := posted F @ cmds\<rparr>)"
proof (induction cmds arbitrary: F)
  case Nil
  then show ?case by simp
next
  case (Cons cmd cmds)
  let ?F = "F\<lparr>core := (core F)\<lparr>queue := queue (core F) @ [cmd]\<rparr>, posted := posted F @ [cmd]\<rparr>"
  have "fw_step F ?F" using fw_post Cons.prems by simp
  moreover have "fw_step\<^sup>*\<^sup>* ?F (?F\<lparr>core := (core ?F)\<lparr>queue := queue (core ?F) @ cmds\<rparr>, posted := posted ?F @ cmds\<rparr>)"
    by (rule Cons.IH) (use Cons.prems in simp)
  ultimately show ?case by (simp add: converse_rtranclp_into_rtranclp)
qed

lemma fw_rests:
  assumes "fw_step\<^sup>*\<^sup>* (fw_boot c) F"
  obtains S l where "fw_step\<^sup>*\<^sup>* F (F\<lparr>core := S\<rparr>)" "fw_inv (F\<lparr>core := S\<rparr>)" "prog S = Done l" "queue S = []"
    "\<not> has_pending l"
  using fw_host.rests [OF fw_reaches_inv [OF assms]] by (metis at_rest_def)

lemma scores_follow_commands_witness:
  "\<exists>F l. fw_step\<^sup>*\<^sup>* (fw_boot some_clock) F \<and> prog (core F) = Done l \<and>
     posted F = [HomeDec, HomeInc, LedOn, HomeInc, AwayInc] \<and>
     (uint (home (sb (core F))), uint (away (sb (core F)))) = (2, 1) \<and> replay (trace (core F)) (0, 0) = (2, 1)"
proof -
  let ?cmds = "[HomeDec, HomeInc, LedOn, HomeInc, AwayInc]"
  let ?F = "(fw_boot some_clock)\<lparr>core := boot\<lparr>queue := ?cmds\<rparr>, posted := ?cmds\<rparr>"
  have F: "fw_step\<^sup>*\<^sup>* (fw_boot some_clock) ?F"
    using fw_posts [of "fw_boot some_clock" ?cmds] by (simp add: fw_boot_def boot_def CHANNEL_CAPACITY_def)
  from fw_rests [OF F] obtain S l where
    S: "fw_step\<^sup>*\<^sup>* ?F (?F\<lparr>core := S\<rparr>)" "prog S = Done l" "queue S = []" by metis
  have "fw_step\<^sup>*\<^sup>* (fw_boot some_clock) (?F\<lparr>core := S\<rparr>)" using F S(1) by (rule rtranclp_trans)
  with scores_follow_commands [OF this, of l] S(2,3) show ?thesis
    by (intro exI [of _ "?F\<lparr>core := S\<rparr>"] exI [of _ l]) simp
qed

text \<open>No command is lost or stuck: from every reachable state of the firmware \<open>board_task\<close>
  alone can finish what it is doing, take every command in the channel, end a set-timer train and
  come to rest, without another byte, and the scores then are what all commands posted so far ask
  for.\<close>

lemma commands_take_effect:
  assumes "fw_step\<^sup>*\<^sup>* (fw_boot c) F"
  shows "\<exists>F' l. fw_step\<^sup>*\<^sup>* F F' \<and> heard F' = heard F \<and> prog (core F') = Done l \<and> \<not> has_pending l \<and>
    queue (core F') = [] \<and>
    (uint (home (sb (core F'))), uint (away (sb (core F')))) = fold score_spec (posted F) (0, 0)"
proof -
  obtain S l where S: "fw_step\<^sup>*\<^sup>* F (F\<lparr>core := S\<rparr>)" "fw_inv (F\<lparr>core := S\<rparr>)" "prog S = Done l" "queue S = []"
    "\<not> has_pending l" using assms by (rule fw_rests)
  then have "keeps_score S (posted F)" by (simp add: fw_inv_def)
  with S show ?thesis by (intro exI [of _ "F\<lparr>core := S\<rparr>"] exI [of _ l]) (auto simp: keeps_score_def)
qed

lemma commands_take_effect_witness:
  "\<exists>F F' l. fw_step\<^sup>*\<^sup>* (fw_boot some_clock) F \<and> queue (core F) = [HomeInc, SetTimer 20 0] \<and>
     fw_step\<^sup>*\<^sup>* F F' \<and> prog (core F') = Done l \<and> \<not> has_pending l \<and>
     (uint (home (sb (core F'))), uint (away (sb (core F')))) = (1, 0)"
proof -
  let ?cmds = "[HomeInc, SetTimer 20 0]"
  let ?F = "(fw_boot some_clock)\<lparr>core := boot\<lparr>queue := ?cmds\<rparr>, posted := ?cmds\<rparr>"
  have F: "fw_step\<^sup>*\<^sup>* (fw_boot some_clock) ?F"
    using fw_posts [of "fw_boot some_clock" ?cmds] by (simp add: fw_boot_def boot_def CHANNEL_CAPACITY_def)
  have q: "queue (core ?F) = ?cmds" "posted ?F = ?cmds" by simp_all
  from commands_take_effect [OF F] obtain F' l where
    "fw_step\<^sup>*\<^sup>* ?F F'" "prog (core F') = Done l" "\<not> has_pending l"
    "(uint (home (sb (core F'))), uint (away (sb (core F')))) = (1, 0)" by auto
  with F q(1) show ?thesis by blast
qed

end
