(* ===== verification/Led.thy ===== *)
theory Led
  imports System
begin

text \<open>
  The onboard LED: \<open>heartbeat_task\<close> of \<open>src/main.rs\<close> beside the rest of the firmware.  Both it
  and \<open>board_task\<close> drive the lamp (CYW43 gpio 0), and the flag \<open>led\<close> that the UI sets decides
  which of them wins.  A heartbeat step ends where the task waits: for a mutex or a timer.
\<close>

section \<open>Model\<close>

text \<open>
  \<open>Hb_top\<close>: about to look at the flag; \<open>Hb_hold\<close>, \<open>Hb_on\<close>: about to light the lamp because
  the flag is set, for the blink; \<open>Hb_look\<close>: about to look again; \<open>Hb_off\<close>: about to put the lamp
  out; \<open>Hb_wait\<close>: in a wait of so many ms, and what comes after it.
\<close>

datatype beat_pc = Hb_top | Hb_hold | Hb_on | Hb_look | Hb_off | Hb_wait nat beat_pc

fun heartbeat :: "clock \<Rightarrow> beat_pc \<times> scoreboard \<times> bool \<Rightarrow> beat_pc \<times> scoreboard \<times> bool" where
  "heartbeat c (Hb_top, s, lamp) =
     (let s = refresh_running c s in (if led s then Hb_hold else Hb_on, s, lamp))"
| "heartbeat c (Hb_hold, s, lamp) = (Hb_wait 200 Hb_top, s, True)"
| "heartbeat c (Hb_on, s, lamp) = (Hb_wait 80 Hb_look, s, True)"
| "heartbeat c (Hb_look, s, lamp) = (if \<not> led s then Hb_off else Hb_wait 920 Hb_top, s, lamp)"
| "heartbeat c (Hb_off, s, lamp) = (Hb_wait 920 Hb_top, s, False)"
| "heartbeat c (Hb_wait ms pc, s, lamp) = (pc, s, lamp)"

record led_system =
  fw :: system
  lamp :: bool
  hb :: beat_pc

definition led_boot :: led_system where
  "led_boot = \<lparr>fw = boot, lamp = False, hb = Hb_top\<rparr>"

text \<open>The lamp after effects of \<open>board_task\<close>.\<close>

fun lamp_after :: "effect list \<Rightarrow> bool \<Rightarrow> bool" where
  "lamp_after [] x = x"
| "lamp_after (GpioSet v # es) x = lamp_after es v"
| "lamp_after (e # es) x = lamp_after es x"

definition beat :: "clock \<Rightarrow> led_system \<Rightarrow> led_system" where
  "beat c T = (case heartbeat c (hb T, sb (fw T), lamp T) of
     (pc, s, x) \<Rightarrow> \<lparr>fw = (fw T)\<lparr>sb := s\<rparr>, lamp = x, hb = pc\<rparr>)"

inductive led_step :: "build \<Rightarrow> led_system \<Rightarrow> led_system \<Rightarrow> bool" for b where
  firmware: "sys_step b (fw T) S' \<Longrightarrow>
    led_step b T (T\<lparr>fw := S', lamp := lamp_after (drop (length (trace (fw T))) (trace S')) (lamp T)\<rparr>)"
| heart: "led_step b T (beat c T)"

inductive led_reachable :: "build \<Rightarrow> led_system \<Rightarrow> bool" for b where
  led_start: "led_reachable b led_boot"
| led_next: "led_reachable b T \<Longrightarrow> led_step b T T' \<Longrightarrow> led_reachable b T'"

section \<open>What board_task promises about the lamp\<close>

text \<open>
  From flag \<open>v\<close> and lamp \<open>x\<close> the program ends with the lamp lit if the flag is set then, as long
  as nobody else touches flag or lamp.
\<close>

primrec lit :: "board_prog \<Rightarrow> bool \<Rightarrow> bool \<Rightarrow> bool" where
  "lit (Done l) v x \<longleftrightarrow> (v \<longrightarrow> x)"
| "lit (Emit e p) v x \<longleftrightarrow> lit p v (lamp_after [e] x)"
| "lit (Lock f g) v x \<longleftrightarrow> (\<forall>c s. led s = v \<longrightarrow> lit (g c s) (led (f c s)) x)"

lemma lit_mono: "lit p v x \<Longrightarrow> lit p v True"
proof (induction p arbitrary: v x)
  case (Emit e p)
  then show ?case by (cases e) auto
next
  case (Lock f g)
  show ?case
    unfolding lit.simps
  proof (intro allI impI)
    fix c and s :: scoreboard
    assume "led s = v"
    with Lock.prems have "lit (g c s) (led (f c s)) x" by simp
    from Lock.IH [OF rangeI [of g c] rangeI [of "g c" s] this] show "lit (g c s) (led (f c s)) True" .
  qed
qed auto

lemma lit_pulse [simp]: "lit (pulse p k) v x = lit k v x"
  by (simp add: pulse_def)

lemma lit_blink [simp]: "lit (blink_onboard h k) v x = lit k v (if h then x else False)"
  by (simp add: blink_onboard_def)

lemma led_fields [simp]:
  "led (publish s) = led s" "led (refresh_running c s) = led s" "led (set_clock c m sec s) = led s"
  "led (snd (start_stop_pulse_for c want s)) = led s"
  by (simp_all add: start_stop_pulse_for_state set_clock_eq)

lemma lit_min_sec [simp]: "lit (min_sec_pulse l) v x = (v \<longrightarrow> x)"
  by (simp add: min_sec_pulse_def)

lemma lit_iteration: "(v \<longrightarrow> x) \<Longrightarrow> lit (iteration b r l) v x"
proof (cases r)
  case None
  assume "v \<longrightarrow> x"
  with None show ?thesis by (auto simp: iteration_def pending_step_def split: build.split)
next
  case (Some cmd)
  assume "v \<longrightarrow> x"
  with Some show ?thesis
    by (cases cmd)
      (auto simp: iteration_def handle_led_def handle_start_stop_def handle_home_inc_def
        handle_home_dec_def handle_away_inc_def handle_away_dec_def handle_scores_zero_def
        handle_reset_def handle_set_timer_def handle_aux_def Let_def split: build.split)
qed

section \<open>Invariant\<close>

lemma lit_firmware:
  "sys_step b S S' \<Longrightarrow> lit (prog S) (led (sb S)) x \<Longrightarrow>
   lit (prog S') (led (sb S')) (lamp_after (drop (length (trace S)) (trace S')) x)"
proof (induction rule: sys_step.induct)
  case (snapshot S xs st ys c s' st')
  then show ?case by (auto dest!: write_snapshot_sb)
next
  case (timeout S xs st ys c s' st')
  then show ?case by (auto dest!: stream_timeout_sb)
qed (simp_all add: lit_iteration)

text \<open>
  The heartbeat only gets to the point where it may put the lamp out when the lamp is where
  \<open>board_task\<close> wants it.
\<close>

definition beat_points :: "beat_pc set" where
  "beat_points = {Hb_top, Hb_hold, Hb_on, Hb_look, Hb_off, Hb_wait 200 Hb_top, Hb_wait 80 Hb_look, Hb_wait 920 Hb_top}"

definition led_inv :: "build \<Rightarrow> led_system \<Rightarrow> bool" where
  "led_inv b T \<longleftrightarrow> reachable b (fw T) \<and> lit (prog (fw T)) (led (sb (fw T))) True \<and> hb T \<in> beat_points \<and>
     (hb T \<in> {Hb_wait 200 Hb_top, Hb_wait 80 Hb_look, Hb_look, Hb_off} \<longrightarrow>
       lit (prog (fw T)) (led (sb (fw T))) (lamp T))"

lemma led_inv_boot: "led_inv b led_boot"
  by (simp add: led_inv_def led_boot_def reachable.start beat_points_def) (simp add: boot_def)

lemma led_inv_beat:
  assumes "led_inv b T"
  shows "led_inv b (beat c T)"
proof -
  have "reachable b ((fw T)\<lparr>sb := refresh_running c (sb (fw T))\<rparr>)"
    using reachable.step [OF _ task [of b Refresh "fw T" c]] assms by (simp add: led_inv_def)
  with assms show ?thesis
    by (cases "hb T") (auto simp: led_inv_def beat_points_def beat_def Let_def)
qed

lemma led_inv_step:
  assumes "led_step b T T'" "led_inv b T"
  shows "led_inv b T'"
  using assms
proof (induction rule: led_step.induct)
  case (firmware T S')
  have "lit (prog S') (led (sb S')) True"
    using lit_firmware [OF firmware.hyps, of True] firmware.prems lit_mono by (auto simp: led_inv_def)
  with lit_firmware [OF firmware.hyps, of "lamp T"] firmware reachable.step [of b "fw T" S'] show ?case
    by (simp add: led_inv_def)
qed (rule led_inv_beat)

lemma led_reachable_inv: "led_reachable b T \<Longrightarrow> led_inv b T"
  by (induction rule: led_reachable.induct) (auto intro: led_inv_boot led_inv_step)

text \<open>The heartbeat beside the firmware adds nothing the firmware could not do.\<close>

lemma fw_beat: "fw (beat c T) = fw T \<or> fw (beat c T) = (fw T)\<lparr>sb := task_op Refresh c (sb (fw T))\<rparr>"
  by (cases "hb T") (simp_all add: beat_def Let_def)

interpretation led_sys: refinement led_boot "led_step b" fw "reachable b"
proof unfold_locales
  show "reachable b (fw led_boot)" by (simp add: led_boot_def reachable.start)
next
  fix T T'
  assume "led_step b T T'" "reachable b (fw T)"
  then show "reachable b (fw T')"
  proof (induction rule: led_step.induct)
    case (heart T c)
    then show ?case using fw_beat [of c T] reachable.step [OF _ task [of b Refresh "fw T" c]] by auto
  qed (auto intro: reachable.step)
qed

section \<open>While nobody turns the LED off\<close>

text \<open>With the flag set the program leaves it set, and never puts the lamp out.\<close>

primrec holds :: "board_prog \<Rightarrow> bool" where
  "holds (Done l) \<longleftrightarrow> True"
| "holds (Emit e p) \<longleftrightarrow> e \<noteq> GpioSet False \<and> holds p"
| "holds (Lock f g) \<longleftrightarrow> (\<forall>c s. led s \<longrightarrow> led (f c s) \<and> holds (g c s))"

lemma holds_pulse [simp]: "holds (pulse p k) = holds k"
  by (simp add: pulse_def)

lemma holds_blink [simp]: "holds (blink_onboard True k) = holds k"
  by (simp add: blink_onboard_def)

lemma holds_iteration: "r \<noteq> Some LedOff \<Longrightarrow> holds (iteration b r l)"
proof (cases r)
  case None
  then show ?thesis by (auto simp: iteration_def pending_step_def min_sec_pulse_def split: build.split)
next
  case (Some cmd)
  assume "r \<noteq> Some LedOff"
  with Some show ?thesis
    by (cases cmd)
      (auto simp: iteration_def handle_led_def handle_start_stop_def handle_home_inc_def
        handle_home_dec_def handle_away_inc_def handle_away_dec_def handle_scores_zero_def
        handle_reset_def handle_set_timer_def handle_aux_def Let_def split: build.split)
qed

definition stays_on :: "system \<Rightarrow> bool" where
  "stays_on S \<longleftrightarrow> led (sb S) \<and> holds (prog S) \<and> LedOff \<notin> set (queue S)"

lemma stays_on_step:
  "sys_step b S S' \<Longrightarrow> stays_on S \<Longrightarrow> LedOff \<notin> set (queue S') \<Longrightarrow>
   stays_on S' \<and> (x \<longrightarrow> lamp_after (drop (length (trace S)) (trace S')) x)"
proof (induction rule: sys_step.induct)
  case (emit S e p)
  then show ?case by (cases e) (auto simp: stays_on_def)
next
  case (snapshot S xs st ys c s' st')
  then show ?case by (auto simp: stays_on_def dest!: write_snapshot_sb)
next
  case (timeout S xs st ys c s' st')
  then show ?case by (auto simp: stays_on_def dest!: stream_timeout_sb)
next
  case (recv S l cmd cmds)
  then show ?case by (auto simp: stays_on_def intro!: holds_iteration)
qed (auto simp: stays_on_def holds_iteration)

text \<open>A run of all tasks in which no LED-off command is in the channel, with its heartbeat steps counted.\<close>

inductive on_run :: "build \<Rightarrow> nat \<Rightarrow> led_system \<Rightarrow> led_system \<Rightarrow> bool" for b where
  on_start: "LedOff \<notin> set (queue (fw T)) \<Longrightarrow> on_run b 0 T T"
| on_firmware: "on_run b n T U \<Longrightarrow> sys_step b (fw U) S' \<Longrightarrow> LedOff \<notin> set (queue S') \<Longrightarrow>
    on_run b n T (U\<lparr>fw := S', lamp := lamp_after (drop (length (trace (fw U))) (trace S')) (lamp U)\<rparr>)"
| on_heart: "on_run b n T U \<Longrightarrow> on_run b (Suc n) T (beat c U)"

text \<open>How many heartbeat steps it takes to light a dark lamp.\<close>

fun dark_steps :: "beat_pc \<Rightarrow> nat" where
  "dark_steps Hb_off = 4"
| "dark_steps (Hb_wait ms pc) = 3"
| "dark_steps Hb_top = 2"
| "dark_steps _ = 1"

definition lit_within :: "nat \<Rightarrow> led_system \<Rightarrow> bool" where
  "lit_within n T \<longleftrightarrow> lamp T \<and> hb T \<noteq> Hb_off \<or>
     hb T \<in> {Hb_off, Hb_wait 920 Hb_top, Hb_top, Hb_hold, Hb_on} \<and> (hb T = Hb_off \<longrightarrow> lamp T) \<and>
     n + dark_steps (hb T) \<le> 4"

lemma lit_within_beat:
  assumes "lit_within n T" "led (sb (fw T))" "hb T \<in> beat_points"
  shows "lit_within (Suc n) (beat c T) \<and> hb (beat c T) \<in> beat_points"
  using assms by (cases "hb T") (auto simp: lit_within_def beat_points_def beat_def Let_def)

lemma on_run_lit:
  "on_run b n T U \<Longrightarrow> stays_on (fw T) \<Longrightarrow> lit_within 0 T \<Longrightarrow> hb T \<in> beat_points \<Longrightarrow>
   stays_on (fw U) \<and> lit_within n U \<and> hb U \<in> beat_points"
proof (induction rule: on_run.induct)
  case (on_firmware n T U S')
  then have "stays_on (fw U)" "lit_within n U" "hb U \<in> beat_points" by simp_all
  with stays_on_step [OF on_firmware.hyps(2), of "lamp U"] on_firmware.hyps(3) show ?case
    by (auto simp: lit_within_def)
next
  case (on_heart n T U c)
  then have "stays_on (fw U)" "lit_within n U" "hb U \<in> beat_points" by simp_all
  moreover have "stays_on (fw (beat c U))"
    using \<open>stays_on (fw U)\<close> by (cases "hb U") (auto simp: beat_def stays_on_def Let_def)
  ultimately show ?case using lit_within_beat [of n U c] by (simp add: stays_on_def)
qed simp

text \<open>C29: once \<open>board_task\<close> is done with turning the LED on, and as long as no LED-off command comes,
  the flag stays set and the lamp is lit, whatever commands, pulses and other tasks run, except
  for one dark wait: if the heartbeat had already decided to put the lamp out, the lamp is dark
  until its fourth step from then on at the latest, that is through the 920 ms of its loop.  From
  then on the lamp is solid.\<close>

theorem led_solid:
  assumes "led_reachable b T" "prog (fw T) = Done l" "led (sb (fw T))" "on_run b n T U"
  shows "led (sb (fw U)) \<and>
    (lamp U = True \<or> n < 4 \<and> hb U \<in> {Hb_wait 920 Hb_top, Hb_top, Hb_hold, Hb_on})"
proof -
  have i: "led_inv b T" using assms(1) by (rule led_reachable_inv)
  then have hb: "hb T \<in> beat_points" by (simp add: led_inv_def)
  have "lit_within 0 T"
    using i assms(2,3) by (auto simp: led_inv_def lit_within_def beat_points_def)
  moreover have "stays_on (fw T)"
  proof -
    have "on_run b n T U \<Longrightarrow> LedOff \<notin> set (queue (fw T))" by (induction rule: on_run.induct) auto
    with assms(2-4) show ?thesis by (simp add: stays_on_def)
  qed
  ultimately have "stays_on (fw U) \<and> lit_within n U" using on_run_lit [OF assms(4)] hb by blast
  then show ?thesis by (auto simp: stays_on_def lit_within_def)
qed

lemma led_firmware:
  "led_reachable b T \<Longrightarrow> sys_step b (fw T) S' \<Longrightarrow> trace S' = trace (fw T) @ es \<Longrightarrow>
   led_reachable b (T\<lparr>fw := S', lamp := lamp_after es (lamp T)\<rparr>)"
  using led_next [OF _ firmware [of b T S']] by simp

text \<open>The command \<open>LedOn\<close>, from post to done.\<close>

lemma led_on_command:
  assumes "led_reachable b T" "prog (fw T) = Done l" "queue (fw T) = []"
  shows "\<exists>S. led_reachable b (T\<lparr>fw := S, lamp := True\<rparr>) \<and> prog S = Done l \<and> led (sb S) \<and> queue S = []"
proof -
  let ?S1 = "(fw T)\<lparr>queue := [LedOn]\<rparr>"
  have "sys_step b (fw T) ?S1"
    using post [of "fw T" b LedOn] assms(3) by (simp add: CHANNEL_CAPACITY_def)
  from led_firmware [OF assms(1) this, of "[]"]
  have 1: "led_reachable b (T\<lparr>fw := ?S1\<rparr>)" by simp
  let ?S2 = "?S1\<lparr>prog := handle_led True l, queue := []\<rparr>"
  have "sys_step b ?S1 ?S2"
    using recv [of ?S1 l LedOn "[]" b] assms(2) by (simp add: iteration_def)
  with led_firmware [OF 1, of ?S2 "[]"] have 2: "led_reachable b (T\<lparr>fw := ?S2\<rparr>)" by simp
  let ?p = "Lock (\<lambda>c s. publish (s\<lparr>led := True\<rparr>)) (\<lambda>c s. Done l)"
  let ?S3 = "?S2\<lparr>prog := ?p, trace := trace (fw T) @ [GpioSet True]\<rparr>"
  have "sys_step b ?S2 ?S3"
    using emit [of ?S2 "GpioSet True" ?p b] by (simp add: handle_led_def)
  with led_firmware [OF 2, of ?S3 "[GpioSet True]"]
  have 3: "led_reachable b (T\<lparr>fw := ?S3, lamp := True\<rparr>)" by simp
  let ?S4 = "?S3\<lparr>sb := publish ((sb (fw T))\<lparr>led := True\<rparr>), prog := Done l\<rparr>"
  have "sys_step b ?S3 ?S4"
    using lock [of ?S3 "\<lambda>c s. publish (s\<lparr>led := True\<rparr>)" "\<lambda>c s. Done l" b] by simp
  with led_firmware [OF 3, of ?S4 "[]"] have "led_reachable b (T\<lparr>fw := ?S4, lamp := True\<rparr>)" by simp
  then show ?thesis by (intro exI [of _ ?S4]) simp
qed

lemma led_boot_fields: "prog (fw led_boot) = Done init_locals" "queue (fw led_boot) = []" "hb led_boot = Hb_top"
    "\<not> led (sb (fw led_boot))"
  by (simp_all add: led_boot_def boot_def default_scoreboard_def)

text \<open>Between its second look at the flag and the moment it puts the lamp out the heartbeat
  does not hold the mutex: an LED-on command that runs in between is undone, and the lamp stays
  dark for the 920 ms the heartbeat then waits, although the flag is set and the UI shows it.\<close>

lemma led_goes_dark:
  "\<exists>T. led_reachable Hardware T \<and> prog (fw T) = Done init_locals \<and> queue (fw T) = [] \<and>
     led (sb (fw T)) \<and> lamp T = False \<and> hb T = Hb_wait 920 Hb_top"
proof -
  let ?b = "beat some_clock"
  let ?T = "?b (?b (?b (?b led_boot)))"
  have "led_reachable Hardware ?T" by (intro led_next [OF _ heart] led_start)
  moreover have "prog (fw ?T) = Done init_locals" "queue (fw ?T) = []" "hb ?T = Hb_off"
    using led_boot_fields by (simp_all add: beat_def Let_def)
  ultimately obtain S where r: "led_reachable Hardware (?T\<lparr>fw := S, lamp := True\<rparr>)" (is "led_reachable _ ?U")
      and S: "prog S = Done init_locals" "led (sb S)" "queue S = []"
    using led_on_command [of Hardware ?T init_locals] by blast
  have "led_reachable Hardware (?b ?U)" by (rule led_next [OF r heart])
  moreover have "?b ?U = ?U\<lparr>lamp := False, hb := Hb_wait 920 Hb_top\<rparr>"
    using \<open>hb ?T = Hb_off\<close> by (simp add: beat_def)
  ultimately show ?thesis using S by auto
qed

theorem led_solid_witness:
  "\<exists>T l U. led_reachable Hardware T \<and> prog (fw T) = Done l \<and> led (sb (fw T)) \<and> lamp T = False \<and>
     on_run Hardware 4 T U \<and> lamp U"
proof -
  obtain T where T: "led_reachable Hardware T" "prog (fw T) = Done init_locals" "led (sb (fw T))" "lamp T = False"
    "queue (fw T) = []" using led_goes_dark by blast
  have "on_run Hardware (Suc (Suc (Suc (Suc 0)))) T (beat some_clock (beat some_clock (beat some_clock (beat some_clock T))))"
    (is "on_run _ _ _ ?U") using T(5) by (intro on_heart on_start) simp
  then have "on_run Hardware 4 T ?U" by (simp add: eval_nat_numeral)
  with led_solid [OF T(1-3) this] T show ?thesis by blast
qed

end
