(* ===== verification/Portal.thy ===== *)
theory Portal
  imports Bring_Up Http Dns_Proto
begin

text \<open>
  The captive portal as a phone meets it: the DHCP reply, the DNS answers, the redirects and the
  page all lead to the one address that \<open>main\<close> gives the network stack.
\<close>

section \<open>Addresses as text\<close>

definition dec_digits :: "u8 \<Rightarrow> string" where
  "dec_digits b = (let n = unat b; digit = (\<lambda>k. char_of (48 + k :: nat)) in
     (if n \<ge> 100 then [digit (n div 100)] else []) @ (if n \<ge> 10 then [digit (n div 10 mod 10)] else []) @
     [digit (n mod 10)])"

fun dotted :: "bytes \<Rightarrow> string" where
  "dotted [] = []"
| "dotted [b] = dec_digits b"
| "dotted (b # bs) = dec_digits b @ ''.'' @ dotted bs"

definition url_of :: "bytes \<Rightarrow> string" where
  "url_of a = ''http://'' @ dotted a @ ''/''"

lemma url_of_server: "url_of [192, 168, 0, 1] = PORTAL_URL" "ascii PORTAL_URL = CAPTIVE_URI"
proof -
  show "url_of [192, 168, 0, 1] = PORTAL_URL" by code_simp
  show "ascii PORTAL_URL = CAPTIVE_URI" by (simp add: PORTAL_URL_def CAPTIVE_URI_def)
qed

lemma main_boot_address: "run_up (main_boot f) power_on = Inr m \<Longrightarrow> address m = [192, 168, 0, 1]"
  using main_boot_end [of f] by auto

lemma reply_opts_portal:
  assumes "t \<noteq> DHCP_NAK"
  shows "opt_lookup 3 (reply_opts t) = Some SERVER_IP" "opt_lookup 6 (reply_opts t) = Some SERVER_IP"
    "opt_lookup 114 (reply_opts t) = Some CAPTIVE_URI"
  using assms by (simp_all add: reply_opts_def)

lemma portal_call_fallback:
  assumes "route ota_build segments path = None" "\<not> log_cuts parts"
  shows "\<exists>line. portal_call ota_build segments c p parts any path =
    Some (ret (p, line, Reply (probe_response Redirect)))"
  using assms(1) log_http_writes [OF assms(2), of p "''302''"] by (auto simp: portal_call_def portal_fallback_def)

lemma portal_call_page:
  assumes "\<not> log_cuts parts"
  shows "\<exists>line. portal_call ota_build segments c p parts Get ''/'' =
    Some (ret (mark_ui_served c p, line, Ui_page))"
  using log_http_writes [OF assms, of "mark_ui_served c p" "''UI''"]
  by (auto simp: portal_call_def route_def routes_def mark_ui_def Let_def)

section \<open>Properties\<close>

text \<open>C18: a phone that joins is led to the page.  The router, DNS server and portal address of the
  DHCP reply it gets and the address in the answer to every type A query name the address the
  network stack was brought up with.  If the log line of its requests can be written (\<open>log_cuts\<close>
  says when it cannot), every path that no route takes is redirected to that address, and a GET
  of the redirect's path serves the page and starts the time in which Apple probes succeed.\<close>

theorem phone_reaches_page:
  assumes up: "run_up (main_boot f) power_on = Inr m"
    and dhcp: "length req \<ge> 240" "length buf \<ge> 360" "length yiaddr = 4" "t \<noteq> DHCP_NAK"
    and dns: "length qhdr = 12" "list_all label_ok ls" "end_ok en"
      "query = qhdr @ name_bytes ls en @ [0, 1, c1, c2] @ rest" "n \<le> length query"
      "12 + length (name_bytes ls en) + 4 \<le> n" "n + 16 \<le> length dnsbuf"
    and http: "route (ota f) segments path = None" "\<not> log_cuts parts"
  shows "(\<exists>k out. write_offer_or_ack req buf yiaddr t = ret (Some k, out) \<and>
      find_option (take k out) 3 = ret (Some (address m)) \<and>
      find_option (take k out) 6 = ret (Some (address m)) \<and>
      find_option (take k out) 114 = ret (Some (ascii (url_of (address m))))) \<and>
    (\<exists>len out pre. build_dns_reply query n dnsbuf = ret (Some len, out) \<and> take len out = pre @ address m) \<and>
    (\<exists>line. portal_call (ota f) segments c p parts any path = Some (ret (p, line,
      Reply \<lparr>code = 302, headers = [(''Location'', url_of (address m)), (''Cache-Control'', ''no-store'')],
        body = url_of (address m)\<rparr>))) \<and>
    (\<exists>line. portal_call (ota f) segments c p parts Get ''/'' = Some (ret (mark_ui_served c p, line, Ui_page)))"
proof (intro conjI)
  have a: "address m = [192, 168, 0, 1]" using up by (rule main_boot_address)
  show "\<exists>k out. write_offer_or_ack req buf yiaddr t = ret (Some k, out) \<and>
      find_option (take k out) 3 = ret (Some (address m)) \<and>
      find_option (take k out) 6 = ret (Some (address m)) \<and>
      find_option (take k out) 114 = ret (Some (ascii (url_of (address m))))"
    using reply_readback [OF dhcp(1-3), of t] reply_opts_portal [OF dhcp(4)]
    by (auto simp: a url_of_server SERVER_IP_def)
  have "[q0, q1, 0x81, 0x80, q4, q5, 0, 1, 0, 0, 0, 0] @ nm @ [0, 1, c1, c2] @
      [0xC0, 12, 0, 1, 0, 1, 0, 0, 0, 30, 0, 4, 192, 168, 0, 1] =
      ([q0, q1, 0x81, 0x80, q4, q5, 0, 1, 0, 0, 0, 0] @ nm @ [0, 1, c1, c2] @
       [0xC0, 12, 0, 1, 0, 1, 0, 0, 0, 30, 0, 4]) @ address m"
    for q0 q1 q4 q5 :: u8 and nm by (simp add: a)
  with dns_reply_bytes [OF dns] show
    "\<exists>len out pre. build_dns_reply query n dnsbuf = ret (Some len, out) \<and> take len out = pre @ address m"
    by (auto simp: be16_def)
  show "\<exists>line. portal_call (ota f) segments c p parts any path = Some (ret (p, line,
      Reply \<lparr>code = 302, headers = [(''Location'', url_of (address m)), (''Cache-Control'', ''no-store'')],
        body = url_of (address m)\<rparr>))"
    using portal_call_fallback [OF http] by (simp add: a url_of_server)
  show "\<exists>line. portal_call (ota f) segments c p parts Get ''/'' =
      Some (ret (mark_ui_served c p, line, Ui_page))"
    using http(2) by (rule portal_call_page)
qed

theorem phone_reaches_page_witness:
  "\<exists>m. run_up (main_boot \<lparr>simulate = False, ota = True, usb_log = False\<rparr>) power_on = Inr m \<and>
    (\<exists>len out pre. build_dns_reply ([7, 9, 1, 0, 0, 1, 0, 0, 0, 0, 0, 1] @ [1, 97, 1, 98, 0] @ [0, 1, 0, 1] @ [42])
       22 (replicate 512 0) = ret (Some len, out) \<and> take len out = pre @ address m) \<and>
    (\<exists>line. portal_call True (\<lambda>_. None) \<lparr>now = 0, millis = (\<lambda>_. 0)\<rparr> init_portal
       \<lparr>rq_method = ''POST'', rq_path = ascii ''/generate_204'', rq_headers = (\<lambda>_. None)\<rparr> Post ''/generate_204'' =
       Some (ret (init_portal, line, Reply (probe_response Redirect))))"
proof -
  let ?c = "\<lparr>now = 0, millis = (\<lambda>_. 0)\<rparr>"
  let ?f = "\<lparr>simulate = False, ota = True, usb_log = False\<rparr>"
  let ?parts = "\<lparr>rq_method = ''POST'', rq_path = ascii ''/generate_204'', rq_headers = (\<lambda>_. None)\<rparr>"
  let ?q = "[7, 9, 1, 0, 0, 1, 0, 0, 0, 0, 0, 1] @ [1, 97, 1, 98, 0] @ [0, 1, 0, 1] @ [42]"
  obtain m where m: "run_up (main_boot ?f) power_on = Inr m" using main_boot_end [of ?f] by auto
  have r: "route (ota ?f) (\<lambda>_. None) ''/generate_204'' = None" by (simp add: route_def routes_def)
  have h: "\<not> log_cuts ?parts" by (rule ascii_not_cut) (simp add: hdr_def ascii_def)
  from phone_reaches_page [OF m, of "replicate 240 0" "replicate 400 0" "[192, 168, 0, 10]" DHCP_OFFER
      "[7, 9, 1, 0, 0, 1, 0, 0, 0, 0, 0, 1]" "[[97], [98]]" Root ?q 0 1 "[42]" 22 "replicate 512 0",
      OF _ _ _ _ _ _ _ _ _ _ _ r h, of ?c init_portal Post]
  show ?thesis using m main_boot_address [OF m] url_of_server
    by (intro exI [of _ m]) (simp add: label_ok_def dhcp_consts)
qed

end
