(* ===== verification/Log_Facade.thy ===== *)
theory Log_Facade
  imports Prelude
begin

text \<open>
  The log transport of \<open>src/defmt_log.rs\<close> and \<open>ap_log::emit\<close>.  The \<open>log\<close> crate decides whether a
  record reaches the installed logger: \<open>passes max lv\<close>, a parameter.
\<close>

datatype level = Lv_error | Lv_warn | Lv_info | Lv_debug | Lv_trace

fun severity :: "level \<Rightarrow> nat" where
  "severity Lv_error = 1"
| "severity Lv_warn = 2"
| "severity Lv_info = 3"
| "severity Lv_debug = 4"
| "severity Lv_trace = 5"

lemma severity_inj: "severity a = severity b \<Longrightarrow> a = b"
  by (cases a; cases b) simp_all

text \<open>The order of \<open>log::Level\<close>: \<open>Error\<close> is the least verbose.\<close>

instantiation level :: linorder
begin

definition less_eq_level :: "level \<Rightarrow> level \<Rightarrow> bool" where
  "a \<le> b \<longleftrightarrow> severity a \<le> severity b"

definition less_level :: "level \<Rightarrow> level \<Rightarrow> bool" where
  "a < b \<longleftrightarrow> severity a < severity b"

instance
  by standard (auto simp: less_eq_level_def less_level_def intro: severity_inj)

end

text \<open>A line on the RTT channel, as the \<open>defmt\<close> macro of its level writes it.\<close>

datatype rtt_line = Rtt_error bytes | Rtt_warn bytes | Rtt_info bytes | Rtt_debug bytes | Rtt_trace bytes

definition log_enabled :: "level \<Rightarrow> bool" where
  "log_enabled lv \<longleftrightarrow> True"

definition defmt_log :: "level \<Rightarrow> bytes \<Rightarrow> rtt_line list" where
  "defmt_log lv args =
     (if \<not> log_enabled lv then []
      else case lv of
        Lv_error \<Rightarrow> [Rtt_error args]
      | Lv_warn \<Rightarrow> [Rtt_warn args]
      | Lv_info \<Rightarrow> [Rtt_info args]
      | Lv_debug \<Rightarrow> [Rtt_debug args]
      | Lv_trace \<Rightarrow> [Rtt_trace args])"

text \<open>\<open>init\<close>: the logger is installed, with this maximum level.\<close>

definition log_init :: level where "log_init = Lv_info"

definition log_record :: "(level \<Rightarrow> level \<Rightarrow> bool) \<Rightarrow> level \<Rightarrow> bytes \<Rightarrow> rtt_line list" where
  "log_record passes lv args = (if passes log_init lv then defmt_log lv args else [])"

text \<open>\<open>ap_log::emit\<close>.\<close>

definition log_emit :: "(level \<Rightarrow> level \<Rightarrow> bool) \<Rightarrow> bytes \<Rightarrow> rtt_line list" where
  "log_emit passes args = log_record passes Lv_info args"

text \<open>With the crate's filter, the lines of \<open>ap_log\<close> are written and debug output is not.\<close>

lemma emit_written:
  assumes "\<And>m lv. passes m lv \<longleftrightarrow> lv \<le> m"
  shows "log_emit passes args = [Rtt_info args]"
    and "log_record passes lv args = [] \<longleftrightarrow> lv \<in> {Lv_debug, Lv_trace}"
  using assms
  by (cases lv; simp add: log_emit_def log_record_def log_init_def defmt_log_def log_enabled_def less_eq_level_def)+

end
