(* ===== verification/Uart_Console.thy ===== *)
theory Uart_Console
  imports Decode Boot_Cmd
begin

text \<open>
  The console of the UART bench tool \<open>examples/uart-test.rs\<close>: the line buffer fed by USB
  transfers, the command parser with its hex notation, and the round trip with \<open>write_hex\<close>,
  which prints what the tool receives.
\<close>

unbundle bit_operations_syntax

section \<open>Model\<close>

definition TX_MAX :: nat where "TX_MAX = 64"
definition LINE_MAX :: nat where "LINE_MAX = 128"

record tx_burst =
  burst_buf :: bytes
  burst_len :: u8

definition from_slice :: "bytes \<Rightarrow> tx_burst option rs" where
  "from_slice data =
     (if data = [] \<or> length data > TX_MAX then ret None
      else do {
        buf \<leftarrow> copy_into (replicate TX_MAX 0) 0 (length data) data;
        ret (Some \<lparr>burst_buf = buf, burst_len = of_nat (length data)\<rparr>)
      })"

definition as_slice :: "tx_burst \<Rightarrow> bytes rs" where
  "as_slice b = slice_of (burst_buf b) 0 (unat (burst_len b))"

datatype host_cmd = Tx tx_burst | Blast tx_burst | Replay | Probe | Hunt | Listen | Help

definition unhex :: "u8 \<Rightarrow> u8 option" where
  "unhex c =
     (if 48 \<le> c \<and> c \<le> 57 then Some (c - 48)
      else if 97 \<le> c \<and> c \<le> 102 then Some (c - 97 + 10)
      else if 65 \<le> c \<and> c \<le> 70 then Some (c - 65 + 10)
      else None)"

fun parse_hex_loop :: "bytes \<Rightarrow> u8 option \<Rightarrow> nat \<Rightarrow> bytes \<Rightarrow> (nat option \<times> bytes) rs" where
  "parse_hex_loop [] hi n out = ret (if hi \<noteq> None \<or> n = 0 then None else Some n, out)"
| "parse_hex_loop (c # cs) hi n out =
     (if ascii_space c then parse_hex_loop cs hi n out
      else case unhex c of
        None \<Rightarrow> ret (None, out)
      | Some d \<Rightarrow>
          (case hi of
             Some h \<Rightarrow>
               if n \<ge> length out then ret (None, out)
               else do {
                 out \<leftarrow> put out n (push_bit 4 h OR d);
                 parse_hex_loop cs None (n + 1) out
               }
           | None \<Rightarrow> parse_hex_loop cs (Some d) n out))"

definition parse_hex_bytes :: "bytes \<Rightarrow> bytes \<Rightarrow> (nat option \<times> bytes) rs" where
  "parse_hex_bytes s out = parse_hex_loop s None 0 out"

text \<open>The two loops of \<open>trim\<close>.\<close>

function trim_start :: "bytes \<Rightarrow> nat \<Rightarrow> nat \<Rightarrow> nat rs" where
  "trim_start s start e =
     (if start < e then do {
        c \<leftarrow> idx s start;
        if ascii_space c then trim_start s (start + 1) e else ret start
      } else ret start)"
  by pat_completeness auto
termination by (relation "measure (\<lambda>(s, start, e). e - start)") auto

declare trim_start.simps [simp del]

fun trim_end :: "bytes \<Rightarrow> nat \<Rightarrow> nat \<Rightarrow> nat rs" where
  "trim_end s start 0 = ret 0"
| "trim_end s start (Suc e) =
     (if start < Suc e then do {
        c \<leftarrow> idx s e;
        if ascii_space c then trim_end s start e else ret (Suc e)
      } else ret (Suc e))"

definition trim :: "bytes \<Rightarrow> bytes rs" where
  "trim s = do {
     start \<leftarrow> trim_start s 0 (length s);
     e \<leftarrow> trim_end s start (length s);
     slice_of s start e
   }"

definition cmd_eq :: "bytes \<Rightarrow> bytes \<Rightarrow> bool rs" where
  "cmd_eq line name =
     (if eq_ignore_case line name then ret True
      else if length line > length name then do {
        t \<leftarrow> slice_of line (length line - length name) (length line);
        ret (eq_ignore_case t name)
      } else ret False)"

definition parse_tx_cmd :: "bytes \<Rightarrow> bool \<Rightarrow> host_cmd option rs" where
  "parse_tx_cmd rest blast = do {
     rest \<leftarrow> trim rest;
     (r, buf) \<leftarrow> parse_hex_bytes rest (replicate TX_MAX 0);
     case r of
       None \<Rightarrow> ret None
     | Some n \<Rightarrow> do {
         data \<leftarrow> slice_of buf 0 n;
         b \<leftarrow> from_slice data;
         ret (map_option (if blast then Blast else Tx) b)
       }
   }"

text \<open>The words of the console, in the order \<open>parse_line\<close> tries them.\<close>

definition console_words :: "(bytes \<times> host_cmd) list" where
  "console_words =
     [(ascii ''help'', Help), (ascii ''replay'', Replay), (ascii ''probe'', Probe),
      (ascii ''hunt'', Hunt), (ascii ''listen'', Listen)]"

fun match_word :: "(bytes \<times> host_cmd) list \<Rightarrow> bytes \<Rightarrow> host_cmd option rs" where
  "match_word [] line = ret None"
| "match_word ((name, cmd) # ws) line = do {
     e \<leftarrow> cmd_eq line name;
     if e then ret (Some cmd) else match_word ws line
   }"

definition starts_with :: "bytes \<Rightarrow> bytes \<Rightarrow> bool rs" where
  "starts_with line name =
     (if length line \<ge> length name then do {
        t \<leftarrow> slice_of line 0 (length name);
        ret (eq_ignore_case t name)
      } else ret False)"

definition parse_line :: "bytes \<Rightarrow> host_cmd option rs" where
  "parse_line line = do {
     line \<leftarrow> trim line;
     if line = [] then ret None
     else do {
       w \<leftarrow> match_word console_words line;
       case w of
         Some cmd \<Rightarrow> ret (Some cmd)
       | None \<Rightarrow> do {
           tx \<leftarrow> starts_with line (ascii ''tx'');
           if tx then do { rest \<leftarrow> slice_of line 2 (length line); parse_tx_cmd rest False }
           else do {
             blast \<leftarrow> starts_with line (ascii ''blast'');
             if blast then do { rest \<leftarrow> slice_of line 5 (length line); parse_tx_cmd rest True }
             else ret None
           }
         }
     }
   }"

text \<open>
  The line buffer.  \<open>raws\<close> is the part of the four-line array \<open>raw\<close> that is filled.
\<close>

record line_buf =
  line_data :: bytes
  line_len :: nat

definition line_byte :: "u8 \<Rightarrow> line_buf \<times> bytes list \<Rightarrow> (line_buf \<times> bytes list) rs" where
  "line_byte b = (\<lambda>(lb, raws).
     if b = 10 \<or> b = 13 then
       if line_len lb = 0 then ret (lb, raws)
       else if length raws < 4 then do {
         t \<leftarrow> slice_of (line_data lb) 0 (line_len lb);
         ret (lb\<lparr>line_len := 0\<rparr>, raws @ [t])
       } else ret (lb\<lparr>line_len := 0\<rparr>, raws)
     else if line_len lb < LINE_MAX then do {
       d \<leftarrow> put (line_data lb) (line_len lb) b;
       ret (lb\<lparr>line_data := d, line_len := line_len lb + 1\<rparr>, raws)
     } else ret (lb\<lparr>line_len := 0\<rparr>, raws))"

fun line_bytes :: "bytes \<Rightarrow> line_buf \<times> bytes list \<Rightarrow> (line_buf \<times> bytes list) rs" where
  "line_bytes [] p = ret p"
| "line_bytes (b # bs) p = do { p \<leftarrow> line_byte b p; line_bytes bs p }"

fun parse_lines :: "bytes list \<Rightarrow> host_cmd list rs" where
  "parse_lines [] = ret []"
| "parse_lines (l # ls) = do {
     c \<leftarrow> parse_line l;
     cs \<leftarrow> parse_lines ls;
     ret (case c of Some cmd \<Rightarrow> cmd # cs | None \<Rightarrow> cs)
   }"

record console =
  boot_n :: nat
  line :: line_buf

definition init_console :: console where
  "init_console = \<lparr>boot_n = 0, line = \<lparr>line_data = replicate LINE_MAX 0, line_len = 0\<rparr>\<rparr>"

text \<open>
  One USB transfer: the console after it, whether it asked for the boot ROM, and the commands
  sent to the transmitter.  The matcher in front is the one of \<open>BootCmd\<close>, byte for byte; on a hit
  \<open>reset_to_usb_boot\<close> resets the chip, before the lines of the transfer are looked at.
\<close>

definition console_data :: "bytes \<Rightarrow> console \<Rightarrow> (console \<times> bool \<times> host_cmd list) rs" where
  "console_data data st = do {
     (n, hit) \<leftarrow> handle_data (boot_n st) data;
     if hit then ret (st\<lparr>boot_n := n\<rparr>, True, [])
     else do {
       (lb, raws) \<leftarrow> line_bytes data (line st, []);
       cmds \<leftarrow> parse_lines raws;
       ret (\<lparr>boot_n = n, line = lb\<rparr>, False, cmds)
     }
   }"

text \<open>The transfers up to the reset: whether it came, and the commands sent before.\<close>

fun console_run :: "bytes list \<Rightarrow> console \<Rightarrow> (bool \<times> host_cmd list) rs" where
  "console_run [] st = ret (False, [])"
| "console_run (d # ds) st = do {
     (st, hit, cs) \<leftarrow> console_data d st;
     if hit then ret (True, cs)
     else do {
       (reset, cs') \<leftarrow> console_run ds st;
       ret (reset, cs @ cs')
     }
   }"

section \<open>Trimming\<close>

definition rstrip :: "bytes \<Rightarrow> bytes" where
  "rstrip s = rev (dropWhile ascii_space (rev s))"

lemma rstrip_snoc: "rstrip (s @ [c]) = (if ascii_space c then rstrip s else s @ [c])"
  by (simp add: rstrip_def)

lemma rstrip_Nil [simp]: "rstrip [] = []"
  by (simp add: rstrip_def)

lemma length_rstrip: "length (rstrip s) \<le> length s"
  using length_dropWhile_le [of ascii_space "rev s"] by (simp add: rstrip_def)

lemma take_rstrip: "take (length (rstrip s)) s = rstrip s"
  by (induction s rule: rev_induct) (auto simp: rstrip_snoc length_rstrip)

lemma trim_start_eq:
  "trim_start (p @ s) (length p) (length (p @ s)) = ret (length (p @ s) - length (dropWhile ascii_space s))"
proof (induction s arbitrary: p)
  case Nil
  then show ?case by (subst trim_start.simps) simp
next
  case (Cons c s)
  show ?case using Cons.IH [of "p @ [c]"]
    by (subst trim_start.simps) (simp add: idx_ok)
qed

lemma trim_end_eq:
  "trim_end (p @ s @ q) (length p) (length (p @ s)) = ret (length p + length (rstrip s))"
proof (induction s arbitrary: q rule: rev_induct)
  case Nil
  show ?case by (cases "length p") simp_all
next
  case (snoc c s)
  show ?case using snoc.IH [of "c # q"] by (simp add: idx_ok nth_append rstrip_snoc)
qed

lemma trim_eq: "trim s = ret (rstrip (dropWhile ascii_space s))"
proof -
  let ?t = "dropWhile ascii_space s"
  have s: "s = takeWhile ascii_space s @ ?t" by simp
  have l: "length s = length (takeWhile ascii_space s) + length ?t"
    by (metis length_append s)
  have a: "trim_start s 0 (length s) = ret (length (takeWhile ascii_space s))"
    using trim_start_eq [of "[]" s] l by simp
  have b: "trim_end s (length (takeWhile ascii_space s)) (length s) =
      ret (length (takeWhile ascii_space s) + length (rstrip ?t))"
    using trim_end_eq [of "takeWhile ascii_space s" ?t "[]"] by (simp del: length_append add: s [symmetric])
  have "drop (length (takeWhile ascii_space s)) s = ?t" by (simp add: dropWhile_eq_drop)
  then have "slice_of s (length (takeWhile ascii_space s)) (length (takeWhile ascii_space s) + length (rstrip ?t)) =
      ret (rstrip ?t)"
    using l length_rstrip [of ?t] by (simp add: slice_of_def take_rstrip)
  then show ?thesis by (simp add: trim_def a b)
qed

lemma dropWhile_id: "\<not> P (hd xs) \<Longrightarrow> dropWhile P xs = xs"
  by (cases xs) auto

lemma trim_id:
  assumes "\<not> ascii_space (hd s)" "\<not> ascii_space (last s)"
  shows "trim s = ret s"
proof -
  have "dropWhile ascii_space (rev s) = rev s" using assms(2) by (simp add: dropWhile_id hd_rev)
  with assms(1) show ?thesis by (simp add: trim_eq dropWhile_id rstrip_def)
qed

section \<open>Hex notation\<close>

lemma parse_hex_loop_total:
  "n \<le> length out \<Longrightarrow> \<exists>r out'. parse_hex_loop s hi n out = ret (r, out') \<and> length out' = length out \<and>
     (\<forall>k. r = Some k \<longrightarrow> 0 < k \<and> k \<le> length out)"
proof (induction s arbitrary: hi n out)
  case (Cons c s)
  show ?case
  proof (cases "ascii_space c \<or> unhex c = None \<or> hi = None")
    case True
    with Cons show ?thesis by (auto split: option.split)
  next
    case False
    then obtain d h where "unhex c = Some d" "hi = Some h" "\<not> ascii_space c" by auto
    with Cons.prems Cons.IH [of "n + 1" "out[n := push_bit 4 h OR d]" None] show ?thesis
      by (auto simp: put_ok)
  qed
qed simp

lemma HEX_digits: "n < 16 \<Longrightarrow> unhex (HEX ! n) = Some (of_nat n) \<and> \<not> ascii_space (HEX ! n)"
proof -
  have "list_all (\<lambda>n. unhex (HEX ! n) = Some (of_nat n) \<and> \<not> ascii_space (HEX ! n)) [0..<16]"
    by code_simp
  then show "n < 16 \<Longrightarrow> ?thesis" by (simp add: list_all_iff)
qed

lemma nibbles: "push_bit 4 (drop_bit 4 b) OR (b AND 0x0f) = (b :: u8)"
proof (rule bit_eqI)
  fix i assume i: "possible_bit TYPE(u8) i"
  have "(0x0f :: u8) = mask 4" by (simp add: mask_eq_exp_minus_1)
  then have "bit (0x0f :: u8) i \<longleftrightarrow> i < 4" using i by (simp only: bit_mask_iff) simp
  with i show "bit (push_bit 4 (drop_bit 4 b) OR (b AND 0x0f)) i = bit b i"
    by (auto simp: bit_or_iff bit_and_iff bit_push_bit_iff bit_drop_bit_eq)
qed

lemma parse_hex2:
  "n < length out \<Longrightarrow>
   parse_hex_loop (hex2 b @ s) None n out = parse_hex_loop s None (n + 1) (out[n := b])"
  using HEX_digits [OF nibble_hi [of b]] HEX_digits [OF nibble_lo [of b]]
  by (simp add: hex2_def put_ok nibbles)

lemma parse_hex_tail:
  "n + length bs \<le> length out \<Longrightarrow> 0 < n + length bs \<Longrightarrow>
   parse_hex_loop (hex_tail bs) None n out =
     ret (Some (n + length bs), take n out @ bs @ drop (n + length bs) out)"
proof (induction bs arbitrary: n out)
  case Nil
  then show ?case by (simp add: hex_tail_def)
next
  case (Cons b bs)
  then have n: "n < length out" by simp
  have sp: "ascii_space 32" by (simp add: ascii_space_def)
  show ?case
    using Cons.prems Cons.IH [of "n + 1" "out[n := b]"] n
    by (simp add: hex_tail_Cons sp parse_hex2 take_Suc_nth)
qed

lemma parse_hex_text:
  assumes "bs \<noteq> []" "length bs \<le> length out"
  shows "parse_hex_bytes (hex_text bs) out = ret (Some (length bs), bs @ drop (length bs) out)"
proof -
  obtain b cs where bs: "bs = b # cs" using assms(1) by (cases bs) auto
  with assms(2) obtain x os where "out = x # os" by (cases out) auto
  then show ?thesis
    using parse_hex2 [of 0 out b "hex_tail cs"] parse_hex_tail [of 1 cs "out[0 := b]"] assms(2)
    by (simp add: parse_hex_bytes_def bs)
qed

section \<open>The parser never panics\<close>

lemma cmd_eq_total: "cmd_eq l name = ret (eq_ignore_case l name \<or>
    length l > length name \<and> eq_ignore_case (drop (length l - length name) l) name)"
  by (simp add: cmd_eq_def slice_of_ok)

lemma match_word_total: "\<exists>w. match_word ws l = ret w"
  by (induction ws) (auto simp: cmd_eq_total)

lemma starts_with_eq:
  "starts_with l name = ret (length l \<ge> length name \<and> eq_ignore_case (take (length name) l) name)"
  by (simp add: starts_with_def slice_of_ok)

lemma from_slice_as_slice:
  assumes "data \<noteq> []" "length data \<le> TX_MAX"
  shows "\<exists>b. from_slice data = ret (Some b) \<and> as_slice b = ret data"
proof -
  have "unat (of_nat (length data) :: u8) = length data"
    using assms(2) by (simp add: unat_of_nat TX_MAX_def)
  with assms show ?thesis by (simp add: from_slice_def as_slice_def copy_into_ok slice_of_ok)
qed

lemma from_slice_total: "\<exists>b. from_slice data = ret b"
  by (simp add: from_slice_def copy_into_ok)

lemma parse_tx_cmd_total: "\<exists>c. parse_tx_cmd r blast = ret c"
proof -
  obtain res out where p: "parse_hex_bytes (rstrip (dropWhile ascii_space r)) (replicate TX_MAX 0) = ret (res, out)"
      "length out = TX_MAX" "\<And>k. res = Some k \<Longrightarrow> k \<le> TX_MAX"
    using parse_hex_loop_total [of 0 "replicate TX_MAX 0" "rstrip (dropWhile ascii_space r)" None]
    by (auto simp: parse_hex_bytes_def)
  then show ?thesis
  proof (cases res)
    case (Some k)
    obtain b where "from_slice (take k out) = ret b" using from_slice_total by blast
    with Some p show ?thesis by (simp add: parse_tx_cmd_def trim_eq slice_of_ok)
  qed (simp add: parse_tx_cmd_def trim_eq)
qed

lemma parse_line_total: "\<exists>c. parse_line l = ret c"
proof -
  obtain w where "match_word console_words (rstrip (dropWhile ascii_space l)) = ret w"
    using match_word_total by blast
  then show ?thesis
    using parse_tx_cmd_total
    by (auto simp: parse_line_def trim_eq starts_with_eq slice_of_ok ascii_def split: option.split)
qed

lemma parse_lines_total: "\<exists>cs. parse_lines ls = ret cs"
proof (induction ls)
  case (Cons l ls)
  then show ?case using parse_line_total [of l] by auto
qed simp

section \<open>Round trip with the printer\<close>

lemma eq_ignore_caseD: "eq_ignore_case t name \<Longrightarrow> c \<in> set name \<Longrightarrow> \<exists>b\<in>set t. ascii_lower b = ascii_lower c"
proof -
  assume *: "eq_ignore_case t name" "c \<in> set name"
  from *(1) have "ascii_lower ` set t = ascii_lower ` set name"
    by (metis eq_ignore_case_def set_map)
  with *(2) have "ascii_lower c \<in> ascii_lower ` set t" by blast
  then show "\<exists>b\<in>set t. ascii_lower b = ascii_lower c" by auto
qed

definition hex_chars :: "u8 set" where
  "hex_chars = set (ascii ''tx blast'') \<union> set HEX"

lemma set_hex_text: "set (hex_text bs) \<subseteq> hex_chars"
proof -
  have h2: "set (hex2 b) \<subseteq> set HEX" for b
    using nibble_hi [of b] nibble_lo [of b] by (simp add: hex2_def)
  moreover have "(0x20 :: u8) \<in> hex_chars" by (simp add: hex_chars_def ascii_def)
  ultimately have "set (hex_tail cs) \<subseteq> hex_chars" for cs
    by (induction cs) (auto simp: hex_tail_def hex_chars_def)
  with h2 show ?thesis by (cases bs) (auto simp: hex_chars_def)
qed

lemma no_console_word:
  assumes "set l \<subseteq> hex_chars"
  shows "match_word console_words l = ret None"
proof -
  have hex: "ascii_lower b \<noteq> 112 \<and> ascii_lower b \<noteq> 104 \<and> ascii_lower b \<noteq> 105" if "b \<in> hex_chars" for b
  proof -
    have "list_all (\<lambda>b. ascii_lower b \<noteq> 112 \<and> ascii_lower b \<noteq> 104 \<and> ascii_lower b \<noteq> 105) (ascii ''tx blast'' @ HEX)"
      by code_simp
    with that show ?thesis by (auto simp: hex_chars_def list_all_iff)
  qed
  have no: "cmd_eq l name = ret False" if "c \<in> set name" "c \<in> {112, 104, 105}" for c name
  proof -
    have "ascii_lower c = c" using that(2) by (auto simp: ascii_lower_def)
    then have "\<not> eq_ignore_case t name" if "set t \<subseteq> set l" for t
      using hex eq_ignore_caseD [OF _ \<open>c \<in> set name\<close>, of t] \<open>c \<in> {112, 104, 105}\<close> that assms by fastforce
    then show ?thesis by (simp add: cmd_eq_total set_drop_subset)
  qed
  show ?thesis
    by (simp add: console_words_def no [of 112] no [of 104] no [of 105] ascii_def)
qed

lemma hex_text_ends:
  assumes "bs \<noteq> []"
  shows "hex_text bs \<noteq> []" "\<not> ascii_space (hd (hex_text bs))" "\<not> ascii_space (last (hex_text bs))"
proof -
  have d: "\<not> ascii_space (HEX ! n)" if "n < 16" for n using HEX_digits [OF that] by simp
  obtain b cs where bs: "bs = b # cs" using assms by (cases bs) auto
  show "hex_text bs \<noteq> []" "\<not> ascii_space (hd (hex_text bs))"
    by (simp_all add: bs hex2_def d nibble_hi)
  have "\<not> ascii_space (last (hex2 c))" for c by (simp add: hex2_def d nibble_lo)
  moreover have "last (hex_tail cs) = last (hex2 (last cs))" if "cs \<noteq> []"
    using that by (induction cs) (auto simp: hex_tail_def hex2_def last_append)
  ultimately show "\<not> ascii_space (last (hex_text bs))"
    by (cases "cs = []") (simp_all add: bs last_append hex_tail_def hex2_def)
qed

text \<open>C35: what the tool prints of a transfer of at most 64 bytes can be typed back: \<open>tx\<close> or
  \<open>blast\<close> and the hex digits \<open>write_hex\<close> produces is the command that sends those bytes.\<close>

theorem hex_command_roundtrip:
  assumes "data \<noteq> []" "length data \<le> 64" "write_hex data (replicate 192 0) = ret (n, hex)"
  shows "\<exists>b. as_slice b = ret data \<and>
    parse_line (ascii ''tx '' @ take n hex) = ret (Some (Tx b)) \<and>
    parse_line (ascii ''blast '' @ take n hex) = ret (Some (Blast b))"
proof -
  have "take (193 div 3) data = data" using assms(2) by simp
  then have h: "take n hex = hex_text data" using assms(3) by (auto simp: write_hex_eq Let_def)
  obtain b where b: "from_slice data = ret (Some b)" "as_slice b = ret data"
    using from_slice_as_slice [of data] assms(1,2) by (auto simp: TX_MAX_def)
  have sp: "ascii_space 32" by (simp add: ascii_space_def)
  note ends = hex_text_ends [OF assms(1)]
  have "trim (32 # hex_text data) = trim (hex_text data)" by (simp add: trim_eq sp)
  then have tx: "parse_tx_cmd (32 # hex_text data) bl = ret (Some ((if bl then Blast else Tx) b))" for bl
    using assms(1,2) b ends
    by (simp add: parse_tx_cmd_def trim_id parse_hex_text TX_MAX_def slice_of_ok)
  have tr: "trim (w @ 32 # hex_text data) = ret (w @ 32 # hex_text data)" if "w \<noteq> []" "\<not> ascii_space (hd w)" for w
    using that ends by (simp add: trim_id)
  have no: "match_word console_words (w @ 32 # hex_text data) = ret None" if "set w \<subseteq> hex_chars" for w
    using that set_hex_text [of data] by (intro no_console_word) (auto simp: hex_chars_def ascii_def)
  have "parse_line (ascii ''tx'' @ 32 # hex_text data) = ret (Some (Tx b))"
    using tr [of "ascii ''tx''"] no [of "ascii ''tx''"] tx [of False]
    by (simp add: parse_line_def starts_with_eq slice_of_ok hex_chars_def ascii_def ascii_space_def
        eq_ignore_case_def)
  moreover have "parse_line (ascii ''blast'' @ 32 # hex_text data) = ret (Some (Blast b))"
    using tr [of "ascii ''blast''"] no [of "ascii ''blast''"] tx [of True]
    by (simp add: parse_line_def starts_with_eq slice_of_ok hex_chars_def ascii_def ascii_space_def
        eq_ignore_case_def ascii_lower_def)
  ultimately show ?thesis using b(2) by (intro exI [of _ b]) (simp add: h ascii_def)
qed

theorem hex_command_roundtrip_witness:
  "\<exists>n hex b. write_hex [0x60, 0xa5] (replicate 192 0) = ret (n, hex) \<and> as_slice b = ret [0x60, 0xa5] \<and>
     parse_line (ascii ''tx '' @ take n hex) = ret (Some (Tx b))"
proof -
  obtain n hex where "write_hex [0x60, 0xa5] (replicate 192 0) = ret (n, hex)"
    by (simp add: write_hex_eq Let_def)
  with hex_command_roundtrip [OF _ _ this] show ?thesis by auto
qed

section \<open>Lines, however the transfers cut them\<close>

definition eol :: "u8 \<Rightarrow> bool" where "eol b \<longleftrightarrow> b = 10 \<or> b = 13"

text \<open>The lines of a stream after \<open>acc\<close>, empty ones left out, and the unfinished rest.\<close>

fun lines_from :: "bytes \<Rightarrow> bytes \<Rightarrow> bytes list \<times> bytes" where
  "lines_from acc [] = ([], acc)"
| "lines_from acc (b # bs) =
     (if eol b then (if acc = [] then lines_from [] bs else apfst ((#) acc) (lines_from [] bs))
      else lines_from (acc @ [b]) bs)"

text \<open>No line gets longer than the buffer.\<close>

fun short_lines :: "nat \<Rightarrow> bytes \<Rightarrow> bool" where
  "short_lines n [] \<longleftrightarrow> n \<le> LINE_MAX"
| "short_lines n (b # bs) \<longleftrightarrow> n \<le> LINE_MAX \<and> (if eol b then short_lines 0 bs else short_lines (n + 1) bs)"

lemma short_lines_le: "short_lines n bs \<Longrightarrow> n \<le> LINE_MAX"
  by (cases bs) simp_all

lemma lines_from_append:
  "lines_from acc (xs @ ys) =
   (case lines_from acc xs of (ls, a) \<Rightarrow> apfst ((@) ls) (lines_from a ys))"
  by (induction xs arbitrary: acc) (auto simp: apfst_def map_prod_def split: prod.split)

lemma short_lines_append:
  "short_lines (length acc) (xs @ ys) \<Longrightarrow>
   short_lines (length acc) xs \<and> short_lines (length (snd (lines_from acc xs))) ys"
proof (induction xs arbitrary: acc)
  case Nil
  then show ?case by (simp add: short_lines_le)
next
  case (Cons b xs)
  then show ?case using Cons.IH [of "[]"] Cons.IH [of "acc @ [b]"] by (auto split: if_splits)
qed

text \<open>No transfer ends more than four lines, empty ones not counted.\<close>

fun few_lines :: "bytes \<Rightarrow> bytes list \<Rightarrow> bool" where
  "few_lines acc [] \<longleftrightarrow> True"
| "few_lines acc (d # ds) \<longleftrightarrow>
     length (fst (lines_from acc d)) \<le> 4 \<and> few_lines (snd (lines_from acc d)) ds"

text \<open>The transfers before the one in which the boot command is completed.\<close>

fun before_boot :: "bytes \<Rightarrow> bytes list \<Rightarrow> bytes list" where
  "before_boot h [] = []"
| "before_boot h (d # ds) = (if boots (h @ d) then [] else d # before_boot (h @ d) ds)"

definition holds :: "line_buf \<Rightarrow> bytes \<Rightarrow> bool" where
  "holds lb acc \<longleftrightarrow> length (line_data lb) = LINE_MAX \<and> line_len lb = length acc \<and>
     take (length acc) (line_data lb) = acc"

lemma holds_push:
  assumes "holds lb acc" "length acc < LINE_MAX"
  shows "\<exists>lb'. line_byte b (lb, raws) = (if eol b then line_byte b (lb, raws) else ret (lb', raws)) \<and>
    holds lb' (acc @ [b])"
  using assms
  by (intro exI [of _ "lb\<lparr>line_data := (line_data lb)[length acc := b], line_len := length acc + 1\<rparr>"])
    (auto simp: holds_def line_byte_def eol_def put_ok take_Suc_nth)

lemma line_bytes_lines:
  "holds lb acc \<Longrightarrow> short_lines (length acc) bs \<Longrightarrow>
   length raws + length (fst (lines_from acc bs)) \<le> 4 \<Longrightarrow>
   \<exists>lb'. line_bytes bs (lb, raws) = ret (lb', raws @ fst (lines_from acc bs)) \<and>
     holds lb' (snd (lines_from acc bs))"
proof (induction bs arbitrary: lb acc raws)
  case (Cons b bs)
  show ?case
  proof (cases "eol b")
    case True
    have h0: "holds (lb\<lparr>line_len := 0\<rparr>) []" using Cons.prems(1) by (simp add: holds_def)
    show ?thesis
    proof (cases "acc = []")
      case empty: True
      then have "line_byte b (lb, raws) = ret (lb, raws)"
        using Cons.prems(1) True by (auto simp: line_byte_def holds_def eol_def)
      with True empty Cons.prems Cons.IH [of lb "[]" raws] show ?thesis by simp
    next
      case False
      have "slice_of (line_data lb) 0 (line_len lb) = ret acc"
        using Cons.prems(1) short_lines_le [OF Cons.prems(2)] by (simp add: holds_def slice_of_ok)
      moreover have "length raws < 4" using Cons.prems(3) True False by simp
      ultimately have "line_byte b (lb, raws) = ret (lb\<lparr>line_len := 0\<rparr>, raws @ [acc])"
        using Cons.prems(1) True False by (auto simp: line_byte_def holds_def eol_def)
      with True False Cons.prems Cons.IH [OF h0, of "raws @ [acc]"] show ?thesis by simp
    qed
  next
    case False
    have "length acc + 1 \<le> LINE_MAX" using Cons.prems(2) False short_lines_le by fastforce
    with holds_push [OF Cons.prems(1), of b raws] False
    obtain lb' where lb': "line_byte b (lb, raws) = ret (lb', raws)" "holds lb' (acc @ [b])" by auto
    with False Cons.prems Cons.IH [OF lb'(2), of raws] show ?thesis by simp
  qed
qed simp

lemma parse_lines_append:
  "parse_lines (xs @ ys) = do { a \<leftarrow> parse_lines xs; b \<leftarrow> parse_lines ys; ret (a @ b) }"
proof (induction xs)
  case (Cons x xs)
  obtain c where "parse_line x = ret c" using parse_line_total by blast
  with Cons show ?case using parse_lines_total [of xs] parse_lines_total [of ys]
    by (auto split: option.split)
qed (use parse_lines_total [of ys] in auto)

lemma console_run_lines:
  "matches (boot_n st) h \<Longrightarrow> holds (line st) acc \<Longrightarrow> short_lines (length acc) (concat (before_boot h ds)) \<Longrightarrow>
   few_lines acc (before_boot h ds) \<Longrightarrow>
   \<exists>cmds. console_run ds st = ret (boots (h @ concat ds), cmds) \<and>
     parse_lines (fst (lines_from acc (concat (before_boot h ds)))) = ret cmds"
proof (induction ds arbitrary: st h acc)
  case Nil
  then show ?case by (auto simp: matches_def)
next
  case (Cons d ds)
  obtain n where n: "handle_data (boot_n st) d = ret (n, boots (h @ d))" "boots (h @ d) \<or> matches n (h @ d)"
    using handle_data_boots [OF Cons.prems(1)] by blast
  show ?case
  proof (cases "boots (h @ d)")
    case True
    with n boots_append [OF True, of "concat ds"] show ?thesis by (simp add: console_data_def)
  next
    case False
    have sh: "short_lines (length acc) d"
        "short_lines (length (snd (lines_from acc d))) (concat (before_boot (h @ d) ds))"
      using Cons.prems(3) False short_lines_append [of acc d] by simp_all
    have "length (fst (lines_from acc d)) \<le> 4" using Cons.prems(4) False by simp
    then obtain lb' where lb: "line_bytes d (line st, []) = ret (lb', fst (lines_from acc d))"
        "holds lb' (snd (lines_from acc d))"
      using line_bytes_lines [OF Cons.prems(2) sh(1), of "[]"] by auto
    obtain cs where cs: "parse_lines (fst (lines_from acc d)) = ret cs" using parse_lines_total by blast
    have "console_data d st = ret (\<lparr>boot_n = n, line = lb'\<rparr>, False, cs)"
      using False by (simp add: console_data_def n lb cs)
    moreover obtain cmds where "console_run ds \<lparr>boot_n = n, line = lb'\<rparr> = ret (boots ((h @ d) @ concat ds), cmds)"
        "parse_lines (fst (lines_from (snd (lines_from acc d)) (concat (before_boot (h @ d) ds)))) = ret cmds"
      using Cons.IH [of "\<lparr>boot_n = n, line = lb'\<rparr>" "h @ d" "snd (lines_from acc d)"] n lb sh(2) Cons.prems(4) False
      by auto
    ultimately show ?thesis
      using False by (simp add: lines_from_append case_prod_beta parse_lines_append cs)
  qed
qed

text \<open>C36: the console runs the lines of the USB stream, each once and in order, however the
  transfers cut them, up to the transfer in which \<open>ENTERBOOTLOADER\<close> is completed, which resets the
  chip before its lines are run; as long as no line up to there is longer than 128 bytes and no
  transfer ends more than four lines that are not empty.\<close>

theorem console_runs_lines:
  assumes "short_lines 0 (concat (before_boot [] ds))" "few_lines [] (before_boot [] ds)"
  shows "\<exists>cmds. console_run ds init_console = ret (boots (concat ds), cmds) \<and>
    parse_lines (fst (lines_from [] (concat (before_boot [] ds)))) = ret cmds"
  using console_run_lines [of init_console "[]" "[]" ds] assms matches_start
  by (simp add: init_console_def holds_def)

theorem console_runs_lines_witness:
  "\<exists>cmds. console_run [ascii ''he'', ascii ''lp'' @ [13, 10], ascii ''hunt'' @ [10] @ ascii ''ENTERBOOT'',
       ascii ''LOADER'' @ [10] @ ascii ''probe'' @ [10], ascii ''replay'' @ [10]] init_console = ret (True, cmds) \<and>
     parse_lines [ascii ''help'', ascii ''hunt''] = ret cmds"
proof -
  let ?ds = "[ascii ''he'', ascii ''lp'' @ [13, 10], ascii ''hunt'' @ [10] @ ascii ''ENTERBOOT'',
       ascii ''LOADER'' @ [10] @ ascii ''probe'' @ [10], ascii ''replay'' @ [10]]"
  have b: "before_boot [] ?ds = take 3 ?ds" "boots (concat ?ds)" by code_simp+
  have "short_lines 0 (concat (take 3 ?ds))" "few_lines [] (take 3 ?ds)" by code_simp+
  moreover have "fst (lines_from [] (concat (take 3 ?ds))) = [ascii ''help'', ascii ''hunt'']" by code_simp
  ultimately show ?thesis using console_runs_lines [of ?ds] b by auto
qed

text \<open>The help text, by version; every word it explains without an argument is one the console takes.\<close>

definition log_help :: "string \<Rightarrow> string list" where
  "log_help version =
     [''uart-test v'' @ version @ '' 38400 8N1 GP20 TX / GP21 RX'',
      ''tx <hex>   send bytes on UART1 TX  (tx 60 7a 00 02 06 00)'',
      ''blast <hex>  repeat that payload for 500 ms'',
      ''replay     resend last 0x60 clock frame'',
      ''probe      canned TX bursts, 300 ms gap'',
      ''hunt       framed cmds in RX gaps; watch UART stray + digits'',
      ''listen     20 s stray watch (press wireless remote / buttons)'',
      ''help       this text'',
      ''ENTERBOOTLOADER  UF2 BOOTSEL'']"

definition first_word :: "string \<Rightarrow> bytes" where
  "first_word l = ascii (takeWhile (\<lambda>c. c \<noteq> CHR '' '') l)"

lemma help_explains_words:
  "map (parse_line \<circ> first_word) (drop 3 (log_help version)) =
     map ret [Some Replay, Some Probe, Some Hunt, Some Listen, Some Help, None]"
proof -
  have "map (parse_line \<circ> first_word) (drop 3 (log_help [])) =
     map ret [Some Replay, Some Probe, Some Hunt, Some Listen, Some Help, None]" by code_simp
  then show ?thesis by (simp add: log_help_def)
qed

end
