(* ===== verification/Uart_Bench.thy ===== *)
theory Uart_Bench
  imports Uart_Console
begin

text \<open>
  The two UART tasks of the bench tool \<open>examples/uart-test.rs\<close>: the receiver, which sorts the
  bytes it gets into clock frames and stray bytes and counts them, and the bursts the
  transmitter sends for a command.  What is logged is a list of lines, timing of the
  transmitter is left out.
\<close>

unbundle bit_operations_syntax

section \<open>Receiver\<close>

definition RX_LINE :: nat where "RX_LINE = 16"

datatype rx_log =
    Rx_hex bytes | Stray_hex bytes | Nonclock_hex bytes | Incomplete_hex bytes
  | Frame bytes u8 u8 | Rx_err | Stats u32 u32 u32 u32

text \<open>The hex text of a line, from a 192-byte buffer.\<close>

definition log_hex :: "bytes \<Rightarrow> bytes rs" where
  "log_hex data = do {
     (n, hex) \<leftarrow> write_hex data (replicate 192 0);
     slice_of hex 0 n
   }"

text \<open>The locals of \<open>uart_rx_task\<close> and the statics it keeps.\<close>

record rx_state =
  rx_line :: bytes
  line_n :: nat
  packet :: bytes
  pkt_n :: nat
  last_pkt :: bytes
  locked :: bool
  last_win :: bytes
  last_win_n :: nat
  last_win_at :: instant
  stats_at :: instant
  stats_pkts :: u32
  stray_buf :: bytes
  stray_n :: nat
  last_pkt_at :: instant
  rx_pkts :: u32
  rx_errs :: u32
  rx_stray :: u32
  last_rx_ms :: u32
  last_frame :: "bytes option"

definition init_rx :: "clock \<Rightarrow> rx_state" where
  "init_rx c =
     \<lparr>rx_line = replicate RX_LINE 0, line_n = 0, packet = replicate PACKET_LEN 0, pkt_n = 0,
      last_pkt = replicate PACKET_LEN 0, locked = False,
      last_win = replicate RX_LINE 0, last_win_n = 0, last_win_at = 0,
      stats_at = now c, stats_pkts = 0, stray_buf = replicate RX_LINE 0, stray_n = 0,
      last_pkt_at = now c, rx_pkts = 0, rx_errs = 0, rx_stray = 0, last_rx_ms = 0,
      last_frame = None\<rparr>"

definition take_stray :: "rx_state \<Rightarrow> (rx_state \<times> rx_log list) rs" where
  "take_stray r =
     (if stray_n r = 0 then ret (r, [])
      else do {
        s \<leftarrow> slice_of (stray_buf r) 0 (stray_n r);
        h \<leftarrow> log_hex s;
        ret (r\<lparr>rx_stray := rx_stray r + of_nat (stray_n r), stray_n := 0\<rparr>, [Stray_hex h])
      })"

definition emit_rx_hex :: "clock \<Rightarrow> bytes \<Rightarrow> rx_state \<Rightarrow> (rx_state \<times> rx_log list) rs" where
  "emit_rx_hex c data r = do {
     same \<leftarrow> (if last_win_n r = length data
               then do { w \<leftarrow> slice_of (last_win r) 0 (length data); ret (w = data) }
               else ret False);
     if same \<and> elapsed_ms c (last_win_at r) < 2000 then ret (r, [])
     else do {
       w \<leftarrow> copy_into (last_win r) 0 (length data) data;
       h \<leftarrow> log_hex data;
       ret (r\<lparr>last_win := w, last_win_n := length data, last_win_at := now c\<rparr>, [Rx_hex h])
     }
   }"

text \<open>The line window in front of the byte loop's body.\<close>

definition rx_window :: "clock \<Rightarrow> u8 \<Rightarrow> rx_state \<Rightarrow> (rx_state \<times> rx_log list) rs" where
  "rx_window c b r = do {
     (r, es) \<leftarrow> (if line_n r = length (rx_line r)
                  then do { (r, es) \<leftarrow> emit_rx_hex c (rx_line r) r; ret (r\<lparr>line_n := 0\<rparr>, es) }
                  else ret (r, []));
     l \<leftarrow> put (rx_line r) (line_n r) b;
     ret (r\<lparr>rx_line := l, line_n := line_n r + 1\<rparr>, es)
   }"

text \<open>A byte outside a frame.\<close>

definition rx_unsynced :: "clock \<Rightarrow> u8 \<Rightarrow> rx_state \<Rightarrow> (rx_state \<times> rx_log list) rs" where
  "rx_unsynced c b r =
     (if b \<noteq> PACKET_SOF then
        (if locked r then do {
           (r, es) \<leftarrow> (if stray_n r = length (stray_buf r) then take_stray r else ret (r, []));
           s \<leftarrow> put (stray_buf r) (stray_n r) b;
           ret (r\<lparr>stray_buf := s, stray_n := stray_n r + 1\<rparr>, es)
         } else ret (r, []))
      else do {
        p \<leftarrow> put (packet r) 0 b;
        ret (r\<lparr>packet := p, pkt_n := 1, last_pkt_at := now c\<rparr>, [])
      })"

text \<open>Six bytes are there.\<close>

definition rx_frame :: "rx_state \<Rightarrow> (rx_state \<times> rx_log list) rs" where
  "rx_frame r =
     (case parse_clock_packet (packet r) of
        Some (m, sec) \<Rightarrow>
          (let r = r\<lparr>rx_pkts := rx_pkts r + 1, last_frame := Some (packet r)\<rparr> in
           if \<not> locked r \<or> packet r \<noteq> last_pkt r
           then ret (r\<lparr>last_pkt := packet r, locked := True\<rparr>, [Frame (packet r) m sec])
           else ret (r, []))
      | None \<Rightarrow> do {
          h \<leftarrow> log_hex (packet r);
          ret (r\<lparr>rx_stray := rx_stray r + of_nat PACKET_LEN\<rparr>, [Nonclock_hex h])
        })"

definition rx_byte :: "clock \<Rightarrow> u8 \<Rightarrow> rx_state \<Rightarrow> (rx_state \<times> rx_log list) rs" where
  "rx_byte c b r = do {
     (r, es) \<leftarrow> rx_window c b r;
     if pkt_n r = 0 then do { (r, es') \<leftarrow> rx_unsynced c b r; ret (r, es @ es') }
     else do {
       p \<leftarrow> put (packet r) (pkt_n r) b;
       let r = r\<lparr>packet := p, pkt_n := pkt_n r + 1, last_pkt_at := now c\<rparr>;
       if pkt_n r < PACKET_LEN then ret (r, es)
       else do { (r, es') \<leftarrow> rx_frame (r\<lparr>pkt_n := 0\<rparr>); ret (r, es @ es') }
     }
   }"

fun rx_bytes :: "clock \<Rightarrow> bytes \<Rightarrow> rx_state \<Rightarrow> (rx_state \<times> rx_log list) rs" where
  "rx_bytes c [] r = ret (r, [])"
| "rx_bytes c (b # bs) r = do {
     (r, es) \<leftarrow> rx_byte c b r;
     (r, es') \<leftarrow> rx_bytes c bs r;
     ret (r, es @ es')
   }"

text \<open>The window is flushed on an error and on a pause.\<close>

definition flush_window :: "clock \<Rightarrow> rx_state \<Rightarrow> (rx_state \<times> rx_log list) rs" where
  "flush_window c r =
     (if line_n r > 0 then do {
        d \<leftarrow> slice_of (rx_line r) 0 (line_n r);
        (r, es) \<leftarrow> emit_rx_hex c d r;
        ret (r\<lparr>line_n := 0\<rparr>, es)
      } else ret (r, []))"

definition rx_error :: "clock \<Rightarrow> rx_state \<Rightarrow> (rx_state \<times> rx_log list) rs" where
  "rx_error c r = do {
     (r, es) \<leftarrow> flush_window c r;
     ret (r\<lparr>rx_errs := rx_errs r + 1, pkt_n := 0\<rparr>, es @ [Rx_err])
   }"

definition rx_pause :: "clock \<Rightarrow> rx_state \<Rightarrow> (rx_state \<times> rx_log list) rs" where
  "rx_pause c r = do {
     (r, es) \<leftarrow> (if pkt_n r > 0 \<and> elapsed_ms c (last_pkt_at r) \<ge> 250 then do {
                    p \<leftarrow> slice_of (packet r) 0 (pkt_n r);
                    h \<leftarrow> log_hex p;
                    ret (r\<lparr>rx_stray := rx_stray r + of_nat (pkt_n r), pkt_n := 0\<rparr>, [Incomplete_hex h])
                  } else ret (r, []));
     (r, es') \<leftarrow> take_stray r;
     (r, es'') \<leftarrow> flush_window c r;
     ret (r, es @ es' @ es'')
   }"

definition rx_stats :: "clock \<Rightarrow> rx_state \<Rightarrow> rx_state \<times> rx_log list" where
  "rx_stats c r =
     (if elapsed_ms c (stats_at r) \<ge> 1000
      then (r\<lparr>stats_pkts := rx_pkts r, stats_at := now c\<rparr>,
            [Stats (rx_pkts r - stats_pkts r) (rx_pkts r) (rx_errs r) (rx_stray r)])
      else (r, []))"

text \<open>One round of the loop: statistics, then what the select delivers.\<close>

datatype rx_event = Read_ok bytes | Read_err | Pause

definition rx_round :: "clock \<Rightarrow> rx_event \<Rightarrow> rx_state \<Rightarrow> (rx_state \<times> rx_log list) rs" where
  "rx_round c ev r =
     (case rx_stats c r of (r, es) \<Rightarrow> do {
        (r, es') \<leftarrow> (case ev of
             Read_ok bs \<Rightarrow>
               if bs \<noteq> [] then rx_bytes c bs (r\<lparr>last_rx_ms := ucast (millis c (now c))\<rparr>) else ret (r, [])
           | Read_err \<Rightarrow> rx_error c r
           | Pause \<Rightarrow> rx_pause c r);
        ret (r, es @ es')
      })"

fun rx_run :: "(clock \<times> rx_event) list \<Rightarrow> rx_state \<Rightarrow> (rx_state \<times> rx_log list) rs" where
  "rx_run [] r = ret (r, [])"
| "rx_run ((c, ev) # evs) r = do {
     (r, es) \<leftarrow> rx_round c ev r;
     (r, es') \<leftarrow> rx_run evs r;
     ret (r, es @ es')
   }"

section \<open>Transmitter\<close>

text \<open>A frame is a \<open>[u8; 6]\<close>: the constant indices are in bounds by type.\<close>

definition xor_chk :: "bytes \<Rightarrow> u8" where
  "xor_chk pkt = pkt ! 0 XOR pkt ! 2 XOR pkt ! 3 XOR pkt ! 4 XOR pkt ! 5"

definition sum_chk :: "bytes \<Rightarrow> u8" where
  "sum_chk pkt = pkt ! 0 + pkt ! 2 + pkt ! 3 + pkt ! 4 + pkt ! 5"

definition xor8 :: "bytes \<Rightarrow> u8" where
  "xor8 data = foldl (XOR) 0 data"

text \<open>\<open>send_chk_variants\<close>: the frame, then with each checksum in its second byte, then with 0.\<close>

definition chk_variants :: "bytes \<Rightarrow> bytes list" where
  "chk_variants pkt =
     (let p1 = pkt[1 := xor_chk pkt]; p2 = p1[1 := sum_chk p1]
      in [pkt, p1, p2, p2[1 := 0]])"

definition probe_bursts :: "bytes option \<Rightarrow> bytes list" where
  "probe_bursts latest =
     (case latest of Some frame \<Rightarrow> chk_variants frame | None \<Rightarrow> []) @
     map (\<lambda>b. [b]) [0x00, 0xff, 0x55, 0xaa, 0x60] @
     [ascii ''?'' @ [13, 10], ascii ''AT'' @ [13, 10], [13, 10]] @
     chk_variants [PACKET_SOF, 0, 0, 7, 30, 0]"

definition hunt_time :: "bytes option \<Rightarrow> u8 \<times> u8" where
  "hunt_time latest =
     (case latest of
        Some f \<Rightarrow> (case parse_clock_packet f of Some t \<Rightarrow> t | None \<Rightarrow> (7, 30))
      | None \<Rightarrow> (7, 30))"

text \<open>Round 4 of the hunt: for each command byte the frame with either checksum.\<close>

definition hunt_pair :: "u8 \<times> u8 \<Rightarrow> u8 \<Rightarrow> bytes \<times> bytes" where
  "hunt_pair t cmd =
     (let pkt = [PACKET_SOF, 0, cmd, fst t, snd t, snd t];
          pkt = pkt[1 := xor8 [pkt ! 0, pkt ! 2, pkt ! 3, pkt ! 4, pkt ! 5]]
      in (pkt, pkt[1 := pkt ! 0 + pkt ! 2 + pkt ! 3 + pkt ! 4 + pkt ! 5]))"

definition hunt_pairs :: "bytes option \<Rightarrow> (bytes \<times> bytes) list" where
  "hunt_pairs latest = map (hunt_pair (hunt_time latest)) [0x00, 0x01, 0x02, 0x03, 0x10, 0x80, 0xff]"

definition hunt_bursts :: "bytes option \<Rightarrow> bytes list" where
  "hunt_bursts latest =
     map (\<lambda>b. [of_nat b]) [1..<0x21] @
     map (\<lambda>b. [of_nat b, NOT (of_nat b)]) [1..<0x11] @
     concat (map (\<lambda>b. [[0x02, b, 0x03], [0xa5, b, xor8 [0xa5, b]], [0x55, 0xaa, b]])
       [0x01, 0x02, 0x03, 0x10, 0x11, 0x20, 0x30, 0x80, 0xaa]) @
     concat (map (\<lambda>(p, q). [p, q]) (hunt_pairs latest)) @
     (let payload = (case latest of Some f \<Rightarrow> f
                     | None \<Rightarrow> [PACKET_SOF, 0, 0, fst (hunt_time latest), snd (hunt_time latest), 0])
      in map (\<lambda>sof. payload[0 := sof])
        [0x00, 0x01, 0x02, 0x10, 0x20, 0x40, 0x55, 0x61, 0x7e, 0x80, 0xa5, 0xaa, 0xc0, 0xe0, 0xf0, 0xff]) @
     map (\<lambda>t. t @ [13])
       [ascii ''ST'', ascii ''GO'', ascii ''SP'', ascii ''RST'', ascii ''RESET'', ascii ''SET'',
        ascii ''TIME'', ascii ''START'', ascii ''STOP'', ascii ''?'', ascii ''AT'', [1, 2, 3, 4]]"

text \<open>
  \<open>wait_rx_gap\<close>: \<open>rd\<close> gives the successive readings of \<open>LAST_RX_MS\<close>, two per round; the result
  is the number of 12 ms waits.
\<close>

fun wait_rx_gap :: "(nat \<Rightarrow> u32) \<Rightarrow> nat \<Rightarrow> nat \<Rightarrow> nat" where
  "wait_rx_gap rd i 0 = i"
| "wait_rx_gap rd i (Suc n) = (if rd (2 * i + 1) = rd (2 * i) then i + 1 else wait_rx_gap rd (i + 1) n)"

text \<open>
  \<open>send_blast\<close>: \<open>clk\<close> gives the successive readings of the clock, \<open>wr\<close> whether the k-th write
  succeeds.  The result is \<open>n\<close>, the number of complete writes; the loop may run forever.
\<close>

partial_function (option) send_blast :: "(nat \<Rightarrow> instant) \<Rightarrow> (nat \<Rightarrow> bool) \<Rightarrow> instant \<Rightarrow> nat \<Rightarrow> u32 \<Rightarrow> u32 option" where
  "send_blast clk wr e k n =
     (if clk k < e then (if wr k then send_blast clk wr e (k + 1) (sat_add n 1) else Some n)
      else Some n)"

text \<open>What \<open>uart_tx_task\<close> sends for a command; a blast sends its burst \<open>rounds\<close> times.\<close>

fun tx_bursts :: "nat \<Rightarrow> bytes option \<Rightarrow> host_cmd \<Rightarrow> bytes list rs" where
  "tx_bursts rounds latest Help = ret []"
| "tx_bursts rounds latest (Tx b) = do { d \<leftarrow> as_slice b; ret [d] }"
| "tx_bursts rounds latest (Blast b) = do { d \<leftarrow> as_slice b; ret (replicate rounds d) }"
| "tx_bursts rounds latest Replay = ret (case latest of Some frame \<Rightarrow> [frame] | None \<Rightarrow> [])"
| "tx_bursts rounds latest Probe = ret (probe_bursts latest)"
| "tx_bursts rounds latest Hunt = ret (hunt_bursts latest)"
| "tx_bursts rounds latest Listen = ret []"

text \<open>
  What sending one burst logs: \<open>ok\<close> is whether the write succeeded, \<open>stray0\<close> and \<open>stray1\<close> the
  readings of \<open>RX_STRAY\<close> before and after.
\<close>

datatype tx_log =
    Tx_hex bytes | Tx_error | Window_end | Hunt_hex bytes | Hunt_stray u32
  | Listen_start | Listen_done u32 u32 u32 | Hunt_done u32 u32 u32

definition send_burst :: "bool \<Rightarrow> bytes \<Rightarrow> tx_log list rs" where
  "send_burst ok data = do {
     h \<leftarrow> log_hex data;
     ret (Tx_hex h # (if ok then [Window_end] else [Tx_error]))
   }"

definition send_gap :: "bool \<Rightarrow> u32 \<Rightarrow> u32 \<Rightarrow> bytes \<Rightarrow> tx_log list rs" where
  "send_gap ok stray0 stray1 data = do {
     h \<leftarrow> log_hex data;
     ret (Hunt_hex h # (if \<not> ok then [Tx_error]
                        else if stray1 \<noteq> stray0 then [Hunt_stray (stray1 - stray0)] else []))
   }"

definition listen_stray :: "u32 \<Rightarrow> u32 \<Rightarrow> tx_log list" where
  "listen_stray stray0 stray1 = [Listen_start, Listen_done stray0 stray1 (stray1 - stray0)]"

text \<open>The line that ends a hunt.\<close>

definition hunt_done :: "u32 \<Rightarrow> u32 \<Rightarrow> tx_log" where
  "hunt_done stray0 stray1 = Hunt_done stray0 stray1 (stray1 - stray0)"

section \<open>The receiver never gets stuck\<close>

text \<open>
  The state's type: every buffer has its size, every cursor is inside its buffer, and a
  remembered frame is a clock frame.
\<close>

definition rx_wf :: "rx_state \<Rightarrow> bool" where
  "rx_wf r \<longleftrightarrow> length (rx_line r) = 16 \<and> line_n r \<le> 16 \<and> length (packet r) = 6 \<and> pkt_n r < 6 \<and>
     length (last_win r) = 16 \<and> last_win_n r \<le> 16 \<and> length (stray_buf r) = 16 \<and> stray_n r \<le> 16 \<and>
     (case last_frame r of None \<Rightarrow> True | Some f \<Rightarrow> length f = 6 \<and> parse_clock_packet f \<noteq> None)"

lemma rx_wf_init: "rx_wf (init_rx c)"
  by (simp add: rx_wf_def init_rx_def RX_LINE_def decode_consts)

text \<open>Every received byte is in a counted frame, counted as stray, or still in a buffer.\<close>

definition rx_seen :: "rx_state \<Rightarrow> u32" where
  "rx_seen r = 6 * rx_pkts r + rx_stray r + of_nat (stray_n r + pkt_n r)"

text \<open>An operation that keeps the state's type, the lock and, from there on, what has been seen.\<close>

definition keeps :: "nat \<Rightarrow> rx_state \<Rightarrow> (rx_state \<times> rx_log list) rs \<Rightarrow> bool" where
  "keeps k r res \<longleftrightarrow> (case res of None \<Rightarrow> False | Some (r', es) \<Rightarrow>
     rx_wf r' \<and> (locked r \<longrightarrow> locked r' \<and> rx_seen r' = rx_seen r + of_nat k))"

lemma log_hex_eq: "log_hex data = ret (hex_text (take 64 data))"
proof -
  have "3 * length (take 64 data) - 1 \<le> 192" by simp
  then show ?thesis by (simp add: log_hex_def write_hex_eq Let_def slice_of_ok)
qed

lemma keeps_cong: 
  "keeps k r' m \<Longrightarrow> locked r' = locked r \<Longrightarrow> rx_seen r' + of_nat k = rx_seen r + of_nat j \<Longrightarrow> keeps j r m"
  by (auto simp: keeps_def split: option.splits)

lemma keeps_bind:
  assumes "keeps i r m" "\<And>r' es. rx_wf r' \<Longrightarrow> keeps j r' (f (r', es))"
  shows "keeps (i + j) r (m \<bind> f)"
proof -
  obtain r' es where m: "m = ret (r', es)" "rx_wf r'"
      "locked r \<longrightarrow> locked r' \<and> rx_seen r' = rx_seen r + of_nat i"
    using assms(1) by (auto simp: keeps_def split: option.splits)
  with assms(2) [OF m(2), of es] show ?thesis
    by (auto simp: keeps_def add.assoc split: option.splits)
qed

lemmas keeps_bind_0 = keeps_bind [where i = 0, simplified] keeps_bind [where j = 0, simplified]

lemma take_stray_keeps: "rx_wf r \<Longrightarrow> keeps 0 r (take_stray r)"
  by (auto simp: take_stray_def rx_wf_def slice_of_ok log_hex_eq rx_seen_def keeps_def)

lemma emit_rx_hex_keeps: "length data \<le> 16 \<Longrightarrow> rx_wf r \<Longrightarrow> keeps 0 r (emit_rx_hex c data r)"
  by (auto simp: emit_rx_hex_def rx_wf_def slice_of_ok copy_into_ok log_hex_eq rx_seen_def keeps_def)

lemma flush_window_keeps: "rx_wf r \<Longrightarrow> keeps 0 r (flush_window c r)"
proof (cases "line_n r = 0")
  case False
  assume wf: "rx_wf r"
  then have "length (take (line_n r) (rx_line r)) \<le> 16" by (simp add: rx_wf_def)
  from keeps_bind_0(1) [OF emit_rx_hex_keeps [OF this wf]] False wf show ?thesis
    by (simp add: flush_window_def slice_of_ok rx_wf_def rx_seen_def keeps_def case_prod_beta)
qed (simp add: flush_window_def keeps_def)

lemma rx_window_keeps: "rx_wf r \<Longrightarrow> keeps 0 r (rx_window c b r)"
proof -
  assume wf: "rx_wf r"
  let ?put = "\<lambda>(r :: rx_state, es :: rx_log list). do {
     l \<leftarrow> put (rx_line r) (line_n r) b;
     ret (r\<lparr>rx_line := l, line_n := line_n r + 1\<rparr>, es)
   }"
  have put: "keeps 0 r (?put (r, es))" if "rx_wf r" "line_n r < 16" for r es
    using that by (simp add: put_ok rx_wf_def keeps_def rx_seen_def)
  show ?thesis
  proof (cases "line_n r = 16")
    case True
    have "length (rx_line r) \<le> 16" using wf by (simp add: rx_wf_def)
    then have "keeps 0 r (emit_rx_hex c (rx_line r) r \<bind> (\<lambda>(r, es). ?put (r\<lparr>line_n := 0\<rparr>, es)))"
    proof (rule keeps_bind_0(1) [OF emit_rx_hex_keeps [OF _ wf]], goal_cases)
      case (1 r es)
      then have "rx_wf (r\<lparr>line_n := 0\<rparr>)" by (simp add: rx_wf_def)
      from put [OF this, of es] have "keeps 0 r (?put (r\<lparr>line_n := 0\<rparr>, es))"
        by (rule keeps_cong) (simp_all add: rx_seen_def)
      then show ?case by simp
    qed
    moreover have "rx_window c b r = emit_rx_hex c (rx_line r) r \<bind> (\<lambda>(r, es). ?put (r\<lparr>line_n := 0\<rparr>, es))"
      using True wf by (cases "emit_rx_hex c (rx_line r) r") (auto simp: rx_window_def rx_wf_def)
    ultimately show ?thesis by simp
  next
    case False
    with wf put [of r] show ?thesis by (simp add: rx_window_def rx_wf_def)
  qed
qed

lemma rx_unsynced_keeps:
  assumes "rx_wf r" "pkt_n r = 0"
  shows "keeps 1 r (rx_unsynced c b r)"
proof (cases "b \<noteq> PACKET_SOF \<and> locked r")
  case True
  let ?put = "\<lambda>(r :: rx_state, es :: rx_log list). do {
     s \<leftarrow> put (stray_buf r) (stray_n r) b;
     ret (r\<lparr>stray_buf := s, stray_n := stray_n r + 1\<rparr>, es)
   }"
  have put: "keeps 1 r (?put (r, es))" if "rx_wf r" "stray_n r < 16" for r es
    using that by (simp add: put_ok rx_wf_def keeps_def rx_seen_def)
  show ?thesis
  proof (cases "stray_n r = 16")
    case full: True
    have "take_stray r = ret (r\<lparr>rx_stray := rx_stray r + 16, stray_n := 0\<rparr>,
        [Stray_hex (hex_text (stray_buf r))])"
      using full assms(1) by (simp add: take_stray_def rx_wf_def slice_of_ok log_hex_eq)
    with full True assms(1) show ?thesis
      by (simp add: rx_unsynced_def put_ok rx_wf_def keeps_def rx_seen_def)
  next
    case False
    with True put [of r] assms(1) show ?thesis by (simp add: rx_unsynced_def rx_wf_def)
  qed
next
  case False
  with assms show ?thesis
    by (auto simp: rx_unsynced_def put_ok rx_wf_def keeps_def rx_seen_def)
qed

lemma rx_frame_keeps:
  assumes "rx_wf r" "pkt_n r = 0"
  shows "keeps 6 r (rx_frame r)"
  using assms
  by (auto simp: rx_frame_def keeps_def rx_wf_def rx_seen_def log_hex_eq decode_consts Let_def algebra_simps
      split: option.splits)

lemma keeps_log: "keeps k r (m \<bind> (\<lambda>(r, es'). ret (r, es @ es'))) = keeps k r m"
  by (cases m) (auto simp: keeps_def)

lemma rx_byte_keeps:
  assumes "rx_wf r"
  shows "keeps 1 r (rx_byte c b r)"
  unfolding rx_byte_def
proof (rule keeps_bind_0(1) [OF rx_window_keeps [OF assms]], goal_cases)
  case (1 r es)
  show ?case
  proof (cases "pkt_n r = 0")
    case True
    with rx_unsynced_keeps [OF 1 True] show ?thesis by (simp add: keeps_log)
  next
    case False
    let ?r = "r\<lparr>packet := (packet r)[pkt_n r := b], pkt_n := pkt_n r + 1, last_pkt_at := now c\<rparr>"
    have p: "put (packet r) (pkt_n r) b = ret ((packet r)[pkt_n r := b])"
      using 1 by (simp add: rx_wf_def put_ok)
    show ?thesis
    proof (cases "pkt_n r + 1 < PACKET_LEN")
      case True
      with False p 1 show ?thesis by (simp add: keeps_def rx_wf_def rx_seen_def decode_consts)
    next
      case full: False
      then have five: "pkt_n r = 5" using 1 by (simp add: rx_wf_def decode_consts)
      have "rx_wf (?r\<lparr>pkt_n := 0\<rparr>)" using 1 by (simp add: rx_wf_def)
      from rx_frame_keeps [OF this] have "keeps 6 (?r\<lparr>pkt_n := 0\<rparr>) (rx_frame (?r\<lparr>pkt_n := 0\<rparr>))" by simp
      then have "keeps 1 r (rx_frame (?r\<lparr>pkt_n := 0\<rparr>))"
        by (rule keeps_cong) (simp_all add: rx_seen_def five)
      with False full p show ?thesis by (simp add: keeps_log Let_def)
    qed
  qed
qed

lemma rx_bytes_keeps: "rx_wf r \<Longrightarrow> keeps (length bs) r (rx_bytes c bs r)"
proof (induction bs arbitrary: r)
  case (Cons b bs)
  have "keeps (1 + length bs) r (rx_bytes c (b # bs) r)"
    unfolding rx_bytes.simps
  proof (rule keeps_bind [OF rx_byte_keeps [OF Cons.prems]], goal_cases)
    case (1 r es)
    with Cons.IH [OF 1] show ?case by (simp add: keeps_log)
  qed
  then show ?case by simp
qed (simp add: keeps_def)

lemma rx_pause_keeps:
  assumes "rx_wf r"
  shows "keeps 0 r (rx_pause c r)"
  unfolding rx_pause_def
proof (rule keeps_bind_0(1), goal_cases)
  case 1
  show ?case
    using assms by (simp add: keeps_def slice_of_ok log_hex_eq rx_wf_def rx_seen_def)
next
  case (2 r es)
  show ?case
    unfolding prod.case
  proof (rule keeps_bind_0(1) [OF take_stray_keeps [OF 2]], goal_cases)
    case (1 r es')
    have "keeps 0 r (flush_window c r)" by (rule flush_window_keeps [OF 1])
    then show ?case by (auto simp: keeps_def split: option.splits)
  qed
qed

lemma rx_error_wf: "rx_wf r \<Longrightarrow> \<exists>r' es. rx_error c r = ret (r', es) \<and> rx_wf r' \<and> (locked r \<longrightarrow> locked r')"
  using flush_window_keeps [of r c]
  by (auto simp: rx_error_def keeps_def rx_wf_def split: option.splits)

text \<open>The bytes an event delivers.\<close>

fun delivered :: "rx_event \<Rightarrow> bytes" where
  "delivered (Read_ok bs) = bs"
| "delivered Read_err = []"
| "delivered Pause = []"

lemma rx_round_keeps:
  assumes "rx_wf r" "ev \<noteq> Read_err"
  shows "keeps (length (delivered ev)) r (rx_round c ev r)"
proof -
  obtain r0 es0 where s: "rx_stats c r = (r0, es0)" by force
  then have r0: "rx_wf r0" "locked r0 = locked r" "rx_seen r0 = rx_seen r"
    using assms(1) by (auto simp: rx_stats_def rx_wf_def rx_seen_def split: if_splits)
  have ok: "keeps (length bs) r (rx_bytes c bs (r0\<lparr>last_rx_ms := t\<rparr>))" for bs t
  proof -
    have "rx_wf (r0\<lparr>last_rx_ms := t\<rparr>)" using r0(1) by (simp add: rx_wf_def)
    from rx_bytes_keeps [OF this, of bs c] show ?thesis
      by (rule keeps_cong) (use r0 in \<open>simp_all add: rx_seen_def\<close>)
  qed
  have pause: "keeps 0 r (rx_pause c r0)"
    using rx_pause_keeps [OF r0(1)] by (rule keeps_cong) (simp_all add: r0)
  show ?thesis
  proof (cases ev)
    case (Read_ok bs)
    with ok [of bs] r0 show ?thesis
      by (cases "bs = []") (simp_all add: rx_round_def s keeps_log, simp add: keeps_def)
  qed (use assms(2) pause in \<open>simp_all add: rx_round_def s keeps_log\<close>)
qed

lemma rx_round_wf:
  assumes "rx_wf r"
  shows "\<exists>r' es. rx_round c ev r = ret (r', es) \<and> rx_wf r'"
proof (cases "ev = Read_err")
  case True
  obtain r0 es0 where s: "rx_stats c r = (r0, es0)" by force
  then have "rx_wf r0" using assms by (auto simp: rx_stats_def rx_wf_def split: if_splits)
  from rx_error_wf [OF this, of c] show ?thesis by (auto simp: rx_round_def s True)
next
  case False
  with rx_round_keeps [OF assms False, of c] show ?thesis
    by (auto simp: keeps_def split: option.splits)
qed

lemma rx_run_wf: "rx_wf r \<Longrightarrow> \<exists>r' es. rx_run evs r = ret (r', es) \<and> rx_wf r'"
proof (induction evs arbitrary: r)
  case (Cons e evs)
  obtain c ev where e: "e = (c, ev)" by force
  from rx_round_wf [OF Cons.prems, of c ev] obtain r1 es1 where "rx_round c ev r = ret (r1, es1)" "rx_wf r1"
    by blast
  with Cons.IH [of r1] e show ?case by auto
qed simp

lemma rx_run_keeps:
  "rx_wf r \<Longrightarrow> Read_err \<notin> snd ` set evs \<Longrightarrow>
   keeps (length (concat (map (delivered \<circ> snd) evs))) r (rx_run evs r)"
proof (induction evs arbitrary: r)
  case (Cons e evs)
  obtain c ev where e: "e = (c, ev)" by force
  with Cons.prems have "ev \<noteq> Read_err" by auto
  from keeps_bind [OF rx_round_keeps [OF Cons.prems(1) this, of c], of _ "\<lambda>(r, es). rx_run evs r \<bind> (\<lambda>(r, es'). ret (r, es @ es'))"]
  show ?case using Cons.IH Cons.prems(2) by (simp add: e keeps_log)
qed (simp add: keeps_def)

text \<open>C33: the receiver of the bench tool is type safe: from its start, whatever it receives and
  whenever, every run returns with its cursors inside their buffers and, if it remembers a frame,
  a clock frame of six bytes.\<close>

theorem bench_rx_type_safe:
  "\<exists>r es. rx_run evs (init_rx c) = ret (r, es) \<and> line_n r \<le> length (rx_line r) \<and>
     pkt_n r < length (packet r) \<and> stray_n r \<le> length (stray_buf r) \<and>
     (case last_frame r of None \<Rightarrow> True | Some f \<Rightarrow> length f = 6 \<and> parse_clock_packet f \<noteq> None)"
  using rx_run_wf [OF rx_wf_init, of evs c] by (fastforce simp: rx_wf_def)

text \<open>C34: once it has locked onto a frame it accounts for every byte: what it received is six
  bytes per counted frame, the stray count and what is still in its buffers, as long as the UART
  reports no error.\<close>

theorem bench_rx_counts_bytes:
  assumes "rx_run evs (init_rx c) = ret (r, es)" "locked r" "Read_err \<notin> snd ` set evs'"
  shows "\<exists>r' es'. rx_run evs' r = ret (r', es') \<and>
    6 * rx_pkts r' + rx_stray r' + of_nat (stray_n r' + pkt_n r') =
    6 * rx_pkts r + rx_stray r + of_nat (stray_n r + pkt_n r) +
    of_nat (length (concat (map (delivered \<circ> snd) evs')))"
proof -
  have "rx_wf r" using rx_run_wf [OF rx_wf_init, of evs c] assms(1) by auto
  from rx_run_keeps [OF this assms(3)] assms(2) show ?thesis
    by (auto simp: keeps_def rx_seen_def split: option.splits)
qed

definition still :: clock where "still = \<lparr>now = 0, millis = (\<lambda>_. 0)\<rparr>"

lemma still_locks:
  "case rx_run [(still, Read_ok [0x60, 0x7a, 0, 2, 6, 0])] (init_rx still) of None \<Rightarrow> False | Some (r, es) \<Rightarrow> locked r"
  by code_simp

theorem bench_rx_counts_bytes_witness:
  "\<exists>r es. rx_run [(still, Read_ok [0x60, 0x7a, 0, 2, 6, 0])] (init_rx still) = ret (r, es) \<and>
    (\<exists>r' es'. rx_run [(still, Read_ok [1, 2, 0x60])] r = ret (r', es') \<and>
       6 * rx_pkts r' + rx_stray r' + of_nat (stray_n r' + pkt_n r') =
       6 * rx_pkts r + rx_stray r + of_nat (stray_n r + pkt_n r) + 3)"
proof -
  obtain r es where r: "rx_run [(still, Read_ok [0x60, 0x7a, 0, 2, 6, 0])] (init_rx still) = ret (r, es)" "locked r"
    using still_locks by (auto split: option.splits simp del: rx_run.simps)
  show ?thesis
    using bench_rx_counts_bytes [OF r, of "[(still, Read_ok [1, 2, 0x60])]"] r by (auto simp del: rx_run.simps)
qed

section \<open>What the transmitter sends\<close>

lemma hunt_time_valid: "fst (hunt_time latest) \<le> 99 \<and> snd (hunt_time latest) \<le> 59"
  by (auto simp: hunt_time_def parse_clock_packet_Some split: option.split)

text \<open>The frames of the fourth round of a hunt all show the time of the last frame received
  (07:30 if there is none), the first of each pair with the checksum that makes the exclusive or
  of the frame 0, the second with the sum of its other bytes.\<close>

lemma hunt_frames_carry_time:
  "list_all (\<lambda>(p, q). parse_clock_packet p = Some (hunt_time latest) \<and>
     parse_clock_packet q = Some (hunt_time latest) \<and> xor8 p = 0 \<and> q ! 1 = sum_chk q) (hunt_pairs latest)"
  using hunt_time_valid [of latest]
  by (cases "hunt_time latest")
    (simp add: hunt_pairs_def hunt_pair_def Let_def parse_clock_packet_Some PACKET_SOF_def xor8_def
      sum_chk_def xor.assoc xor.left_commute xor.commute)

lemma wait_rx_gap_bound: "i \<le> wait_rx_gap rd i n \<and> wait_rx_gap rd i n \<le> i + n"
proof (induction n arbitrary: i)
  case (Suc n)
  from Suc [of "i + 1"] show ?case by auto
qed simp

lemma send_blast_returns:
  "clk (k + d) < e \<and> wr (k + d) \<longleftrightarrow> False \<Longrightarrow> \<exists>m. send_blast clk wr e k n = Some m"
proof (induction d arbitrary: k n)
  case 0
  then show ?case by (subst send_blast.simps) auto
next
  case (Suc d)
  from Suc.IH [of "k + 1" "sat_add n 1"] Suc.prems show ?case by (subst send_blast.simps) simp
qed

lemma send_blast_returned:
  assumes "send_blast clk wr e k n = Some m"
  shows "\<exists>j. (clk j < e \<and> wr j) = False"
proof (rule send_blast.raw_induct [where P = "\<lambda>clk wr e k n m. \<exists>j. (clk j < e \<and> wr j) = False", OF _ assms], goal_cases)
  case (1 f clk wr e k n m)
  then show ?case by (cases "clk k < e \<and> wr k") auto
qed

text \<open>A blast ends exactly if the clock reaches its end or a write fails at some round; it runs
  forever on no other account.\<close>

lemma blast_ends_iff:
  "(\<exists>n. send_blast clk wr e 0 0 = Some n) \<longleftrightarrow> (\<exists>k. (clk k < e \<and> wr k) = False)"
proof
  assume "\<exists>k. (clk k < e \<and> wr k) = False"
  then obtain k where "clk (0 + k) < e \<and> wr (0 + k) \<longleftrightarrow> False" by auto
  then show "\<exists>n. send_blast clk wr e 0 0 = Some n" by (rule send_blast_returns)
qed (blast dest: send_blast_returned)

text \<open>A hunt burst reports exactly the stray bytes counted meanwhile, over a wrap of the counter too.\<close>

lemma send_gap_counts:
  assumes "0 < k" "k < 2 ^ 32"
  shows "\<exists>h. send_gap True stray0 (stray0 + of_nat k) data = ret [Hunt_hex h, Hunt_stray (of_nat k)]"
proof -
  have "unat (of_nat k :: u32) = k" using assms(2) by (simp add: unat_of_nat)
  with assms(1) have "(of_nat k :: u32) \<noteq> 0" by auto
  then show ?thesis by (simp add: send_gap_def log_hex_eq)
qed

end
