(* ===== verification/Unit_Tests.thy ===== *)
theory Unit_Tests
  imports Decode Leases Dns_Proto
begin

text \<open>
  The unit tests of \<open>src/decode.rs\<close> and \<open>src/net_proto.rs\<close> on the model: each test is the
  conjunction of its assertions, and passes.  A panic would fail it.
\<close>

section \<open>src/decode.rs\<close>

definition pkt :: "u8 \<Rightarrow> u8 \<Rightarrow> bytes" where
  "pkt m sec = [0x60, 0, 0, m, sec, 0]"

definition parse_captured_countdown_frames :: bool where
  "parse_captured_countdown_frames \<longleftrightarrow>
     parse_clock_packet [0x60, 0x7a, 0x00, 0x02, 0x06, 0x00] = Some (2, 6) \<and>
     parse_clock_packet [0x60, 0x3c, 0x00, 0x01, 0x3b, 0x00] = Some (1, 59) \<and>
     parse_clock_packet (pkt 7 30) = Some (7, 30)"

definition parse_rejects_bad_sof_or_range :: bool where
  "parse_rejects_bad_sof_or_range \<longleftrightarrow>
     parse_clock_packet [0x00, 0x7a, 0x00, 0x02, 0x06, 0x00] = None \<and>
     parse_clock_packet (pkt 100 0) = None \<and> parse_clock_packet (pkt 0 60) = None"

definition running_from_time_updates :: bool where
  "running_from_time_updates \<longleftrightarrow>
     \<not> clock_is_running 0 0 0 \<and> \<not> clock_is_running 0 0 500 \<and> clock_is_running 7 30 0 \<and>
     clock_is_running 7 29 500 \<and> clock_is_running 7 30 (STOPPED_AFTER_MS - 1) \<and>
     \<not> clock_is_running 7 30 STOPPED_AFTER_MS \<and> clock_is_running 7 30 0"

definition write_hex_spaces :: "bool rs" where
  "write_hex_spaces = do {
     (n, out) \<leftarrow> write_hex [0x00, 0xab, 0x3f] (replicate 16 0);
     t \<leftarrow> slice_of out 0 n;
     ret (t = ascii ''00 ab 3f'')
   }"

definition start_stop_idempotent_until_uart :: bool where
  "start_stop_idempotent_until_uart \<longleftrightarrow>
     start_stop_pulse_needed False (Some True) \<and> \<not> start_stop_pulse_needed True (Some True) \<and>
     start_stop_pulse_needed True (Some False) \<and> \<not> start_stop_pulse_needed False (Some False) \<and>
     start_stop_pulse_needed True (Some False) \<and> start_stop_pulse_needed False (Some True) \<and>
     start_stop_pulse_needed False None \<and> start_stop_pulse_needed True None"

definition pending_clears_when_uart_matches_or_times_out :: bool where
  "pending_clears_when_uart_matches_or_times_out \<longleftrightarrow>
     resolve_pending_running (Some True) False 0 = Some True \<and>
     resolve_pending_running (Some True) True 100 = None \<and>
     resolve_pending_running (Some True) False STOPPED_AFTER_MS = None \<and>
     resolve_pending_running (Some False) True 500 = Some False \<and>
     resolve_pending_running (Some False) True (STOPPED_AFTER_MS - 1) = Some False \<and>
     resolve_pending_running (Some False) False 500 = None \<and>
     resolve_pending_running None True 0 = None"

lemma decode_tests_pass:
  "parse_captured_countdown_frames" "parse_rejects_bad_sof_or_range" "running_from_time_updates"
  "write_hex_spaces = ret True" "start_stop_idempotent_until_uart"
  "pending_clears_when_uart_matches_or_times_out"
  by code_simp+

section \<open>src/net_proto.rs\<close>

definition dhcp_min :: "u8 \<Rightarrow> bytes \<Rightarrow> bytes option \<Rightarrow> bytes rs" where
  "dhcp_min msg m opt50 = do {
     let p = replicate 256 0;
     p \<leftarrow> put p 0 1;
     p \<leftarrow> put p 1 1;
     p \<leftarrow> put p 2 6;
     p \<leftarrow> copy_into p 28 34 m;
     p \<leftarrow> copy_into p 236 240 DHCP_MAGIC;
     let i = 240;
     p \<leftarrow> put p i 53;
     p \<leftarrow> put p (i + 1) 1;
     p \<leftarrow> put p (i + 2) msg;
     let i = i + 3;
     (p, i) \<leftarrow> (case opt50 of
         None \<Rightarrow> ret (p, i)
       | Some ip \<Rightarrow> do {
           p \<leftarrow> put p i 50;
           p \<leftarrow> put p (i + 1) 4;
           p \<leftarrow> copy_into p (i + 2) (i + 6) ip;
           ret (p, i + 6)
         });
     put p i 255
   }"

definition option_53_and_50 :: "bool rs" where
  "option_53_and_50 = do {
     p \<leftarrow> dhcp_min DHCP_REQUEST [1, 2, 3, 4, 5, 6] (Some [192, 168, 0, 10]);
     t \<leftarrow> dhcp_msg_type p;
     want \<leftarrow> requested_ip p;
     ret (t = Some DHCP_REQUEST \<and> want = Some [192, 168, 0, 10])
   }"

text \<open>The clients of the first loop, each asserted to get the slot of its number.\<close>

fun lru_clients :: "u8 list \<Rightarrow> lease list \<Rightarrow> u32 \<Rightarrow> (bool \<times> lease list \<times> u32) rs" where
  "lru_clients [] leases sq = ret (True, leases, sq)"
| "lru_clients (i # is) leases sq = do {
     (slot, leases, sq) \<leftarrow> slot_for_mac leases sq [i, 0, 0, 0, 0, 1];
     (ok, leases, sq) \<leftarrow> lru_clients is leases sq;
     ret (slot = i \<and> ok, leases, sq)
   }"

definition lru_does_not_hash_overwrite :: "bool rs" where
  "lru_does_not_hash_overwrite = do {
     (ok, leases, sq) \<leftarrow> lru_clients (map of_nat [0..<8]) (replicate 8 EMPTY) 0;
     let ninth = [9, 0, 0, 0, 0, 1];
     (evicted, leases, sq) \<leftarrow> slot_for_mac leases sq ninth;
     l \<leftarrow> idx leases 0;
     let first_again = [0, 0, 0, 0, 0, 1];
     (slot, leases, sq) \<leftarrow> slot_for_mac leases sq first_again;
     ret (ok \<and> evicted = 0 \<and> mac l = ninth \<and> slot = 1)
   }"

definition dns_strips_edns_and_sets_ancount :: "bool rs" where
  "dns_strips_edns_and_sets_ancount = do {
     let q = [0x12, 0x34, 1, 0, 0, 1, 0, 0, 0, 0, 0, 1, 1, 97, 3, 99, 111, 109, 0, 0, 1, 0, 1] @
       replicate 17 0xAA;
     (r, out) \<leftarrow> build_dns_reply q 40 (replicate 512 0);
     case r of
       None \<Rightarrow> panic
     | Some len \<Rightarrow> do {
         addr \<leftarrow> slice_of out (len - 4) len;
         ret (len = 23 + 16 \<and> out ! 7 = 1 \<and> out ! 10 = 0 \<and> out ! 11 = 0 \<and> addr = SERVER_IP \<and>
           out ! 23 \<noteq> 0xAA)
       }
   }"

definition dns_aaaa_is_nodata :: "bool rs" where
  "dns_aaaa_is_nodata = do {
     let q = [0, 0, 0, 0, 0, 1, 0, 0, 0, 0, 0, 0, 1, 97, 3, 99, 111, 109, 0, 0, 28, 0, 1];
     (r, out) \<leftarrow> build_dns_reply q 23 (replicate 512 0);
     case r of None \<Rightarrow> panic | Some len \<Rightarrow> ret (len = 23 \<and> out ! 7 = 0)
   }"

lemma dhcp_tests_pass: "option_53_and_50 = ret True" "lru_does_not_hash_overwrite = ret True"
  by code_simp+

lemma dns_tests_pass: "dns_strips_edns_and_sets_ancount = ret True" "dns_aaaa_is_nodata = ret True"
  by code_simp+

end
