(* ===== verification/Spec2Isabelle.thy ===== *)
theory Spec2Isabelle
  imports Service Udp_Services Build Firmware Led Net_Services Flash_Map Portal Log_Facade Uart_Bench Unit_Tests
begin

text \<open>
  A model of ScoreboardCtrl, the Raspberry Pi Pico W firmware that puts a phone in front of a
  sports scoreboard: it presses the scoreboard's remote-control buttons through GPIO pulses,
  reads the running time back from the scoreboard's UART, and serves a web page over its own
  Wi-Fi access point.

  \<^bold>\<open>The program.\<close>  Async tasks on one core share \<open>ScoreboardState\<close> behind a mutex.
  \<open>board_task\<close> (\<open>src/main.rs\<close>) takes commands from a channel of eight, changes the state and
  pulses pins; \<open>read_serial\<close> turns UART bytes into \<open>set_clock\<close> calls (hardware build), or
  \<open>timer_task\<close> counts down (simulate build); \<open>heartbeat_task\<close> refreshes the run flag and blinks
  the LED; HTTP workers send commands, serve \<open>/api/status\<close> and keep \<open>/api/events\<close> streams that
  wait on the watch channel \<open>EVENTS\<close>; UDP tasks (\<open>src/net_services.rs\<close> over \<open>src/net_proto.rs\<close>)
  are a DHCP server, a DNS server that answers every name with the scoreboard and an mDNS
  responder; \<open>src/ota.rs\<close> takes firmware uploads; \<open>src/ap_log.rs\<close> prints query names.
  \<open>examples/uart-test.rs\<close> is a bench tool for the UART.

  \<^bold>\<open>Theories.\<close>
  \<^item> \<open>Prelude\<close>: word types, the panic monad (\<open>'a rs\<close>: an out-of-range index or slice is
    \<open>panic\<close>), the clock the environment supplies, shared lemmas.
  \<^item> \<open>Decode\<close> (\<open>src/decode.rs\<close>): clock frames, hex text, the predicates for running, pulses and
    pending requests.
  \<^item> \<open>Scoreboard\<close>: \<open>ScoreboardState\<close> and its methods, its invariant, and the contract
    \<open>scoreboard_op\<close> of a critical section (keep the invariant; signal a visible change).
    \<open>EVENTS.send\<close> is a counter in the state.
  \<^item> \<open>Board_Task\<close>: every command of \<open>board_task\<close> as a program of effects and critical sections,
    between which other tasks may run; \<open>run_board\<close> executes them against an environment.
  \<^item> \<open>Tasks\<close>: \<open>timer_task\<close> and the sections of the other tasks; the locale \<open>interference\<close> is what
    \<open>board_task\<close> relies on.
  \<^item> \<open>Board_Correct\<close>, \<open>Run_State\<close>: what the programs guarantee under any schedule: invariant,
    pulse trains, scores; start and stop decisions, set-timer trains, the simulated clock.
  \<^item> \<open>Uart_Reader\<close>: \<open>read_serial\<close> as a byte machine, against the packets of the stream.
  \<^item> \<open>Events\<close>: event streams, one step per section or channel call.  \<open>System\<close>: state, channel,
    \<open>board_task\<close>, clock tasks and streams as one transition system, and the locale \<open>refinement\<close>
    for systems below it.  \<open>Led\<close>: the heartbeat beside that system and the lamp that both drive.
    \<open>Board_Run\<close>: the commands as score keeping, and the steps that are \<open>board_task\<close>'s.
    \<open>Board_Rest\<close>: these steps end, with a clock that goes on and whatever other tasks do in between,
    unless frames with a new time come without end during a train; the locale \<open>board_host\<close> gives this
    to every system that runs \<open>board_task\<close>.
    \<open>Firmware\<close>: the hardware build with the UART reader byte by byte in the place of its packets,
    with the history of bytes heard and commands posted.  \<open>Service\<close>: either build with the twelve HTTP
    workers and their requests, with the history of commands accepted and answered.
  \<^item> \<open>Http\<close>: captive portal state, handlers and replies, request log, route table, status
    document.  \<open>Web\<close>: the worker pool's counter, and \<open>bind_retry\<close>.
  \<^item> \<open>Dhcp_Proto\<close>, \<open>Leases\<close>, \<open>Dns_Proto\<close> (\<open>src/net_proto.rs\<close>), \<open>Ap_Log\<close>
    (\<open>src/ap_log.rs\<close>), \<open>Net_Services\<close>: packets, lease table, what each UDP task does with a
    datagram.  \<open>Udp_Services\<close>: the three tasks from binding the port through the receive loop.
  \<^item> \<open>Ota\<close> (\<open>src/ota.rs\<close>): the upload over any reader and flash updater, its lock and
    replies, and the reset by the loop at the end of \<open>main\<close>.
  \<^item> \<open>Boot_Cmd\<close>: the USB boot command, and the bootloader's watchdog write.  \<open>Flash_Map\<close>: the
    partitions of \<open>memory-app.x\<close> and \<open>bootloader/memory.x\<close>, where uploads write, and the
    bootloader's handover to the application.  \<open>Build\<close>: the build scripts, \<open>memory-standalone.x\<close>,
    and that each image is linked where it is started.
  \<^item> \<open>Bring_Up\<close>: the \<open>main\<close> functions as lists of actions per cargo feature, on task pools, socket
    slots, access point and pins; \<open>watchdog_task\<close>.  \<open>Portal\<close>: bring-up, DHCP, DNS and HTTP together.
    \<open>Log_Facade\<close>: \<open>src/defmt_log.rs\<close> and \<open>ap_log::emit\<close>.
  \<^item> \<open>Uart_Console\<close>, \<open>Uart_Bench\<close> (\<open>examples/uart-test.rs\<close>): console, receiver, transmitter.
  \<^item> \<open>Unit_Tests\<close>: the repository's unit tests, which pass on the model.

  \<^bold>\<open>What the lemmas show.\<close>  For the state: every task keeps its invariant and announces every
  visible change, so an event stream that waits has a signal or has shown the present state
  (\<open>stream_up_to_date\<close>).  For the whole hardware firmware under every interleaving: it refines the
  system of packets (\<open>firmware_refines_system\<close>), a phone sees the time of the last frame in the byte
  stream (\<open>phone_shows_last_frame\<close>).  For both builds with their HTTP workers: a status request and
  the physical scoreboard give the scores of a score keeper who took every accepted command, the
  answered ones among them (\<open>service_shows_commands\<close>); every request under way is answered and
  \<open>board_task\<close> comes to rest in every run (\<open>service_answers_all\<close>); streams leave eight workers free
  (\<open>workers_left\<close>).  For start, stop and set-timer: when the toggle button is pressed, that repeated
  requests press it once, that the pulses of a train lead to the target under every schedule
  (\<open>set_timer_reaches_target\<close>), and when the train itself starts a clock that stood still
  (\<open>train_toggles_stopped_clock\<close>).  For the LED: lit while nobody turns it off, but for one wait of the
  heartbeat (\<open>led_solid\<close>).  For requests: exactly which User-Agent stops the firmware
  (\<open>request_log_panics\<close>), and the page a phone is led to otherwise (\<open>phone_reaches_page\<close>).  For byte streams: packets are found however reads cut them, and nothing panics.  For
  packet code: parsers agree with reference encodings, replies read back, the lease table is a
  least-recently-used list, the DHCP handshake succeeds, two clients never hold one address, and the tasks run for ever once their port
  can be bound (\<open>udp_services_run\<close>).  For uploads: only complete images are
  marked, the reply says what happened, and every write stays in its partition.  For bring-up: the
  static pools suffice, nothing uses the Wi-Fi chip before its runner, and DHCP, DNS and HTTP lead to one address.  Loops that may run forever (\<open>bind_retry\<close>, a blast)
  are partial functions with the exact condition under which they return.

  \<^bold>\<open>Bounds.\<close>  A set-timer train needs at most \<open>99 + 59 = 158\<close> min/sec pulses; a loop round that sends
  none sends a start/stop pulse.  The number \<open>f\<close> of \<open>service_answers_all\<close> is any number of frames with a new
  time that still come during trains; that a train ends cannot be had without a bound on them, since
  each may stop the train for one more round.  Name decoders are bounded by their hop counters (10 in \<open>format_qname\<close>, 8 in
  \<open>qname_matches\<close>), which are the termination measures.  The lease sequence is a \<open>u32\<close> that
  wraps, after which the order of use is lost: the theorems on that order bound the number of
  datagrams by \<open>2 ^ 32\<close>; that addresses differ does not depend on it.  Task pools (twelve HTTP workers, one of every other task), 17 socket slots and the
  flash partitions are those of the code.  Counters that the code
  keeps at a width are words here and wrap or saturate as the code does.

  \<^bold>\<open>Parameters.\<close>  The clock (\<open>embassy_time\<close>), the upload's reader and the updater of
  \<open>embassy-boot\<close>, path segments that picoserve parses and its header lookup, the \<open>log\<close> crate's
  filter, the readings of \<open>LAST_RX_MS\<close>, the results of writes and binds in the bench tool and
  \<open>bind_retry\<close> and of joining the multicast group, the environment of the build scripts, and the
  version and commit that the build stamps into the status document.  A worker whose connection
  breaks may drop its request at any point: what picoserve does with it is left open.

  \<^bold>\<open>Not modelled.\<close>  The drivers behind bring-up (peripherals, PIO, Wi-Fi firmware); the bodies of
  the tasks that only call a driver (\<open>net_task\<close>, \<open>wifi_task\<close>, \<open>logger_task\<close>); the image swap
  (\<open>embassy-boot\<close>); the fault handlers of the bootloader, which stop for the debugger; picoserve's HTTP parsing and writing, socket timeouts and TCP; log lines, except
  where a line is computed (\<open>log_http\<close>, query names, the bench tool); waiting times, except where a
  decision depends on the clock.
\<close>

end
